(* ===== verification/Prelude.thy ===== *)
theory Prelude
  imports Main "HOL-Library.Word" "HOL-Library.Multiset"
begin

text \<open>
  Shared vocabulary of the development: Python exceptions as values of a sum type, the loops and
  the slices the sources use, ceiling division, byte strings and their big-endian integer
  encoding, and the generic list lemmas the component theories rest on.

  A Python function that may raise returns a value of type \<open>'a result\<close>: \<open>Inl e\<close> is the raised
  exception, \<open>Inr a\<close> the returned value (paired with the new state where the function mutates).
  Python integers are unbounded and are modelled by \<^typ>\<open>int\<close>; \<open>//\<close> and \<open>%\<close> round towards minus
  infinity, as \<open>div\<close> and \<open>mod\<close> do on \<^typ>\<open>int\<close>.
\<close>

section \<open>Exceptions as values\<close>

text \<open>\<open>NonTermination\<close> is no Python exception: it is the value of a loop model whose fuel ran out.\<close>

datatype py_error =
    ValueError | RuntimeError | AssertionError | IndexError | KeyError | TypeError
  | OverflowError | ZeroDivisionError | NotImplementedError | StopIteration | AttributeError | CompilationError
  | NonTermination

type_synonym 'a result = "py_error + 'a"

type_synonym bytes = "8 word list"

named_theorems result_simps \<open>case analysis of results that are known to be \<open>Inr\<close> or \<open>Inl\<close>\<close>

definition bind_r :: "'a result \<Rightarrow> ('a \<Rightarrow> 'b result) \<Rightarrow> 'b result" where
  "bind_r m f = (case m of Inl e \<Rightarrow> Inl e | Inr a \<Rightarrow> f a)"

definition assert_r :: "bool \<Rightarrow> unit result" where
  "assert_r b = (if b then Inr () else Inl AssertionError)"

definition guard_r :: "bool \<Rightarrow> py_error \<Rightarrow> unit result" where
  "guard_r b e = (if b then Inr () else Inl e)"

definition map_r :: "('a \<Rightarrow> 'b) \<Rightarrow> 'a result \<Rightarrow> 'b result" where
  "map_r f m = (case m of Inl e \<Rightarrow> Inl e | Inr a \<Rightarrow> Inr (f a))"

lemma bind_r_simps [simp]:
  "bind_r (Inr a) f = f a"
  "bind_r (Inl e) f = Inl e"
  by (simp_all add: bind_r_def)

lemma map_r_simps [simp]:
  "map_r f (Inr a) = Inr (f a)"
  "map_r f (Inl e) = Inl e"
  by (simp_all add: map_r_def)

lemma bind_r_eq_Inr [result_simps]:
  "bind_r m f = Inr b \<longleftrightarrow> (\<exists>a. m = Inr a \<and> f a = Inr b)"
  by (cases m) auto

lemma bind_r_eq_Inl [result_simps]:
  "bind_r m f = Inl e \<longleftrightarrow> m = Inl e \<or> (\<exists>a. m = Inr a \<and> f a = Inl e)"
  by (cases m) auto

lemma map_r_eq_Inr [result_simps]:
  "map_r f m = Inr b \<longleftrightarrow> (\<exists>a. m = Inr a \<and> b = f a)"
  by (cases m) auto

lemma assert_r_True [simp]: "assert_r True = Inr ()"
  by (simp add: assert_r_def)

lemma assert_r_False [simp]: "assert_r False = Inl AssertionError"
  by (simp add: assert_r_def)

lemma assert_r_eq_Inr [result_simps]: "assert_r b = Inr u \<longleftrightarrow> b"
  by (simp add: assert_r_def)

lemma guard_r_simps [simp]: "guard_r True e = Inr ()" "guard_r False e = Inl e"
  by (simp_all add: guard_r_def)

lemma guard_r_eq_Inr [result_simps]: "guard_r b e = Inr u \<longleftrightarrow> b"
  by (simp add: guard_r_def)

lemma bind_r_cong [fundef_cong]:
  "m = m' \<Longrightarrow> (\<And>a. m' = Inr a \<Longrightarrow> f a = f' a) \<Longrightarrow> bind_r m f = bind_r m' f'"
  by (cases m') auto

text \<open>A Python \<open>for\<close> loop whose body updates a state and may raise.\<close>

fun fold_r :: "('a \<Rightarrow> 's \<Rightarrow> 's result) \<Rightarrow> 'a list \<Rightarrow> 's \<Rightarrow> 's result" where
  "fold_r f [] s = Inr s"
| "fold_r f (x # xs) s = bind_r (f x s) (fold_r f xs)"

text \<open>A list comprehension whose element expression may raise.\<close>

fun map_result :: "('a \<Rightarrow> 'b result) \<Rightarrow> 'a list \<Rightarrow> 'b list result" where
  "map_result f [] = Inr []"
| "map_result f (x # xs) = bind_r (f x) (\<lambda>y. bind_r (map_result f xs) (\<lambda>ys. Inr (y # ys)))"

text \<open>\<open>all(...)\<close>, or a loop that returns False at the first element failing a test which may raise.\<close>

fun all_r :: "('a \<Rightarrow> bool result) \<Rightarrow> 'a list \<Rightarrow> bool result" where
  "all_r f [] = Inr True"
| "all_r f (x # xs) = bind_r (f x) (\<lambda>b. if b then all_r f xs else Inr False)"

lemma all_r_Inr: "(\<And>x. x \<in> set xs \<Longrightarrow> f x = Inr (P x)) \<Longrightarrow> all_r f xs = Inr (\<forall>x\<in>set xs. P x)"
  by (induction xs) auto

lemma fold_r_append: "fold_r f (xs @ ys) s = bind_r (fold_r f xs s) (fold_r f ys)"
  by (induction xs arbitrary: s) (auto simp: bind_r_def split: sum.splits)

lemma fold_r_invariant:
  assumes "P s" and "\<And>x s s'. x \<in> set xs \<Longrightarrow> P s \<Longrightarrow> f x s = Inr s' \<Longrightarrow> P s'"
    and "fold_r f xs s = Inr s'"
  shows "P s'"
  using assms by (induction xs arbitrary: s) (auto simp: result_simps)

lemma map_result_Inr:
  "(\<And>x. x \<in> set xs \<Longrightarrow> f x = Inr (g x)) \<Longrightarrow> map_result f xs = Inr (map g xs)"
  by (induction xs) auto

lemma length_map_result: "map_result f xs = Inr ys \<Longrightarrow> length ys = length xs"
  by (induction xs arbitrary: ys) (auto simp: result_simps)

lemma nat_int_minus_one [simp]: "nat (int n - 1) = n - 1"
  by simp

lemma upto_int_upt: "[0..int n - 1] = map int [0..<n]"
  by (induction n) (simp_all add: upto_rec2)

lemma upto_int_upt_from: "m \<le> n \<Longrightarrow> [int m..int n - 1] = map int [m..<n]"
  by (induction n rule: dec_induct) (simp_all add: upto_rec2)

lemma set_drop_distinct: "distinct xs \<Longrightarrow> set (drop n xs) = set xs - set (take n xs)"
proof -
  assume "distinct xs"
  then have "set (take n xs) \<inter> set (drop n xs) = {}" by (metis append_take_drop_id distinct_append)
  moreover have "set xs = set (take n xs) \<union> set (drop n xs)" by (metis append_take_drop_id set_append)
  ultimately show ?thesis by auto
qed

lemma distinct_count_list: "distinct xs \<Longrightarrow> count_list xs x = (if x \<in> set xs then 1 else 0)"
  by (induction xs) auto

lemma count_list_distinct_filter:
  "distinct (filter P xs) \<Longrightarrow> x \<in> set xs \<Longrightarrow> P x \<Longrightarrow> count_list xs x = 1"
  by (induction xs) (auto simp: count_list_0_iff split: if_splits)

lemma in_set_tlD: "x \<in> set (tl xs) \<Longrightarrow> x \<in> set xs"
  by (cases xs) auto

section \<open>Python indexing and slicing\<close>

text \<open>\<open>py_idx i n\<close>: where a slice bound \<open>i\<close> lands in a sequence of length \<open>n\<close> (negative bounds count
  from the end, bounds past an end are clamped).\<close>

definition py_idx :: "int \<Rightarrow> nat \<Rightarrow> nat" where
  "py_idx i n = nat (if i < 0 then max 0 (i + int n) else min i (int n))"

definition slice_from :: "'a list \<Rightarrow> int \<Rightarrow> 'a list" where
  "slice_from xs i = drop (py_idx i (length xs)) xs"

definition slice_to :: "'a list \<Rightarrow> int \<Rightarrow> 'a list" where
  "slice_to xs j = take (py_idx j (length xs)) xs"

definition slice :: "'a list \<Rightarrow> int \<Rightarrow> int \<Rightarrow> 'a list" where
  "slice xs i j = drop (py_idx i (length xs)) (take (py_idx j (length xs)) xs)"

definition nth_r :: "'a list \<Rightarrow> int \<Rightarrow> 'a result" where
  "nth_r xs i =
     (if i < - int (length xs) \<or> int (length xs) \<le> i then Inl IndexError
      else Inr (xs ! nat (i mod int (length xs))))"

text \<open>\<open>[x] * n\<close>: the empty list for a negative \<open>n\<close>.\<close>

definition repeat_list :: "'a \<Rightarrow> int \<Rightarrow> 'a list" where
  "repeat_list x n = replicate (nat n) x"

lemma py_idx_nonneg: "0 \<le> i \<Longrightarrow> py_idx i n = min (nat i) n"
  by (auto simp: py_idx_def min_def)

lemma slice_from_nonneg [simp]: "0 \<le> i \<Longrightarrow> slice_from xs i = drop (nat i) xs"
  by (auto simp: slice_from_def py_idx_nonneg min_def)

lemma slice_to_nonneg [simp]: "0 \<le> j \<Longrightarrow> slice_to xs j = take (nat j) xs"
  by (auto simp: slice_to_def py_idx_nonneg min_def)

lemma slice_nonneg [simp]:
  "0 \<le> i \<Longrightarrow> 0 \<le> j \<Longrightarrow> slice xs i j = drop (nat i) (take (nat j) xs)"
  by (auto simp: slice_def py_idx_nonneg min_def)

lemma length_slice_nonneg:
  "0 \<le> i \<Longrightarrow> i \<le> j \<Longrightarrow> j \<le> int (length xs) \<Longrightarrow> int (length (slice xs i j)) = j - i"
  by simp

lemma nth_r_nat [simp]: "i < length xs \<Longrightarrow> nth_r xs (int i) = Inr (xs ! i)"
  by (simp add: nth_r_def)

lemma nth_r_last: "xs \<noteq> [] \<Longrightarrow> nth_r xs (-1) = Inr (last xs)"
proof -
  assume ne: "xs \<noteq> []"
  then have "(-1) mod int (length xs) = int (length xs - 1)"
    by (cases xs) (auto simp: zmod_minus1)
  with ne show ?thesis by (simp add: nth_r_def last_conv_nth Suc_leI nat_diff_distrib)
qed

lemma nth_r_eq_Inr:
  "0 \<le> i \<Longrightarrow> nth_r xs i = Inr x \<longleftrightarrow> i < int (length xs) \<and> x = xs ! nat i"
  by (auto simp: nth_r_def)

lemma length_repeat_list [simp]: "length (repeat_list x n) = nat n"
  by (simp add: repeat_list_def)

lemma set_repeat_list [simp]: "y \<in> set (repeat_list x n) \<Longrightarrow> y = x"
  by (simp add: repeat_list_def)

section \<open>Ceiling division\<close>

text \<open>\<open>cdiv\<close> and \<open>round_up\<close> of \<open>vllm/utils/math_utils.py\<close>.\<close>

definition cdiv :: "int \<Rightarrow> int \<Rightarrow> int" where
  "cdiv a b = - (a div (- b))"

definition round_up :: "int \<Rightarrow> int \<Rightarrow> int" where
  "round_up x y = ((x + y - 1) div y) * y"

lemma le_div_iff_int: "0 < (b::int) \<Longrightarrow> n \<le> a div b \<longleftrightarrow> n * b \<le> a"
proof
  assume b: "0 < b" and "n \<le> a div b"
  then have "n * b \<le> (a div b) * b" by (simp add: mult_right_mono)
  also have "\<dots> \<le> a" using b by (metis div_mod_decomp_int le_add_same_cancel1 pos_mod_sign)
  finally show "n * b \<le> a" .
next
  assume b: "0 < b" and le: "n * b \<le> a"
  from le b have "(n * b) div b \<le> a div b" by (rule zdiv_mono1)
  then show "n \<le> a div b" using b by simp
qed

lemma cdiv_le_iff: "0 < b \<Longrightarrow> cdiv a b \<le> n \<longleftrightarrow> a \<le> n * b"
  using le_div_iff_int[of b "- n" "- a"] by (auto simp: cdiv_def div_minus_right)

lemma less_cdiv_iff: "0 < b \<Longrightarrow> n < cdiv a b \<longleftrightarrow> n * b < a"
  using cdiv_le_iff[of b a n] by auto

lemma cdiv_nonneg: "0 < b \<Longrightarrow> 0 \<le> a \<Longrightarrow> 0 \<le> cdiv a b"
  using cdiv_le_iff[of b a "-1"] by (smt (verit) mult_minus_left)

lemma cdiv_mono: "0 < b \<Longrightarrow> a \<le> a' \<Longrightarrow> cdiv a b \<le> cdiv a' b"
  using cdiv_le_iff[of b a "cdiv a' b"] cdiv_le_iff[of b a' "cdiv a' b"] by auto

lemma cdiv_mult [simp]: "0 < b \<Longrightarrow> cdiv (n * b) b = n"
  by (metis cdiv_le_iff less_cdiv_iff mult_less_cancel_right order_antisym_conv not_le order_refl)

lemma cdiv_covers: "0 < b \<Longrightarrow> a \<le> cdiv a b * b"
  using cdiv_le_iff[of b a "cdiv a b"] by auto

lemma cdiv_tight: "0 < b \<Longrightarrow> (cdiv a b - 1) * b < a"
  using less_cdiv_iff[of b "cdiv a b - 1" a] by auto

lemma div_le_cdiv: "0 < b \<Longrightarrow> a div b \<le> cdiv a b"
  using cdiv_covers[of b a] by (smt (verit) le_div_iff_int mult_less_cancel_right not_le order_trans)

section \<open>Big-endian byte strings\<close>

text \<open>\<open>int.from_bytes(b, "big", signed=False)\<close> and \<open>i.to_bytes(n, "big", signed=False)\<close>.\<close>

definition from_bytes_big :: "bytes \<Rightarrow> int" where
  "from_bytes_big bs = foldl (\<lambda>acc b. acc * 256 + uint b) 0 bs"

fun to_bytes_list :: "nat \<Rightarrow> int \<Rightarrow> bytes" where
  "to_bytes_list 0 i = []"
| "to_bytes_list (Suc n) i = to_bytes_list n (i div 256) @ [word_of_int (i mod 256)]"

definition to_bytes_big :: "int \<Rightarrow> nat \<Rightarrow> bytes result" where
  "to_bytes_big i n = (if 0 \<le> i \<and> i < 256 ^ n then Inr (to_bytes_list n i) else Inl OverflowError)"

lemma length_to_bytes_list [simp]: "length (to_bytes_list n i) = n"
  by (induction n i rule: to_bytes_list.induct) auto

lemma from_bytes_big_snoc:
  "from_bytes_big (bs @ [b]) = from_bytes_big bs * 256 + uint b"
  by (simp add: from_bytes_big_def)

lemma uint_byte_mod: "uint (word_of_int (i mod 256) :: 8 word) = i mod 256"
  by (simp add: unsigned_of_int take_bit_eq_mod)

lemma from_to_bytes_list:
  "0 \<le> i \<Longrightarrow> i < 256 ^ n \<Longrightarrow> from_bytes_big (to_bytes_list n i) = i"
proof (induction n i rule: to_bytes_list.induct)
  case (1 i)
  then show ?case by (simp add: from_bytes_big_def)
next
  case (2 n i)
  then have "i div 256 < 256 ^ n" by (simp flip: not_le add: le_div_iff_int mult.commute)
  with 2 show ?case
    by (simp add: from_bytes_big_snoc uint_byte_mod)
qed

end
