(* ===== verification/Free_Queue.thy ===== *)
theory Free_Queue
  imports Prelude
begin

text \<open>
  The free-block queue of \<open>vllm/v1/core/kv_cache_utils.py\<close>: \<open>KVCacheBlock\<close> (lines 113-146) and
  \<open>FreeKVCacheBlockQueue\<close> (lines 162-370), a doubly linked list threaded through the
  \<open>prev_free_block\<close> and \<open>next_free_block\<close> attributes of the blocks themselves.

  Python objects with identity become addresses into an explicit store: the two sentinel objects
  and the blocks \<open>KVCacheBlock(i)\<close>.  Every attribute assignment of the source is one store update.
  The abstraction \<open>queue_inv q xs\<close> says that the pointers spell the list \<open>xs\<close>; every method is
  proved to act on \<open>xs\<close> as the corresponding list operation.
\<close>

section \<open>Blocks and the store\<close>

datatype block_ref = FakeHead | FakeTail | Block nat

record KVCacheBlock =
  block_id :: int
  ref_cnt :: int
  block_hash :: "bytes option"
  prev_free_block :: "block_ref option"
  next_free_block :: "block_ref option"
  is_null :: bool

type_synonym store = "block_ref \<Rightarrow> KVCacheBlock"

definition new_block :: "int \<Rightarrow> KVCacheBlock" where
  "new_block i = \<lparr>block_id = i, ref_cnt = 0, block_hash = None,
     prev_free_block = None, next_free_block = None, is_null = False\<rparr>"

text \<open>The \<open>block_hash\<close> setter asserts that no hash is set; \<open>reset_hash\<close> clears it.\<close>

definition set_block_hash :: "block_ref \<Rightarrow> bytes \<Rightarrow> store \<Rightarrow> store result" where
  "set_block_hash b k h = bind_r (assert_r (block_hash (h b) = None))
     (\<lambda>_. Inr (h(b := (h b)\<lparr>block_hash := Some k\<rparr>)))"

definition reset_hash :: "block_ref \<Rightarrow> store \<Rightarrow> store" where
  "reset_hash b h = h(b := (h b)\<lparr>block_hash := None\<rparr>)"

definition set_prev :: "block_ref \<Rightarrow> block_ref option \<Rightarrow> store \<Rightarrow> store" where
  "set_prev b v h = h(b := (h b)\<lparr>prev_free_block := v\<rparr>)"

definition set_next :: "block_ref \<Rightarrow> block_ref option \<Rightarrow> store \<Rightarrow> store" where
  "set_next b v h = h(b := (h b)\<lparr>next_free_block := v\<rparr>)"

record FreeKVCacheBlockQueue =
  blk :: store
  num_free_blocks :: int

section \<open>The queue operations\<close>

definition init_link :: "block_ref list \<Rightarrow> nat \<Rightarrow> store \<Rightarrow> store" where
  "init_link blocks i h =
     (let h = (if i > 0 then set_prev (blocks ! i) (Some (blocks ! (i - 1))) h else h)
      in if i < length blocks - 1 then set_next (blocks ! i) (Some (blocks ! (i + 1))) h else h)"

definition free_queue_init :: "block_ref list \<Rightarrow> store \<Rightarrow> FreeKVCacheBlockQueue" where
  "free_queue_init blocks h =
     (let n = length blocks;
          h = fold (init_link blocks) [0..<n] h;
          h = h(FakeHead := new_block (-1), FakeTail := new_block (-1));
          h = (if n > 0
               then set_next (last blocks) (Some FakeTail)
                     (set_prev FakeTail (Some (last blocks))
                       (set_prev (hd blocks) (Some FakeHead)
                         (set_next FakeHead (Some (hd blocks)) h)))
               else set_prev FakeTail (Some FakeHead) (set_next FakeHead (Some FakeTail) h))
      in \<lparr>blk = h, num_free_blocks = int n\<rparr>)"

definition popleft :: "FreeKVCacheBlockQueue \<Rightarrow> (block_ref \<times> FreeKVCacheBlockQueue) result" where
  "popleft q =
     (let h = blk q in
      case next_free_block (h FakeHead) of
        None \<Rightarrow> bind_r (assert_r (num_free_blocks q = 0)) (\<lambda>_. Inl ValueError)
      | Some first \<Rightarrow>
          if first = FakeTail
          then bind_r (assert_r (num_free_blocks q = 0)) (\<lambda>_. Inl ValueError)
          else (case next_free_block (h first) of
              None \<Rightarrow> Inl RuntimeError
            | Some second \<Rightarrow>
                let h = set_next FakeHead (Some second) h;
                    h = set_prev second (Some FakeHead) h;
                    h = set_next first None (set_prev first None h)
                in Inr (first, \<lparr>blk = h, num_free_blocks = num_free_blocks q - 1\<rparr>)))"

fun popleft_n_loop ::
    "nat \<Rightarrow> store \<Rightarrow> block_ref option \<Rightarrow> block_ref list \<Rightarrow> (store \<times> block_ref option \<times> block_ref list) result"
where
  "popleft_n_loop 0 h cur ret = Inr (h, cur, ret)"
| "popleft_n_loop (Suc k) h None ret = Inl AssertionError"
| "popleft_n_loop (Suc k) h (Some b) ret =
     popleft_n_loop k (set_next b None (set_prev b None h)) (next_free_block (h b)) (ret @ [b])"

definition popleft_n ::
    "int \<Rightarrow> FreeKVCacheBlockQueue \<Rightarrow> (block_ref list \<times> FreeKVCacheBlockQueue) result" where
  "popleft_n n q =
     (if n = 0 then Inr ([], q)
      else bind_r (assert_r (num_free_blocks q \<ge> n)) (\<lambda>_.
        bind_r (popleft_n_loop (nat n) (blk q) (next_free_block (blk q FakeHead)) [])
          (\<lambda>(h, cur, ret).
            let h = (case cur of None \<Rightarrow> h
                     | Some c \<Rightarrow> set_prev c (Some FakeHead) (set_next FakeHead (Some c) h))
            in Inr (ret, \<lparr>blk = h, num_free_blocks = num_free_blocks q - n\<rparr>))))"

definition remove_block :: "block_ref \<Rightarrow> FreeKVCacheBlockQueue \<Rightarrow> FreeKVCacheBlockQueue result" where
  "remove_block b q =
     (let h = blk q in
      case (prev_free_block (h b), next_free_block (h b)) of
        (Some p, Some n) \<Rightarrow>
          let h = set_next p (Some n) h;
              h = set_prev n (Some p) h;
              h = set_next b None (set_prev b None h)
          in Inr \<lparr>blk = h, num_free_blocks = num_free_blocks q - 1\<rparr>
      | _ \<Rightarrow> Inl RuntimeError)"

definition append_block :: "block_ref \<Rightarrow> FreeKVCacheBlockQueue \<Rightarrow> FreeKVCacheBlockQueue result" where
  "append_block b q =
     (case prev_free_block (blk q FakeTail) of
        None \<Rightarrow> Inl RuntimeError
      | Some l \<Rightarrow>
          let h = set_next l (Some b) (blk q);
              h = set_prev b (Some l) h;
              h = set_next b (Some FakeTail) h;
              h = set_prev FakeTail (Some b) h
          in Inr \<lparr>blk = h, num_free_blocks = num_free_blocks q + 1\<rparr>)"

fun append_n_loop :: "block_ref list \<Rightarrow> block_ref \<Rightarrow> store \<Rightarrow> store \<times> block_ref" where
  "append_n_loop [] l h = (h, l)"
| "append_n_loop (b # bs) l h = append_n_loop bs b (set_next l (Some b) (set_prev b (Some l) h))"

definition append_n :: "block_ref list \<Rightarrow> FreeKVCacheBlockQueue \<Rightarrow> FreeKVCacheBlockQueue result" where
  "append_n bs q =
     (if bs = [] then Inr q
      else (case prev_free_block (blk q FakeTail) of
          None \<Rightarrow> Inl AssertionError
        | Some l \<Rightarrow>
            let (h, l) = append_n_loop bs l (blk q);
                h = set_next l (Some FakeTail) h;
                h = set_prev FakeTail (Some l) h
            in Inr \<lparr>blk = h, num_free_blocks = num_free_blocks q + int (length bs)\<rparr>))"

text \<open>The walk may run forever on a cyclic chain; \<open>None\<close> is then its value.\<close>

partial_function (option) free_walk ::
    "store \<Rightarrow> block_ref \<Rightarrow> block_ref list \<Rightarrow> block_ref list option" where
  "free_walk h cur ret =
     (case next_free_block (h cur) of
        None \<Rightarrow> Some ret
      | Some n \<Rightarrow> free_walk h n (ret @ [cur]))"

definition get_all_free_blocks :: "FreeKVCacheBlockQueue \<Rightarrow> block_ref list result option" where
  "get_all_free_blocks q =
     (case next_free_block (blk q FakeHead) of
        None \<Rightarrow> Some (Inl RuntimeError)
      | Some c \<Rightarrow> map_option Inr (free_walk (blk q) c []))"

section \<open>Call sequences and the list they are meant to act on\<close>

datatype queue_op = PopLeft | PopLeftN int | Remove block_ref | Append block_ref | AppendN "block_ref list"

text \<open>One method call: the blocks it returns and the new queue.\<close>

definition queue_step :: "queue_op \<Rightarrow> FreeKVCacheBlockQueue \<Rightarrow> (block_ref list \<times> FreeKVCacheBlockQueue) result" where
  "queue_step c q =
     (case c of
        PopLeft \<Rightarrow> map_r (\<lambda>(b, q). ([b], q)) (popleft q)
      | PopLeftN n \<Rightarrow> popleft_n n q
      | Remove b \<Rightarrow> map_r (\<lambda>q. ([], q)) (remove_block b q)
      | Append b \<Rightarrow> map_r (\<lambda>q. ([], q)) (append_block b q)
      | AppendN bs \<Rightarrow> map_r (\<lambda>q. ([], q)) (append_n bs q))"

fun queue_run :: "queue_op list \<Rightarrow> FreeKVCacheBlockQueue \<Rightarrow> (block_ref list list \<times> FreeKVCacheBlockQueue) result" where
  "queue_run [] q = Inr ([], q)"
| "queue_run (c # cs) q =
     bind_r (queue_step c q) (\<lambda>(out, q). map_r (\<lambda>(outs, q). (out # outs, q)) (queue_run cs q))"

text \<open>The specification: a list, popped at the front and extended at the back.\<close>

definition list_step :: "queue_op \<Rightarrow> block_ref list \<Rightarrow> (block_ref list \<times> block_ref list) result" where
  "list_step c xs =
     (case c of
        PopLeft \<Rightarrow> (if xs = [] then Inl ValueError else Inr ([hd xs], tl xs))
      | PopLeftN n \<Rightarrow> (if n \<le> int (length xs) then Inr (take (nat n) xs, drop (nat n) xs) else Inl AssertionError)
      | Remove b \<Rightarrow> (if b \<in> set xs then Inr ([], remove1 b xs) else Inl RuntimeError)
      | Append b \<Rightarrow> Inr ([], xs @ [b])
      | AppendN bs \<Rightarrow> Inr ([], xs @ bs))"

fun list_run :: "queue_op list \<Rightarrow> block_ref list \<Rightarrow> (block_ref list list \<times> block_ref list) result" where
  "list_run [] xs = Inr ([], xs)"
| "list_run (c # cs) xs =
     bind_r (list_step c xs) (\<lambda>(out, xs). map_r (\<lambda>(outs, xs). (out # outs, xs)) (list_run cs xs))"

text \<open>What callers owe: counts are not negative, and only real blocks that are not in the queue are
  put into it.\<close>

definition op_ok :: "queue_op \<Rightarrow> block_ref list \<Rightarrow> bool" where
  "op_ok c xs =
     (case c of
        PopLeft \<Rightarrow> True
      | PopLeftN n \<Rightarrow> 0 \<le> n
      | Remove b \<Rightarrow> b \<noteq> FakeHead \<and> b \<noteq> FakeTail
      | Append b \<Rightarrow> b \<noteq> FakeHead \<and> b \<noteq> FakeTail \<and> b \<notin> set xs
      | AppendN bs \<Rightarrow> distinct bs \<and> list_all (\<lambda>b. b \<noteq> FakeHead \<and> b \<noteq> FakeTail \<and> b \<notin> set xs) bs)"

fun ops_ok :: "queue_op list \<Rightarrow> block_ref list \<Rightarrow> bool" where
  "ops_ok [] xs \<longleftrightarrow> True"
| "ops_ok (c # cs) xs \<longleftrightarrow> op_ok c xs \<and> (case list_step c xs of Inl _ \<Rightarrow> True | Inr (_, xs') \<Rightarrow> ops_ok cs xs')"

section \<open>Field access after an update\<close>

named_theorems heap_simps \<open>fields of a block after a link or hash update\<close>

lemma set_prev_fields [heap_simps]:
  "prev_free_block (set_prev b v h x) = (if x = b then v else prev_free_block (h x))"
  "next_free_block (set_prev b v h x) = next_free_block (h x)"
  "block_id (set_prev b v h x) = block_id (h x)"
  "ref_cnt (set_prev b v h x) = ref_cnt (h x)"
  "block_hash (set_prev b v h x) = block_hash (h x)"
  "is_null (set_prev b v h x) = is_null (h x)"
  by (simp_all add: set_prev_def)

lemma set_next_fields [heap_simps]:
  "next_free_block (set_next b v h x) = (if x = b then v else next_free_block (h x))"
  "prev_free_block (set_next b v h x) = prev_free_block (h x)"
  "block_id (set_next b v h x) = block_id (h x)"
  "ref_cnt (set_next b v h x) = ref_cnt (h x)"
  "block_hash (set_next b v h x) = block_hash (h x)"
  "is_null (set_next b v h x) = is_null (h x)"
  by (simp_all add: set_next_def)

text \<open>Two stores with the same payload: the queue's methods touch the links only.\<close>

definition payload_eq :: "store \<Rightarrow> store \<Rightarrow> bool" where
  "payload_eq h h' \<longleftrightarrow> (\<forall>r. block_id (h' r) = block_id (h r) \<and> ref_cnt (h' r) = ref_cnt (h r)
      \<and> block_hash (h' r) = block_hash (h r) \<and> is_null (h' r) = is_null (h r))"

definition links_eq :: "store \<Rightarrow> store \<Rightarrow> bool" where
  "links_eq h h' \<longleftrightarrow> (\<forall>r. prev_free_block (h' r) = prev_free_block (h r)
      \<and> next_free_block (h' r) = next_free_block (h r))"

lemma payload_eq_refl [simp]: "payload_eq h h"
  by (simp add: payload_eq_def)

lemma payload_eq_trans: "payload_eq h h' \<Longrightarrow> payload_eq h' h'' \<Longrightarrow> payload_eq h h''"
  by (simp add: payload_eq_def)

lemma payload_eq_set [simp]:
  "payload_eq h (set_prev b v h') = payload_eq h h'"
  "payload_eq h (set_next b v h') = payload_eq h h'"
  by (simp_all add: payload_eq_def heap_simps)

lemma payload_eqD:
  "payload_eq h h' \<Longrightarrow> block_id (h' r) = block_id (h r)"
  "payload_eq h h' \<Longrightarrow> ref_cnt (h' r) = ref_cnt (h r)"
  "payload_eq h h' \<Longrightarrow> block_hash (h' r) = block_hash (h r)"
  "payload_eq h h' \<Longrightarrow> is_null (h' r) = is_null (h r)"
  by (simp_all add: payload_eq_def)

section \<open>Chains of pointers\<close>

fun linked :: "store \<Rightarrow> block_ref list \<Rightarrow> bool" where
  "linked h (a # b # xs) \<longleftrightarrow>
     next_free_block (h a) = Some b \<and> prev_free_block (h b) = Some a \<and> linked h (b # xs)"
| "linked h _ \<longleftrightarrow> True"

definition real_block :: "block_ref \<Rightarrow> bool" where
  "real_block b \<longleftrightarrow> b \<noteq> FakeHead \<and> b \<noteq> FakeTail"

definition queue_inv :: "FreeKVCacheBlockQueue \<Rightarrow> block_ref list \<Rightarrow> bool" where
  "queue_inv q xs \<longleftrightarrow>
     linked (blk q) (FakeHead # xs @ [FakeTail]) \<and> distinct xs \<and> list_all real_block xs
     \<and> next_free_block (blk q FakeTail) = None
     \<and> (\<forall>b. real_block b \<and> b \<notin> set xs \<longrightarrow>
          prev_free_block (blk q b) = None \<and> next_free_block (blk q b) = None)
     \<and> num_free_blocks q = int (length xs)"

lemma linked_append:
  "linked h (xs @ m # ys) \<longleftrightarrow> linked h (xs @ [m]) \<and> linked h (m # ys)"
  by (induction h xs rule: linked.induct) (auto simp: neq_Nil_conv)

lemma linked_cong:
  assumes "\<And>r. r \<in> set (butlast xs) \<Longrightarrow> next_free_block (h' r) = next_free_block (h r)"
    and "\<And>r. r \<in> set (tl xs) \<Longrightarrow> prev_free_block (h' r) = prev_free_block (h r)"
  shows "linked h' xs = linked h xs"
  using assms
proof (induction h xs rule: linked.induct)
  case (1 h a b xs)
  have "linked h' (b # xs) = linked h (b # xs)"
    using 1 by (intro "1.IH") (auto dest: in_set_tlD)
  with 1 show ?case by simp
qed auto

lemma linked_nth:
  "linked h xs \<longleftrightarrow> (\<forall>i. Suc i < length xs \<longrightarrow>
     next_free_block (h (xs ! i)) = Some (xs ! Suc i) \<and> prev_free_block (h (xs ! Suc i)) = Some (xs ! i))"
proof (induction h xs rule: linked.induct)
  case (1 h a b xs)
  then show ?case by (auto simp: less_Suc_eq_0_disj all_conj_distrib nth_Cons split: nat.splits)
qed auto

lemma linked_unlink:
  assumes "linked h (as @ p # x # n # bs)" and "distinct (as @ p # x # n # bs)"
  shows "linked (set_next x None (set_prev x None (set_prev n (Some p) (set_next p (Some n) h))))
           (as @ p # n # bs)" (is "linked ?h _")
proof -
  have "linked ?h (as @ [p]) = linked h (as @ [p])"
    using assms(2) by (intro linked_cong) (auto simp: heap_simps dest: in_set_tlD)
  moreover have "linked ?h (n # bs) = linked h (n # bs)"
    using assms(2) by (intro linked_cong) (auto simp: heap_simps dest: in_set_butlastD split: if_splits)
  moreover have "next_free_block (?h p) = Some n" "prev_free_block (?h n) = Some p"
    using assms(2) by (auto simp: heap_simps)
  ultimately show ?thesis
    using assms(1) linked_append[of h as p "x # n # bs"] linked_append[of ?h as p "n # bs"] by simp
qed

lemma append_n_loop_linked:
  assumes "linked h (as @ [l])" and "distinct (as @ l # bs)"
  shows "linked (fst (append_n_loop bs l h)) (as @ l # bs)"
  using assms
proof (induction bs arbitrary: as l h)
  case Nil
  then show ?case by simp
next
  case (Cons b bs)
  let ?h = "set_next l (Some b) (set_prev b (Some l) h)"
  have "linked ?h (as @ [l]) = linked h (as @ [l])"
    using Cons.prems(2) by (intro linked_cong) (auto simp: heap_simps dest: in_set_tlD)
  with Cons.prems have "linked ?h ((as @ [l]) @ [b])"
    using linked_append[of ?h as l "[b]"] by (auto simp: heap_simps)
  from Cons.IH[OF this] Cons.prems(2) show ?case by simp
qed

lemma append_n_loop_last: "snd (append_n_loop bs l h) = last (l # bs)"
  by (induction bs arbitrary: l h) auto

lemma append_n_loop_frame:
  "r \<notin> set (l # bs) \<Longrightarrow> next_free_block (fst (append_n_loop bs l h) r) = next_free_block (h r)"
  "r \<notin> set bs \<Longrightarrow> prev_free_block (fst (append_n_loop bs l h) r) = prev_free_block (h r)"
  by (induction bs arbitrary: l h) (auto simp: heap_simps)

lemma append_n_loop_payload [simp]: "payload_eq h (fst (append_n_loop bs l h'))= payload_eq h h'"
  by (induction bs arbitrary: l h') auto

abbreviation clear_links :: "block_ref \<Rightarrow> store \<Rightarrow> store" where
  "clear_links b h \<equiv> set_next b None (set_prev b None h)"

lemma fold_clear_links:
  "prev_free_block (fold clear_links xs h r) = (if r \<in> set xs then None else prev_free_block (h r))"
  "next_free_block (fold clear_links xs h r) = (if r \<in> set xs then None else next_free_block (h r))"
  by (induction xs arbitrary: h) (auto simp: heap_simps)

lemma fold_clear_links_payload [simp]: "payload_eq h (fold clear_links xs h') = payload_eq h h'"
  by (induction xs arbitrary: h') auto

lemma popleft_n_loop_spec:
  assumes "linked h (xs @ c # zs)" and "distinct (xs @ c # zs)"
  shows "popleft_n_loop (length xs) h (Some (hd (xs @ c # zs))) ret
           = Inr (fold clear_links xs h, Some c, ret @ xs)"
  using assms
proof (induction xs arbitrary: h ret)
  case Nil
  then show ?case by simp
next
  case (Cons x xs)
  have nxt: "next_free_block (h x) = Some (hd (xs @ c # zs))"
    using Cons.prems(1) by (cases xs) auto
  have "linked (clear_links x h) (xs @ c # zs) = linked h (xs @ c # zs)"
    using Cons.prems(2)
    by (intro linked_cong) (auto simp: heap_simps dest: in_set_butlastD in_set_tlD)
  with Cons.prems have "linked (clear_links x h) (xs @ c # zs)"
    by (cases xs) auto
  from Cons.IH[OF this] Cons.prems(2) nxt show ?case by simp
qed

lemma free_walk_spec:
  assumes "linked h (xs @ [t])" and "next_free_block (h t) = None"
  shows "free_walk h (hd (xs @ [t])) ret = Some (ret @ xs)"
  using assms
proof (induction xs arbitrary: ret)
  case Nil
  then show ?case by (simp add: free_walk.simps)
next
  case (Cons x xs)
  then have nxt: "next_free_block (h x) = Some (hd (xs @ [t]))" and "linked h (xs @ [t])"
    by (cases xs; auto)+
  with Cons.IH[of "ret @ [x]"] Cons.prems(2) nxt show ?case
    by (simp add: free_walk.simps[of h x])
qed

section \<open>Every method acts on the abstract list\<close>

lemma queue_invD:
  assumes "queue_inv q xs"
  shows "linked (blk q) (FakeHead # xs @ [FakeTail])" "distinct (FakeHead # xs @ [FakeTail])"
    "next_free_block (blk q FakeTail) = None" "num_free_blocks q = int (length xs)"
    "\<And>b. b \<in> set xs \<Longrightarrow> real_block b"
    "\<And>b. real_block b \<Longrightarrow> b \<notin> set xs \<Longrightarrow> prev_free_block (blk q b) = None"
    "\<And>b. real_block b \<Longrightarrow> b \<notin> set xs \<Longrightarrow> next_free_block (blk q b) = None"
  using assms by (auto simp: queue_inv_def list_all_iff real_block_def)

lemma queue_inv_links_eq:
  assumes "links_eq (blk q) h"
  shows "queue_inv (q\<lparr>blk := h\<rparr>) xs = queue_inv q xs"
proof -
  have "linked h ys = linked (blk q) ys" for ys
    using assms by (intro linked_cong) (auto simp: links_eq_def)
  with assms show ?thesis by (simp add: queue_inv_def links_eq_def)
qed

lemma linked_tail: "linked h (a # xs) \<Longrightarrow> linked h xs"
  by (cases xs) auto

lemma queue_inv_walk:
  assumes "queue_inv q xs"
  shows "\<exists>c. next_free_block (blk q FakeHead) = Some c \<and> free_walk (blk q) c [] = Some xs"
proof -
  have "next_free_block (blk q FakeHead) = Some (hd (xs @ [FakeTail]))"
    using queue_invD(1)[OF assms] by (cases xs) auto
  moreover have "free_walk (blk q) (hd (xs @ [FakeTail])) [] = Some xs"
    using free_walk_spec[OF linked_tail[OF queue_invD(1)[OF assms]] queue_invD(3)[OF assms], of "[]"]
    by simp
  ultimately show ?thesis by blast
qed

lemma queue_inv_unique: "queue_inv q xs \<Longrightarrow> queue_inv q ys \<Longrightarrow> xs = ys"
  using queue_inv_walk[of q xs] queue_inv_walk[of q ys] by auto

lemma remove_block_spec:
  assumes inv: "queue_inv q (ys @ b # zs)"
  shows "\<exists>q'. remove_block b q = Inr q' \<and> queue_inv q' (ys @ zs) \<and> payload_eq (blk q) (blk q')"
proof -
  note D = queue_invD[OF inv]
  obtain as p where asp: "FakeHead # ys = as @ [p]" by (metis rev_exhaust list.distinct(1))
  obtain n bs where nbs: "zs @ [FakeTail] = n # bs" by (cases zs) auto
  have full: "FakeHead # (ys @ b # zs) @ [FakeTail] = as @ p # b # n # bs"
  proof -
    have "FakeHead # (ys @ b # zs) @ [FakeTail] = (FakeHead # ys) @ b # (zs @ [FakeTail])" by simp
    then show ?thesis by (simp only: asp nbs) simp
  qed
  have lnk: "linked (blk q) (as @ p # b # n # bs)" and dst: "distinct (as @ p # b # n # bs)"
    using D(1,2) unfolding full by blast+
  then have pn: "prev_free_block (blk q b) = Some p" "next_free_block (blk q b) = Some n"
    using linked_append[of "blk q" as p "b # n # bs"] by auto
  let ?h = "clear_links b (set_prev n (Some p) (set_next p (Some n) (blk q)))"
  let ?q = "\<lparr>blk = ?h, num_free_blocks = num_free_blocks q - 1\<rparr>"
  have full': "FakeHead # (ys @ zs) @ [FakeTail] = as @ p # n # bs"
  proof -
    have "FakeHead # (ys @ zs) @ [FakeTail] = (FakeHead # ys) @ zs @ [FakeTail]" by simp
    then show ?thesis by (simp only: asp nbs) simp
  qed
  have "p = last (FakeHead # ys)" using asp by simp
  then have psub: "p = FakeHead \<or> p \<in> set ys" by (cases ys) auto
  have nsub: "n = FakeTail \<or> n \<in> set zs" using nbs by (cases zs) auto
  have tail: "p \<noteq> FakeTail" "b \<noteq> FakeTail"
    using D(2) psub by auto
  have "linked ?h (FakeHead # (ys @ zs) @ [FakeTail])"
    unfolding full' by (rule linked_unlink[OF lnk dst])
  then have "queue_inv ?q (ys @ zs)"
    unfolding queue_inv_def using D tail psub nsub
    by (auto simp: heap_simps list_all_iff real_block_def)
  moreover have "remove_block b q = Inr ?q"
    using pn by (simp add: remove_block_def Let_def)
  ultimately show ?thesis by auto
qed

lemma remove_block_invalid:
  "queue_inv q xs \<Longrightarrow> real_block b \<Longrightarrow> b \<notin> set xs \<Longrightarrow> remove_block b q = Inl RuntimeError"
  using queue_invD(6)[of q xs b] by (simp add: remove_block_def Let_def)

lemma popleft_spec:
  assumes inv: "queue_inv q (x # xs)"
  shows "\<exists>q'. popleft q = Inr (x, q') \<and> queue_inv q' xs \<and> payload_eq (blk q) (blk q')"
proof -
  obtain q' where q': "remove_block x q = Inr q'" "queue_inv q' xs" "payload_eq (blk q) (blk q')"
    using remove_block_spec[of q "[]" x xs] inv by auto
  obtain n bs where n: "xs @ [FakeTail] = n # bs" by (cases xs) auto
  then have "next_free_block (blk q FakeHead) = Some x" "prev_free_block (blk q x) = Some FakeHead"
    "next_free_block (blk q x) = Some n" "x \<noteq> FakeTail"
    using queue_invD(1)[OF inv] queue_invD(5)[OF inv, of x] by (auto simp: real_block_def)
  with q' show ?thesis
    by (auto simp: popleft_def remove_block_def Let_def)
qed

lemma popleft_empty: "queue_inv q [] \<Longrightarrow> popleft q = Inl ValueError"
  using queue_invD(1,4)[of q "[]"] by (simp add: popleft_def)

lemma popleft_n_spec:
  assumes inv: "queue_inv q xs" and n: "0 \<le> n" "n \<le> int (length xs)"
  shows "\<exists>q'. popleft_n n q = Inr (take (nat n) xs, q') \<and> queue_inv q' (drop (nat n) xs)
           \<and> payload_eq (blk q) (blk q')"
proof (cases "n = 0")
  case True
  with inv show ?thesis by (simp add: popleft_n_def)
next
  case False
  note D = queue_invD[OF inv]
  let ?ys = "take (nat n) xs" and ?zs = "drop (nat n) xs"
  obtain c bs where c: "?zs @ [FakeTail] = c # bs" by (cases ?zs) auto
  have xs: "xs @ [FakeTail] = ?ys @ c # bs" using c by (metis append.assoc append_take_drop_id)
  have lnk: "linked (blk q) (?ys @ c # bs)" and dst: "distinct (?ys @ c # bs)"
    using linked_tail[OF D(1)] D(2) unfolding xs by auto
  have hd: "next_free_block (blk q FakeHead) = Some (hd (?ys @ c # bs))"
    using D(1) arg_cong[OF xs, of hd] by (cases xs) (auto simp del: append_take_drop_id)
  let ?g = "fold clear_links ?ys (blk q)"
  let ?h = "set_prev c (Some FakeHead) (set_next FakeHead (Some c) ?g)"
  let ?q = "\<lparr>blk = ?h, num_free_blocks = num_free_blocks q - n\<rparr>"
  have "length ?ys = nat n" using n by simp
  with popleft_n_loop_spec[OF lnk dst, of "[]"] hd
  have "popleft_n_loop (nat n) (blk q) (next_free_block (blk q FakeHead)) [] = Inr (?g, Some c, ?ys)"
    by simp
  with False n D(4) have run: "popleft_n n q = Inr (?ys, ?q)"
    by (simp add: popleft_n_def Let_def)
  have nohd: "FakeHead \<notin> set (c # bs)" using D(2) xs by (metis distinct.simps(2) in_set_conv_decomp Un_iff set_append)
  have "linked ?h (c # bs) = linked (blk q) (c # bs)"
    using dst nohd by (intro linked_cong) (auto simp: heap_simps fold_clear_links dest: in_set_butlastD split: if_splits)
  then have lnk': "linked ?h (FakeHead # ?zs @ [FakeTail])"
    unfolding c using lnk nohd linked_append[of "blk q" ?ys c bs] by (auto simp: heap_simps fold_clear_links)
  have tl: "FakeTail \<notin> set ?ys" using D(2) by (auto dest: in_set_takeD)
  have cin: "c = FakeTail \<or> c \<in> set ?zs" using c by (cases ?zs) auto
  have zs: "\<And>b. b \<in> set ?zs \<Longrightarrow> b \<in> set xs" by (auto dest: in_set_dropD)
  have "\<And>b. b \<notin> set ?zs \<Longrightarrow> b \<notin> set ?ys \<Longrightarrow> b \<notin> set xs"
    by (metis Un_iff append_take_drop_id set_append)
  then have "queue_inv ?q ?zs"
    unfolding queue_inv_def using lnk' D n tl cin zs
    by (auto simp: heap_simps fold_clear_links list_all_iff real_block_def)
  with run show ?thesis by auto
qed

lemma append_n_spec:
  assumes inv: "queue_inv q xs" and bs: "distinct bs" "\<forall>b\<in>set bs. real_block b" "set bs \<inter> set xs = {}"
  shows "\<exists>q'. append_n bs q = Inr q' \<and> queue_inv q' (xs @ bs) \<and> payload_eq (blk q) (blk q')"
proof (cases "bs = []")
  case True
  with inv show ?thesis by (simp add: append_n_def)
next
  case False
  note D = queue_invD[OF inv]
  obtain as l where asl: "FakeHead # xs = as @ [l]" by (metis rev_exhaust list.distinct(1))
  have full: "FakeHead # xs @ [FakeTail] = as @ l # [FakeTail]"
    using arg_cong[OF asl, of "\<lambda>z. z @ [FakeTail]"] by simp
  have "linked (blk q) (as @ [l])" "prev_free_block (blk q FakeTail) = Some l"
    using D(1) linked_append[of "blk q" as l "[FakeTail]"] unfolding full by auto
  moreover have dst: "distinct (as @ l # bs)"
  proof -
    have "distinct ((FakeHead # xs) @ bs)"
      using D(2) bs by (auto simp: real_block_def)
    then show ?thesis unfolding asl by simp
  qed
  ultimately have lnk: "linked (fst (append_n_loop bs l (blk q))) (as @ l # bs)"
    and pr: "prev_free_block (blk q FakeTail) = Some l"
    by (auto intro: append_n_loop_linked)
  obtain ds e where de: "bs = ds @ [e]" using False by (metis rev_exhaust)
  let ?g = "fst (append_n_loop bs l (blk q))"
  let ?h = "set_prev FakeTail (Some e) (set_next e (Some FakeTail) ?g)"
  let ?q = "\<lparr>blk = ?h, num_free_blocks = num_free_blocks q + int (length bs)\<rparr>"
  have run: "append_n bs q = Inr ?q"
    using False pr append_n_loop_last[of bs l "blk q"] de
    by (simp add: append_n_def Let_def split_beta)
  have ft: "FakeTail \<notin> set (as @ l # bs)"
  proof -
    have "FakeTail \<notin> set ((FakeHead # xs) @ bs)" using D(2) bs(2) by (auto simp: real_block_def)
    then show ?thesis unfolding asl by simp
  qed
  have "FakeTail \<notin> set (tl ((as @ l # ds) @ [e]))" using ft de by (cases as) auto
  then have "linked ?h ((as @ l # ds) @ [e]) = linked ?g ((as @ l # ds) @ [e])"
    using dst ft de by (intro linked_cong) (auto simp: heap_simps butlast_append dest: in_set_butlastD)
  then have "linked ?h ((as @ l # ds) @ e # [FakeTail])"
    using lnk de linked_append[of ?h "as @ l # ds" e "[FakeTail]"] ft by (auto simp: heap_simps)
  moreover have "(as @ l # ds) @ e # [FakeTail] = FakeHead # (xs @ bs) @ [FakeTail]"
    using de arg_cong[OF asl, of "\<lambda>z. z @ bs @ [FakeTail]"] by simp
  ultimately have lnk': "linked ?h (FakeHead # (xs @ bs) @ [FakeTail])" by (simp only:)
  have "l = last (FakeHead # xs)" using asl by simp
  then have lin: "l = FakeHead \<or> l \<in> set xs" by (cases xs) auto
  have out: "prev_free_block (?h b) = None \<and> next_free_block (?h b) = None"
    if "real_block b" "b \<notin> set (xs @ bs)" for b
    using that D(6,7)[of b] lin de append_n_loop_frame(1)[of b l bs "blk q"] append_n_loop_frame(2)[of b bs l "blk q"]
    by (auto simp: heap_simps real_block_def)
  have "next_free_block (?h FakeTail) = None"
    using D(3) ft de append_n_loop_frame(1)[of FakeTail l bs "blk q"] by (auto simp: heap_simps)
  then have "queue_inv ?q (xs @ bs)"
    unfolding queue_inv_def using lnk' D(2,4,5) bs out by (auto simp: list_all_iff)
  with run show ?thesis by auto
qed

lemma append_block_spec:
  assumes inv: "queue_inv q xs" and b: "real_block b" "b \<notin> set xs"
  shows "\<exists>q'. append_block b q = Inr q' \<and> queue_inv q' (xs @ [b]) \<and> payload_eq (blk q) (blk q')"
proof -
  obtain q' where q': "append_n [b] q = Inr q'" "queue_inv q' (xs @ [b])" "payload_eq (blk q) (blk q')"
    using append_n_spec[OF inv, of "[b]"] b by auto
  then obtain l where l: "prev_free_block (blk q FakeTail) = Some l"
    by (auto simp: append_n_def split: option.splits)
  have "set_next l (Some b) (set_prev b (Some l) h) = set_prev b (Some l) (set_next l (Some b) h)" for h
    by (auto simp: set_next_def set_prev_def fun_eq_iff)
  with q' l have "append_block b q = Inr q'"
    by (simp add: append_n_def append_block_def Let_def)
  with q' show ?thesis by auto
qed

lemma get_all_free_blocks_spec:
  "queue_inv q xs \<Longrightarrow> get_all_free_blocks q = Some (Inr xs)"
  using queue_inv_walk[of q xs] by (auto simp: get_all_free_blocks_def)

subsection \<open>Initialisation\<close>

lemma init_link_step:
  "prev_free_block (init_link bs i h r) =
     (if 0 < i \<and> r = bs ! i then Some (bs ! (i - 1)) else prev_free_block (h r))"
  "next_free_block (init_link bs i h r) =
     (if i < length bs - 1 \<and> r = bs ! i then Some (bs ! Suc i) else next_free_block (h r))"
  "payload_eq g (init_link bs i h) = payload_eq g h"
  unfolding init_link_def Let_def by (auto simp: heap_simps)

lemma init_link_other: "r \<noteq> bs ! i \<Longrightarrow> init_link bs i h r = h r"
  unfolding init_link_def Let_def by (simp add: set_prev_def set_next_def)

lemma init_link_frame:
  "k \<le> length bs \<Longrightarrow> r \<notin> set bs \<Longrightarrow> fold (init_link bs) [0..<k] h r = h r"
proof (induction k)
  case (Suc k)
  then have "r \<noteq> bs ! k" by auto
  with Suc show ?case by (simp add: init_link_other)
qed simp

lemma init_link_payload [simp]:
  "payload_eq h (fold (init_link bs) ns h') = payload_eq h h'"
  by (induction ns arbitrary: h') (auto simp: init_link_step)

lemma init_link_fields:
  assumes "distinct bs" and "k \<le> length bs" and "j < length bs"
  shows "prev_free_block (fold (init_link bs) [0..<k] h (bs ! j)) =
           (if 0 < j \<and> j < k then Some (bs ! (j - 1)) else prev_free_block (h (bs ! j)))"
    and "next_free_block (fold (init_link bs) [0..<k] h (bs ! j)) =
           (if j < k \<and> Suc j < length bs then Some (bs ! Suc j) else next_free_block (h (bs ! j)))"
  using assms(2)
proof (induction k)
  case (Suc k)
  { case 1
    with Suc.IH(1) assms show ?case by (auto simp: init_link_step nth_eq_iff_index_eq) }
  { case 2
    with Suc.IH(2) assms show ?case by (auto simp: init_link_step nth_eq_iff_index_eq) }
qed simp_all

lemma free_queue_init_spec:
  assumes "distinct bs" and "\<forall>b\<in>set bs. real_block b"
    and outside: "\<And>b. real_block b \<Longrightarrow> b \<notin> set bs \<Longrightarrow> prev_free_block (h b) = None \<and> next_free_block (h b) = None"
  shows "queue_inv (free_queue_init bs h) bs"
    and "\<And>b. real_block b \<Longrightarrow> block_id (blk (free_queue_init bs h) b) = block_id (h b)
           \<and> ref_cnt (blk (free_queue_init bs h) b) = ref_cnt (h b)
           \<and> block_hash (blk (free_queue_init bs h) b) = block_hash (h b)
           \<and> is_null (blk (free_queue_init bs h) b) = is_null (h b)"
proof -
  let ?g = "fold (init_link bs) [0..<length bs] h"
  let ?g2 = "?g(FakeHead := new_block (-1), FakeTail := new_block (-1))"
  show "queue_inv (free_queue_init bs h) bs"
  proof (cases "bs = []")
    case True
    with outside show ?thesis
      by (auto simp: free_queue_init_def queue_inv_def Let_def heap_simps new_block_def real_block_def)
  next
    case False
    let ?h = "blk (free_queue_init bs h)"
    have h: "?h = set_next (last bs) (Some FakeTail) (set_prev FakeTail (Some (last bs))
        (set_prev (hd bs) (Some FakeHead) (set_next FakeHead (Some (hd bs)) ?g2)))"
      using False by (simp add: free_queue_init_def Let_def)
    have real: "\<And>i. i < length bs \<Longrightarrow> bs ! i \<noteq> FakeHead \<and> bs ! i \<noteq> FakeTail"
      using assms(2) by (auto simp: real_block_def)
    note ends = hd_conv_nth[OF False] last_conv_nth[OF False]
    have pr: "prev_free_block (?h (bs ! i)) = Some (if i = 0 then FakeHead else bs ! (i - 1))"
      if "i < length bs" for i
      using that real[OF that] assms(1) False unfolding h
      by (auto simp: heap_simps ends init_link_fields nth_eq_iff_index_eq)
    have nx: "next_free_block (?h (bs ! i)) = Some (if Suc i < length bs then bs ! Suc i else FakeTail)"
      if "i < length bs" for i
      using that real[OF that] assms(1) False unfolding h
      by (auto simp: heap_simps ends init_link_fields nth_eq_iff_index_eq)
    have ends2: "next_free_block (?h FakeHead) = Some (hd bs)" "prev_free_block (?h FakeTail) = Some (last bs)"
      "next_free_block (?h FakeTail) = None"
      unfolding h using hd_in_set[OF False] last_in_set[OF False] assms(2)
      by (force simp: heap_simps new_block_def real_block_def)+
    have "linked ?h (FakeHead # bs @ [FakeTail])"
      unfolding linked_nth
    proof (intro allI impI)
      fix i let ?l = "FakeHead # bs @ [FakeTail]"
      assume i: "Suc i < length ?l"
      show "next_free_block (?h (?l ! i)) = Some (?l ! Suc i) \<and> prev_free_block (?h (?l ! Suc i)) = Some (?l ! i)"
      proof (cases i)
        case 0
        then show ?thesis using ends2(1) pr[of 0] False by (simp add: ends nth_append)
      next
        case (Suc j)
        then have j: "j < length bs" using i by simp
        show ?thesis
        proof (cases "Suc j < length bs")
          case True
          then show ?thesis using Suc nx[OF j] pr[OF True] by (simp add: nth_append)
        next
          case False
          then have "j = length bs - 1" using j by simp
          with False show ?thesis using Suc j nx[OF j] ends2(2) by (simp add: nth_append ends)
        qed
      qed
    qed
    moreover have "prev_free_block (?h b) = None \<and> next_free_block (?h b) = None"
      if "real_block b" "b \<notin> set bs" for b
      using outside[OF that] that False unfolding h
      by (auto simp: heap_simps real_block_def init_link_frame)
    ultimately show ?thesis
      using assms ends2 False by (auto simp: queue_inv_def list_all_iff free_queue_init_def Let_def)
  qed
  have "payload_eq h ?g" by simp
  then show "\<And>b. real_block b \<Longrightarrow> block_id (blk (free_queue_init bs h) b) = block_id (h b)
           \<and> ref_cnt (blk (free_queue_init bs h) b) = ref_cnt (h b)
           \<and> block_hash (blk (free_queue_init bs h) b) = block_hash (h b)
           \<and> is_null (blk (free_queue_init bs h) b) = is_null (h b)"
    by (auto simp: free_queue_init_def Let_def heap_simps real_block_def payload_eqD)
qed

section \<open>The interface the block pool relies on\<close>

text \<open>
  \<open>content q xs\<close>: the queue holds exactly the blocks \<open>xs\<close>, front first.  \<open>payload q r\<close> is the part
  of block \<open>r\<close> the queue must not touch.
\<close>

locale free_list =
  fixes content :: "'q \<Rightarrow> 'b list \<Rightarrow> bool"
    and member_ok :: "'b \<Rightarrow> bool"
    and pop_n :: "int \<Rightarrow> 'q \<Rightarrow> ('b list \<times> 'q) result"
    and take_out :: "'b \<Rightarrow> 'q \<Rightarrow> 'q result"
    and put_back :: "'b list \<Rightarrow> 'q \<Rightarrow> 'q result"
    and same_payload :: "'q \<Rightarrow> 'q \<Rightarrow> bool"
  assumes content_unique: "content q xs \<Longrightarrow> content q ys \<Longrightarrow> xs = ys"
    and content_wf: "content q xs \<Longrightarrow> distinct xs \<and> (\<forall>b\<in>set xs. member_ok b)"
    and pop_n_law: "content q xs \<Longrightarrow> 0 \<le> n \<Longrightarrow> n \<le> int (length xs) \<Longrightarrow>
        \<exists>q'. pop_n n q = Inr (take (nat n) xs, q') \<and> content q' (drop (nat n) xs) \<and> same_payload q q'"
    and take_out_law: "content q (ys @ b # zs) \<Longrightarrow>
        \<exists>q'. take_out b q = Inr q' \<and> content q' (ys @ zs) \<and> same_payload q q'"
    and put_back_law: "content q xs \<Longrightarrow> distinct bs \<Longrightarrow> \<forall>b\<in>set bs. member_ok b \<Longrightarrow>
        set bs \<inter> set xs = {} \<Longrightarrow>
        \<exists>q'. put_back bs q = Inr q' \<and> content q' (xs @ bs) \<and> same_payload q q'"
    and same_payload_trans: "same_payload q q' \<Longrightarrow> same_payload q' q'' \<Longrightarrow> same_payload q q''"
begin

text \<open>Blocks put back are handed out after every block that was already free, in the order in
  which they were put back.\<close>

lemma put_back_then_pop:
  assumes "content q xs" "distinct bs" "\<forall>b\<in>set bs. member_ok b" "set bs \<inter> set xs = {}"
    and "0 \<le> n" "n \<le> int (length xs + length bs)"
  shows "\<exists>q1 q2. put_back bs q = Inr q1 \<and> pop_n n q1 = Inr (take (nat n) (xs @ bs), q2)
           \<and> content q2 (drop (nat n) (xs @ bs)) \<and> same_payload q q2"
proof -
  obtain q1 where q1: "put_back bs q = Inr q1" "content q1 (xs @ bs)" "same_payload q q1"
    using put_back_law assms by blast
  moreover obtain q2 where "pop_n n q1 = Inr (take (nat n) (xs @ bs), q2)"
    "content q2 (drop (nat n) (xs @ bs))" "same_payload q1 q2"
    using pop_n_law[OF q1(2) assms(5)] assms(6) by auto
  ultimately show ?thesis using same_payload_trans by blast
qed

text \<open>A block that is used again and then freed moves to the back of the eviction order.\<close>

lemma take_out_then_put_back:
  assumes "content q (ys @ b # zs)"
  shows "\<exists>q1 q2. take_out b q = Inr q1 \<and> put_back [b] q1 = Inr q2 \<and> content q2 (ys @ zs @ [b])
           \<and> same_payload q q2"
proof -
  obtain q1 where q1: "take_out b q = Inr q1" "content q1 (ys @ zs)" "same_payload q q1"
    using take_out_law[OF assms] by blast
  have "member_ok b" "b \<notin> set (ys @ zs)" using content_wf[OF assms] by auto
  with put_back_law[OF q1(2), of "[b]"] obtain q2 where
    "put_back [b] q1 = Inr q2" "content q2 ((ys @ zs) @ [b])" "same_payload q1 q2" by auto
  with q1 show ?thesis using same_payload_trans by auto
qed

end

interpretation fq: free_list queue_inv real_block popleft_n remove_block append_n
    "\<lambda>q q'. payload_eq (blk q) (blk q')"
proof
  fix q :: FreeKVCacheBlockQueue and xs ys zs bs n b q' q''
  show "queue_inv q xs \<Longrightarrow> queue_inv q ys \<Longrightarrow> xs = ys" by (rule queue_inv_unique)
  show "queue_inv q xs \<Longrightarrow> distinct xs \<and> (\<forall>b\<in>set xs. real_block b)"
    by (simp add: queue_inv_def list_all_iff)
  show "queue_inv q xs \<Longrightarrow> 0 \<le> n \<Longrightarrow> n \<le> int (length xs) \<Longrightarrow> \<exists>q'. popleft_n n q = Inr (take (nat n) xs, q')
      \<and> queue_inv q' (drop (nat n) xs) \<and> payload_eq (blk q) (blk q')" by (rule popleft_n_spec)
  show "queue_inv q (ys @ b # zs) \<Longrightarrow> \<exists>q'. remove_block b q = Inr q' \<and> queue_inv q' (ys @ zs)
      \<and> payload_eq (blk q) (blk q')" by (rule remove_block_spec)
  show "queue_inv q xs \<Longrightarrow> distinct bs \<Longrightarrow> \<forall>b\<in>set bs. real_block b \<Longrightarrow> set bs \<inter> set xs = {} \<Longrightarrow>
      \<exists>q'. append_n bs q = Inr q' \<and> queue_inv q' (xs @ bs) \<and> payload_eq (blk q) (blk q')"
    by (rule append_n_spec)
  show "payload_eq (blk q) (blk q') \<Longrightarrow> payload_eq (blk q') (blk q'') \<Longrightarrow> payload_eq (blk q) (blk q'')"
    by (rule payload_eq_trans)
qed

section \<open>Every call sequence refines the list\<close>

lemma popleft_n_too_many:
  "queue_inv q xs \<Longrightarrow> int (length xs) < n \<Longrightarrow> popleft_n n q = Inl AssertionError"
  by (simp add: popleft_n_def queue_inv_def)

lemma queue_step_refines:
  assumes inv: "queue_inv q xs" and ok: "op_ok c xs"
  shows "(\<exists>e. list_step c xs = Inl e \<and> queue_step c q = Inl e) \<or>
    (\<exists>out ys q'. list_step c xs = Inr (out, ys) \<and> queue_step c q = Inr (out, q')
       \<and> queue_inv q' ys \<and> payload_eq (blk q) (blk q'))"
proof (cases c)
  case PopLeft
  then show ?thesis
    using popleft_empty[of q] popleft_spec[of q "hd xs" "tl xs"] inv
    by (cases xs) (auto simp: queue_step_def list_step_def)
next
  case (PopLeftN n)
  then show ?thesis
    using popleft_n_spec[OF inv, of n] popleft_n_too_many[OF inv, of n] ok
    by (auto simp: queue_step_def list_step_def op_ok_def)
next
  case (Remove b)
  show ?thesis
  proof (cases "b \<in> set xs")
    case True
    then obtain ys zs where xs: "xs = ys @ b # zs" "b \<notin> set ys" by (meson split_list_first)
    with remove_block_spec[of q ys b zs] inv Remove show ?thesis
      by (auto simp: queue_step_def list_step_def remove1_append)
  next
    case False
    with remove_block_invalid[OF inv, of b] ok Remove show ?thesis
      by (auto simp: queue_step_def list_step_def op_ok_def real_block_def)
  qed
next
  case (Append b)
  then show ?thesis
    using append_block_spec[OF inv, of b] ok
    by (auto simp: queue_step_def list_step_def op_ok_def real_block_def)
next
  case (AppendN bs)
  then have "distinct bs" "\<forall>b\<in>set bs. real_block b" "set bs \<inter> set xs = {}"
    using ok by (auto simp: op_ok_def real_block_def list_all_iff)
  with append_n_spec[OF inv, of bs] AppendN show ?thesis
    by (auto simp: queue_step_def list_step_def)
qed

text \<open>
  C1: For every sequence of calls that keeps the callers' contract, the pointer-based queue returns
  what the plain list returns call by call, raises the same exception at the same call (ValueError
  for popping an empty queue, AssertionError for popping more than is free, RuntimeError for
  removing a block that is not free), and afterwards its pointers spell exactly the list; the block
  contents are not touched.
\<close>

theorem queue_run_refines:
  assumes "queue_inv q xs" and "ops_ok cs xs"
  shows "case list_run cs xs of
           Inl e \<Rightarrow> queue_run cs q = Inl e
         | Inr (outs, ys) \<Rightarrow> \<exists>q'. queue_run cs q = Inr (outs, q') \<and> queue_inv q' ys
             \<and> get_all_free_blocks q' = Some (Inr ys) \<and> payload_eq (blk q) (blk q')"
  using assms
proof (induction cs arbitrary: q xs)
  case Nil
  then show ?case by (simp add: get_all_free_blocks_spec)
next
  case (Cons c cs)
  from Cons.prems have ok: "op_ok c xs" by simp
  from queue_step_refines[OF Cons.prems(1) ok] show ?case
  proof (elim disjE exE conjE)
    fix out ys q'
    assume st: "list_step c xs = Inr (out, ys)" "queue_step c q = Inr (out, q')"
      "queue_inv q' ys" "payload_eq (blk q) (blk q')"
    with Cons.prems(2) have "ops_ok cs ys" by simp
    from Cons.IH[OF st(3) this] st show ?case
      by (auto split: sum.splits prod.splits dest: payload_eq_trans)
  qed simp
qed

theorem queue_run_refines_witness:
  "queue_inv (free_queue_init [Block 0, Block 1, Block 2] (\<lambda>_. new_block 0)) [Block 0, Block 1, Block 2]
   \<and> (\<exists>q'. queue_run [PopLeft, Remove (Block 2), AppendN [Block 2, Block 0], PopLeftN 2]
         (free_queue_init [Block 0, Block 1, Block 2] (\<lambda>_. new_block 0))
       = Inr ([[Block 0], [], [], [Block 1, Block 2]], q') \<and> get_all_free_blocks q' = Some (Inr [Block 0]))"
proof -
  let ?q = "free_queue_init [Block 0, Block 1, Block 2] (\<lambda>_. new_block 0)"
  let ?cs = "[PopLeft, Remove (Block 2), AppendN [Block 2, Block 0], PopLeftN 2]"
  have inv: "queue_inv ?q [Block 0, Block 1, Block 2]"
    by (rule free_queue_init_spec) (auto simp: real_block_def new_block_def)
  have "ops_ok ?cs [Block 0, Block 1, Block 2]" by code_simp
  note R = queue_run_refines[OF inv this]
  have "list_run ?cs [Block 0, Block 1, Block 2] = Inr ([[Block 0], [], [], [Block 1, Block 2]], [Block 0])"
    by code_simp
  then show ?thesis using R inv by (auto simp del: queue_run.simps)
qed

end
