(* ===== verification/Hash_Map.thy ===== *)
theory Hash_Map
  imports Free_Queue "HOL-Library.AList"
begin

text \<open>
  \<open>BlockHashToBlockMap\<close> of \<open>vllm/v1/core/block_pool.py\<close> (lines 34-127): the prefix-cache index from
  hash keys to one block or to a dictionary of blocks with the same key.  Dictionaries are
  association lists in insertion order.  The class is proved to implement a map from keys to sets
  of blocks, the interface \<open>hash_index\<close> the block pool relies on.
\<close>

section \<open>The class\<close>

datatype KVCacheBlocks = OneBlock block_ref | BlockDict "(int \<times> block_ref) list"

type_synonym BlockHashToBlockMap = "(bytes \<times> KVCacheBlocks) list"

definition hmap_empty :: BlockHashToBlockMap where
  "hmap_empty = []"

definition get_one_block :: "BlockHashToBlockMap \<Rightarrow> bytes \<Rightarrow> block_ref option result" where
  "get_one_block cache key =
     (case map_of cache key of
        None \<Rightarrow> Inr None
      | Some (OneBlock b) \<Rightarrow> Inr (Some b)
      | Some (BlockDict d) \<Rightarrow> (case d of [] \<Rightarrow> Inl StopIteration | (_, b) # _ \<Rightarrow> Inr (Some b)))"

definition hmap_insert :: "store \<Rightarrow> bytes \<Rightarrow> block_ref \<Rightarrow> BlockHashToBlockMap \<Rightarrow> BlockHashToBlockMap" where
  "hmap_insert h key block cache =
     (case map_of cache key of
        None \<Rightarrow> AList.update key (OneBlock block) cache
      | Some (OneBlock b) \<Rightarrow>
          AList.update key (BlockDict (AList.update (block_id (h block)) block [(block_id (h b), b)])) cache
      | Some (BlockDict d) \<Rightarrow> AList.update key (BlockDict (AList.update (block_id (h block)) block d)) cache)"

definition hmap_pop :: "store \<Rightarrow> bytes \<Rightarrow> int \<Rightarrow> BlockHashToBlockMap \<Rightarrow> block_ref option \<times> BlockHashToBlockMap" where
  "hmap_pop h key bid cache =
     (let rest = AList.delete key cache in
      case map_of cache key of
        None \<Rightarrow> (None, rest)
      | Some (OneBlock b) \<Rightarrow>
          (if block_id (h b) = bid then (Some b, rest) else (None, AList.update key (OneBlock b) rest))
      | Some (BlockDict d) \<Rightarrow>
          let d' = AList.delete bid d
          in (map_of d bid, if length d' > 0 then AList.update key (BlockDict d') rest else rest))"

definition hmap_len :: "BlockHashToBlockMap \<Rightarrow> int" where
  "hmap_len cache = int (length cache)"

section \<open>The set of blocks behind a key\<close>

fun blocks_in :: "KVCacheBlocks option \<Rightarrow> block_ref set" where
  "blocks_in None = {}"
| "blocks_in (Some (OneBlock b)) = {b}"
| "blocks_in (Some (BlockDict d)) = ran (map_of d)"

definition hmap_blocks :: "BlockHashToBlockMap \<Rightarrow> bytes \<Rightarrow> block_ref set" where
  "hmap_blocks cache key = blocks_in (map_of cache key)"

fun entry_wf :: "store \<Rightarrow> KVCacheBlocks \<Rightarrow> bool" where
  "entry_wf h (OneBlock b) \<longleftrightarrow> True"
| "entry_wf h (BlockDict d) \<longleftrightarrow> d \<noteq> [] \<and> (\<forall>i b. map_of d i = Some b \<longrightarrow> i = block_id (h b))"

definition hmap_wf :: "store \<Rightarrow> BlockHashToBlockMap \<Rightarrow> bool" where
  "hmap_wf h cache \<longleftrightarrow> (\<forall>key e. map_of cache key = Some e \<longrightarrow> entry_wf h e)"

lemma hmap_wf_empty [simp]: "hmap_wf h hmap_empty"
  by (simp add: hmap_wf_def hmap_empty_def)

lemma hmap_blocks_empty [simp]: "hmap_blocks hmap_empty key = {}"
  by (simp add: hmap_blocks_def hmap_empty_def)

lemma hmap_wf_cong: "(\<And>b. block_id (h' b) = block_id (h b)) \<Longrightarrow> hmap_wf h' cache = hmap_wf h cache"
proof -
  assume "\<And>b. block_id (h' b) = block_id (h b)"
  then have "entry_wf h' e = entry_wf h e" for e by (cases e) auto
  then show ?thesis by (simp add: hmap_wf_def)
qed

lemma delete_eq_Nil: "AList.delete k d = [] \<longleftrightarrow> (\<forall>i\<noteq>k. map_of d i = None)"
  by (induction d) (auto simp: AList.delete_eq)

lemma get_one_block_spec:
  assumes "hmap_wf h cache"
  shows "\<exists>r. get_one_block cache key = Inr r \<and>
           (case r of None \<Rightarrow> hmap_blocks cache key = {} | Some b \<Rightarrow> b \<in> hmap_blocks cache key)"
proof (cases "map_of cache key")
  case (Some e)
  with assms have "entry_wf h e" by (simp add: hmap_wf_def)
  with Some show ?thesis
    by (cases e) (auto simp: get_one_block_def hmap_blocks_def ran_def neq_Nil_conv split: list.splits)
qed (simp add: get_one_block_def hmap_blocks_def)

lemma hmap_insert_spec:
  assumes "hmap_wf h cache"
    and "\<And>b'. b' \<in> hmap_blocks cache key \<Longrightarrow> block_id (h b') = block_id (h b) \<Longrightarrow> b' = b"
  shows "hmap_wf h (hmap_insert h key b cache)"
    and "hmap_blocks (hmap_insert h key b cache) k = (if k = key then insert b (hmap_blocks cache key) else hmap_blocks cache k)"
proof -
  have wf: "entry_wf h e" if "map_of cache key = Some e" for e
    using assms(1) that by (simp add: hmap_wf_def)
  show "hmap_wf h (hmap_insert h key b cache)"
    using assms wf
    by (auto simp: hmap_wf_def hmap_insert_def update_conv' split: option.splits KVCacheBlocks.splits)
      (metis entry_wf.simps(2))
  show "hmap_blocks (hmap_insert h key b cache) k = (if k = key then insert b (hmap_blocks cache key) else hmap_blocks cache k)"
  proof (cases "map_of cache key")
    case None
    then show ?thesis by (simp add: hmap_insert_def hmap_blocks_def update_conv')
  next
    case (Some e)
    have same: "ran ((map_of d)(block_id (h b) \<mapsto> b)) = insert b (ran (map_of d))" if e: "e = BlockDict d" for d
    proof -
      have "map_of d (block_id (h b)) = None \<or> map_of d (block_id (h b)) = Some b"
      proof (cases "map_of d (block_id (h b))")
        case (Some c)
        with wf[OF \<open>map_of cache key = Some e\<close>] e have "block_id (h c) = block_id (h b)" by simp
        with assms(2)[of c] \<open>map_of cache key = Some e\<close> e Some show ?thesis
          by (simp add: hmap_blocks_def ranI)
      qed simp
      then show ?thesis by (auto simp: ran_map_upd map_upd_triv insert_absorb ranI)
    qed
    show ?thesis
    proof (cases e)
      case (OneBlock c)
      then show ?thesis
        using Some assms(2)[of c] by (auto simp: hmap_insert_def hmap_blocks_def update_conv' ran_def split: if_splits)
    next
      case (BlockDict d)
      then show ?thesis using Some same by (simp add: hmap_insert_def hmap_blocks_def update_conv')
    qed
  qed
qed

lemma hmap_pop_spec:
  assumes "hmap_wf h cache" and pop: "hmap_pop h key i cache = (r, cache')"
  shows "hmap_wf h cache'"
    and "hmap_blocks cache' k = (if k = key then {b \<in> hmap_blocks cache key. block_id (h b) \<noteq> i} else hmap_blocks cache k)"
    and "case r of None \<Rightarrow> \<forall>b\<in>hmap_blocks cache key. block_id (h b) \<noteq> i
         | Some b \<Rightarrow> b \<in> hmap_blocks cache key \<and> block_id (h b) = i"
proof -
  have wf: "entry_wf h e" if "map_of cache key = Some e" for e
    using assms(1) that by (simp add: hmap_wf_def)
  consider (none) "map_of cache key = None" | (one) b where "map_of cache key = Some (OneBlock b)"
    | (dict) d where "map_of cache key = Some (BlockDict d)" by (metis KVCacheBlocks.exhaust option.exhaust)
  then have "hmap_wf h cache' \<and> hmap_blocks cache' k = (if k = key then {b \<in> hmap_blocks cache key. block_id (h b) \<noteq> i} else hmap_blocks cache k)
    \<and> (case r of None \<Rightarrow> \<forall>b\<in>hmap_blocks cache key. block_id (h b) \<noteq> i
         | Some b \<Rightarrow> b \<in> hmap_blocks cache key \<and> block_id (h b) = i)"
  proof cases
    case dict
    have d: "map_of d j = Some b \<Longrightarrow> j = block_id (h b)" for j b using wf[OF dict] by auto
    then have "ran (map_of (AList.delete i d)) = {b \<in> ran (map_of d). block_id (h b) \<noteq> i}"
      by (auto simp: delete_conv' ran_def split: if_splits)
    moreover have "AList.delete i d = [] \<Longrightarrow> {b \<in> ran (map_of d). block_id (h b) \<noteq> i} = {}"
      using d by (auto simp: delete_eq_Nil ran_def)
    moreover have "case map_of d i of None \<Rightarrow> \<forall>b\<in>ran (map_of d). block_id (h b) \<noteq> i
        | Some b \<Rightarrow> b \<in> ran (map_of d) \<and> block_id (h b) = i"
      using d by (auto simp: ran_def split: option.splits)
    moreover have "entry_wf h (BlockDict (AList.delete i d))" if "AList.delete i d \<noteq> []"
      using that d by (auto simp: delete_conv' split: if_splits)
    moreover have m: "map_of cache' = (map_of cache)(key := if AList.delete i d = [] then None else Some (BlockDict (AList.delete i d)))"
      and r: "r = map_of d i"
      using pop dict by (auto simp: hmap_pop_def Let_def update_conv' delete_conv' split: if_splits)
    ultimately show ?thesis
      using assms(1) unfolding hmap_wf_def hmap_blocks_def m r dict blocks_in.simps
      by (cases "AList.delete i d = []") (simp_all add: dict)
  qed (use assms in \<open>auto simp: hmap_pop_def Let_def hmap_wf_def hmap_blocks_def update_conv' delete_conv' split: if_splits\<close>)
  then show "hmap_wf h cache'"
    and "hmap_blocks cache' k = (if k = key then {b \<in> hmap_blocks cache key. block_id (h b) \<noteq> i} else hmap_blocks cache k)"
    and "case r of None \<Rightarrow> \<forall>b\<in>hmap_blocks cache key. block_id (h b) \<noteq> i
         | Some b \<Rightarrow> b \<in> hmap_blocks cache key \<and> block_id (h b) = i" by auto
qed

section \<open>The interface\<close>

text \<open>An index from keys to sets of objects with identifiers, as the block pool uses it.\<close>

locale hash_index =
  fixes wf :: "'s \<Rightarrow> 'm \<Rightarrow> bool"
    and members :: "'m \<Rightarrow> 'k \<Rightarrow> 'b set"
    and ident :: "'s \<Rightarrow> 'b \<Rightarrow> 'i"
    and get_one :: "'m \<Rightarrow> 'k \<Rightarrow> 'b option result"
    and put :: "'s \<Rightarrow> 'k \<Rightarrow> 'b \<Rightarrow> 'm \<Rightarrow> 'm"
    and pop :: "'s \<Rightarrow> 'k \<Rightarrow> 'i \<Rightarrow> 'm \<Rightarrow> 'b option \<times> 'm"
  assumes get_one_law: "wf h m \<Longrightarrow> \<exists>r. get_one m key = Inr r \<and>
        (case r of None \<Rightarrow> members m key = {} | Some b \<Rightarrow> b \<in> members m key)"
    and put_law: "wf h m \<Longrightarrow> (\<And>b'. b' \<in> members m key \<Longrightarrow> ident h b' = ident h b \<Longrightarrow> b' = b) \<Longrightarrow>
        wf h (put h key b m) \<and> members (put h key b m) = (members m)(key := insert b (members m key))"
    and pop_law: "wf h m \<Longrightarrow> pop h key i m = (r, m') \<Longrightarrow>
        wf h m' \<and> members m' = (members m)(key := {b \<in> members m key. ident h b \<noteq> i}) \<and>
        (case r of None \<Rightarrow> \<forall>b\<in>members m key. ident h b \<noteq> i
         | Some b \<Rightarrow> b \<in> members m key \<and> ident h b = i)"
begin

lemma get_one_iff:
  "wf h m \<Longrightarrow> (\<exists>b. get_one m key = Inr (Some b)) \<longleftrightarrow> members m key \<noteq> {}"
  using get_one_law[of h m key] by (auto split: option.splits)

lemma put_then_get:
  assumes "wf h m" and "\<And>b'. b' \<in> members m key \<Longrightarrow> ident h b' = ident h b \<Longrightarrow> b' = b"
  shows "\<exists>c. get_one (put h key b m) key = Inr (Some c) \<and> c \<in> insert b (members m key)"
  using put_law[OF assms] get_one_law[of h "put h key b m" key] by (auto split: option.splits)

lemma put_then_pop:
  assumes "wf h m" and "\<And>b'. b' \<in> members m key \<Longrightarrow> ident h b' \<noteq> ident h b"
  shows "\<exists>m'. pop h key (ident h b) (put h key b m) = (Some b, m') \<and> wf h m' \<and> members m' = members m"
proof -
  have put: "wf h (put h key b m)" "members (put h key b m) = (members m)(key := insert b (members m key))"
    using put_law[of h m key b] assms by auto
  obtain r m' where r: "pop h key (ident h b) (put h key b m) = (r, m')" by fastforce
  from pop_law[OF put(1) r] put(2) assms(2) have "wf h m'" "r = Some b" "members m' = members m"
    by (auto simp: fun_eq_iff split: option.splits if_splits)
  with r show ?thesis by auto
qed

end

interpretation hidx: hash_index hmap_wf hmap_blocks "\<lambda>h b. block_id (h b)" get_one_block hmap_insert hmap_pop
proof
  fix h :: store and m key r and m' :: BlockHashToBlockMap and b i
  show "hmap_wf h m \<Longrightarrow> \<exists>r. get_one_block m key = Inr r \<and>
        (case r of None \<Rightarrow> hmap_blocks m key = {} | Some b \<Rightarrow> b \<in> hmap_blocks m key)"
    by (rule get_one_block_spec)
  show "hmap_wf h m \<Longrightarrow> (\<And>b'. b' \<in> hmap_blocks m key \<Longrightarrow> block_id (h b') = block_id (h b) \<Longrightarrow> b' = b) \<Longrightarrow>
      hmap_wf h (hmap_insert h key b m) \<and> hmap_blocks (hmap_insert h key b m) = (hmap_blocks m)(key := insert b (hmap_blocks m key))"
    using hmap_insert_spec[of h m key b] by (auto simp: fun_eq_iff)
  show "hmap_wf h m \<Longrightarrow> hmap_pop h key i m = (r, m') \<Longrightarrow>
      hmap_wf h m' \<and> hmap_blocks m' = (hmap_blocks m)(key := {b \<in> hmap_blocks m key. block_id (h b) \<noteq> i}) \<and>
      (case r of None \<Rightarrow> \<forall>b\<in>hmap_blocks m key. block_id (h b) \<noteq> i
       | Some b \<Rightarrow> b \<in> hmap_blocks m key \<and> block_id (h b) = i)"
    using hmap_pop_spec[of h m key i r m'] by (auto simp: fun_eq_iff)
qed

end
