(* ===== verification/Requests.thy ===== *)
theory Requests
  imports Prelude "HOL-Library.Char_ord" "HOL-Library.List_Lexorder" "HOL-Library.Product_Lexorder"
begin

text \<open>
  The request object of \<open>vllm/v1/request.py\<close>, with the parts of \<open>vllm/multimodal/inputs.py\<close> and
  \<open>vllm/utils/__init__.py\<close> it uses: the status enumeration and its order, construction, appending
  of output tokens with incremental block hashing, and the scheduling order \<open>__lt__\<close>.

  Times are integers: the code only compares arrival times.  \<open>obj_id\<close> is Python's \<open>id(self)\<close>.
  Prompt embeddings are a list of rows, each row being the raw bytes of one token's embedding.
\<close>

section \<open>Status\<close>

datatype RequestStatus =
    WAITING | WAITING_FOR_STRUCTURED_OUTPUT_GRAMMAR | WAITING_FOR_REMOTE_KVS
  | WAITING_FOR_STREAMING_REQ | RUNNING | PREEMPTED
  | FINISHED_STOPPED | FINISHED_LENGTH_CAPPED | FINISHED_ABORTED | FINISHED_IGNORED
  | FINISHED_ERROR | FINISHED_REPETITION

datatype FinishReason = FR_STOP | FR_LENGTH | FR_ABORT | FR_ERROR | FR_REPETITION

text \<open>The values \<open>enum.auto()\<close> assigns.\<close>

fun status_value :: "RequestStatus \<Rightarrow> int" where
  "status_value WAITING = 1"
| "status_value WAITING_FOR_STRUCTURED_OUTPUT_GRAMMAR = 2"
| "status_value WAITING_FOR_REMOTE_KVS = 3"
| "status_value WAITING_FOR_STREAMING_REQ = 4"
| "status_value RUNNING = 5"
| "status_value PREEMPTED = 6"
| "status_value FINISHED_STOPPED = 7"
| "status_value FINISHED_LENGTH_CAPPED = 8"
| "status_value FINISHED_ABORTED = 9"
| "status_value FINISHED_IGNORED = 10"
| "status_value FINISHED_ERROR = 11"
| "status_value FINISHED_REPETITION = 12"

lemma status_value_inject: "status_value s = status_value t \<Longrightarrow> s = t"
  by (cases s; cases t) simp_all

instantiation RequestStatus :: linorder
begin

definition less_eq_RequestStatus :: "RequestStatus \<Rightarrow> RequestStatus \<Rightarrow> bool" where
  "less_eq_RequestStatus s t \<longleftrightarrow> status_value s \<le> status_value t"

definition less_RequestStatus :: "RequestStatus \<Rightarrow> RequestStatus \<Rightarrow> bool" where
  "less_RequestStatus s t \<longleftrightarrow> status_value s < status_value t"

instance
  by standard
    (auto simp: less_eq_RequestStatus_def less_RequestStatus_def intro: status_value_inject)

end

definition is_finished_status :: "RequestStatus \<Rightarrow> bool" where
  "is_finished_status s \<longleftrightarrow> s > PREEMPTED"

fun get_finished_reason_status :: "RequestStatus \<Rightarrow> FinishReason option" where
  "get_finished_reason_status FINISHED_STOPPED = Some FR_STOP"
| "get_finished_reason_status FINISHED_LENGTH_CAPPED = Some FR_LENGTH"
| "get_finished_reason_status FINISHED_ABORTED = Some FR_ABORT"
| "get_finished_reason_status FINISHED_IGNORED = Some FR_LENGTH"
| "get_finished_reason_status FINISHED_ERROR = Some FR_ERROR"
| "get_finished_reason_status WAITING_FOR_STREAMING_REQ = Some FR_STOP"
| "get_finished_reason_status FINISHED_REPETITION = Some FR_REPETITION"
| "get_finished_reason_status _ = None"

section \<open>Multi-modal placeholders\<close>

record PlaceholderRange =
  mm_offset :: int
  mm_length :: int
  is_embed :: "bool list option"

fun cumsum_from :: "int \<Rightarrow> bool list \<Rightarrow> int list" where
  "cumsum_from a [] = []"
| "cumsum_from a (b # bs) = (let a = a + of_bool b in a # cumsum_from a bs)"

definition embeds_cumsum :: "PlaceholderRange \<Rightarrow> int list option" where
  "embeds_cumsum p = map_option (cumsum_from 0) (is_embed p)"

definition get_num_embeds :: "PlaceholderRange \<Rightarrow> int" where
  "get_num_embeds p =
     (case embeds_cumsum p of
        None \<Rightarrow> mm_length p
      | Some cs \<Rightarrow> (if cs = [] then 0 else last cs))"

definition get_embeds_indices_in_range :: "PlaceholderRange \<Rightarrow> int \<Rightarrow> int \<Rightarrow> (int \<times> int) result" where
  "get_embeds_indices_in_range p start_idx end_idx =
     (case embeds_cumsum p of
        None \<Rightarrow> Inr (start_idx, end_idx)
      | Some cs \<Rightarrow>
          bind_r (if start_idx > 0 then nth_r cs (start_idx - 1) else Inr 0) (\<lambda>a.
          bind_r (if end_idx > 0 then nth_r cs (end_idx - 1) else Inr 0) (\<lambda>b. Inr (a, b))))"

record MultiModalFeatureSpec =
  modality :: string
  mm_identifier :: string
  mm_position :: PlaceholderRange
  mm_hash :: "string option"

section \<open>The request\<close>

record LoRARequest =
  lora_name :: string
  lora_int_id :: int

record RepetitionDetectionParams =
  max_pattern_size :: int
  min_pattern_size :: int
  min_count :: int

record SamplingParams =
  sp_max_tokens :: "int option"
  sp_structured_outputs :: bool
  sp_skip_reading_prefix_cache :: "bool option"
  sp_min_tokens :: int
  sp_eos_token_id :: "int option"
  sp_stop_token_ids :: "int list option"
  sp_repetition_detection :: "RepetitionDetectionParams option"

record PoolingParams =
  pp_skip_reading_prefix_cache :: "bool option"

text \<open>The constructor's arguments, as an \<open>EngineCoreRequest\<close> carries them.\<close>

record EngineCoreRequest =
  ec_request_id :: string
  ec_prompt_token_ids :: "int list option"
  ec_prompt_embeds :: "bytes list option"
  ec_mm_features :: "MultiModalFeatureSpec list option"
  ec_sampling_params :: "SamplingParams option"
  ec_pooling_params :: "PoolingParams option"
  ec_arrival_time :: int
  ec_lora_request :: "LoRARequest option"
  ec_cache_salt :: "string option"
  ec_priority :: int
  ec_resumable :: bool

datatype stop_value = Stop_token int | Stop_text string

record Request =
  request_id :: string
  obj_id :: int
  priority :: int
  arrival_time :: int
  sampling_params :: "SamplingParams option"
  pooling_params :: "PoolingParams option"
  lora_request :: "LoRARequest option"
  structured_output_request :: bool
  status :: RequestStatus
  max_tokens :: int
  prompt_token_ids :: "int list option"
  prompt_embeds :: "bytes list option"
  embeds_hashes :: "(int \<times> int) \<Rightarrow> bytes option"
  num_prompt_tokens :: int
  output_token_ids :: "int list"
  all_token_ids :: "int list"
  num_output_placeholders :: int
  spec_token_ids :: "int list"
  num_computed_tokens :: int
  cache_salt :: "string option"
  mm_features :: "MultiModalFeatureSpec list"
  num_preemptions :: int
  block_hashes :: "bytes list"
  skip_reading_prefix_cache :: bool
  resumable :: bool
  stop_reason :: "stop_value option"
  discard_latest_async_tokens :: bool
  is_prefill_chunk :: bool

text \<open>A block hasher returns the hashes of the full blocks not hashed yet; it may fill the
  request's cache of embedding hashes.\<close>

type_synonym block_hasher = "Request \<Rightarrow> (bytes list \<times> Request) result"

definition length_from_prompt_token_ids_or_embeds :: "int list option \<Rightarrow> bytes list option \<Rightarrow> int result" where
  "length_from_prompt_token_ids_or_embeds toks embeds =
     (case toks of
        None \<Rightarrow> (case embeds of None \<Rightarrow> Inl ValueError | Some es \<Rightarrow> Inr (int (length es)))
      | Some ts \<Rightarrow> (case embeds of
            None \<Rightarrow> Inr (int (length ts))
          | Some es \<Rightarrow> (if length es \<noteq> length ts then Inl ValueError else Inr (int (length ts)))))"

definition get_skip_reading_prefix_cache :: "SamplingParams option \<Rightarrow> PoolingParams option \<Rightarrow> bool" where
  "get_skip_reading_prefix_cache sp pp =
     (case Option.bind sp sp_skip_reading_prefix_cache of
        Some b \<Rightarrow> b
      | None \<Rightarrow> (case Option.bind pp pp_skip_reading_prefix_cache of Some b \<Rightarrow> b | None \<Rightarrow> False))"

definition update_block_hashes :: "block_hasher option \<Rightarrow> Request \<Rightarrow> Request result" where
  "update_block_hashes hasher r =
     (case hasher of
        None \<Rightarrow> Inr r
      | Some f \<Rightarrow> map_r (\<lambda>(hs, r). r\<lparr>block_hashes := block_hashes r @ hs\<rparr>) (f r))"

definition request_init :: "int \<Rightarrow> EngineCoreRequest \<Rightarrow> block_hasher option \<Rightarrow> Request result" where
  "request_init oid e hasher =
     (let structured = (case ec_sampling_params e of None \<Rightarrow> False | Some sp \<Rightarrow> sp_structured_outputs sp) in
      bind_r
        (case ec_pooling_params e of
           Some _ \<Rightarrow> Inr (WAITING, 1)
         | None \<Rightarrow> (case ec_sampling_params e of
             None \<Rightarrow> Inl ValueError
           | Some sp \<Rightarrow> (case sp_max_tokens sp of
                 None \<Rightarrow> Inl AssertionError
               | Some m \<Rightarrow> Inr (if structured then WAITING_FOR_STRUCTURED_OUTPUT_GRAMMAR else WAITING, m))))
        (\<lambda>(st, mt).
      bind_r (length_from_prompt_token_ids_or_embeds (ec_prompt_token_ids e) (ec_prompt_embeds e)) (\<lambda>n.
      update_block_hashes hasher
        \<lparr>request_id = ec_request_id e, obj_id = oid, priority = ec_priority e,
         arrival_time = ec_arrival_time e, sampling_params = ec_sampling_params e,
         pooling_params = ec_pooling_params e, lora_request = ec_lora_request e,
         structured_output_request = structured, status = st, max_tokens = mt,
         prompt_token_ids = ec_prompt_token_ids e, prompt_embeds = ec_prompt_embeds e,
         embeds_hashes = (\<lambda>_. None), num_prompt_tokens = n, output_token_ids = [],
         all_token_ids = (case ec_prompt_token_ids e of Some ts \<Rightarrow> ts | None \<Rightarrow> repeat_list 0 n),
         num_output_placeholders = 0, spec_token_ids = [], num_computed_tokens = 0,
         cache_salt = ec_cache_salt e,
         mm_features = (case ec_mm_features e of None \<Rightarrow> [] | Some fs \<Rightarrow> fs),
         num_preemptions = 0, block_hashes = [],
         skip_reading_prefix_cache = get_skip_reading_prefix_cache (ec_sampling_params e) (ec_pooling_params e),
         resumable = ec_resumable e, stop_reason = None, discard_latest_async_tokens = False,
         is_prefill_chunk = False\<rparr>)))"

definition append_output_token_ids :: "block_hasher option \<Rightarrow> int list \<Rightarrow> Request \<Rightarrow> Request result" where
  "append_output_token_ids hasher toks r =
     update_block_hashes hasher
       (r\<lparr>output_token_ids := output_token_ids r @ toks, all_token_ids := all_token_ids r @ toks\<rparr>)"

definition num_tokens :: "Request \<Rightarrow> int" where
  "num_tokens r = int (length (all_token_ids r))"

definition num_tokens_with_spec :: "Request \<Rightarrow> int" where
  "num_tokens_with_spec r = int (length (all_token_ids r)) + int (length (spec_token_ids r))"

definition num_output_tokens :: "Request \<Rightarrow> int" where
  "num_output_tokens r = int (length (output_token_ids r))"

definition num_encoder_inputs :: "Request \<Rightarrow> int" where
  "num_encoder_inputs r = int (length (mm_features r))"

definition has_encoder_inputs :: "Request \<Rightarrow> bool" where
  "has_encoder_inputs r \<longleftrightarrow> num_encoder_inputs r > 0"

definition is_finished :: "Request \<Rightarrow> bool" where
  "is_finished r = is_finished_status (status r)"

definition get_finished_reason :: "Request \<Rightarrow> FinishReason option" where
  "get_finished_reason r = get_finished_reason_status (status r)"

definition get_num_encoder_embeds :: "Request \<Rightarrow> int \<Rightarrow> int result" where
  "get_num_encoder_embeds r input_id =
     bind_r (assert_r (input_id < int (length (mm_features r)))) (\<lambda>_.
       map_r (\<lambda>f. get_num_embeds (mm_position f)) (nth_r (mm_features r) input_id))"

definition request_lt :: "Request \<Rightarrow> Request \<Rightarrow> bool" where
  "request_lt r s =
     (if priority r \<noteq> priority s then priority r < priority s
      else if arrival_time r \<noteq> arrival_time s then arrival_time r < arrival_time s
      else if request_id r \<noteq> request_id s then request_id r < request_id s
      else obj_id r < obj_id s)"

section \<open>Facts about requests\<close>

definition request_key :: "Request \<Rightarrow> int \<times> int \<times> string \<times> int" where
  "request_key r = (priority r, arrival_time r, request_id r, obj_id r)"

lemma request_lt_key: "request_lt r s \<longleftrightarrow> request_key r < request_key s"
  by (auto simp: request_lt_def request_key_def less_prod_def)

lemma finished_has_reason: "is_finished_status s \<Longrightarrow> get_finished_reason_status s \<noteq> None"
  by (cases s) (simp_all add: is_finished_status_def less_RequestStatus_def)

lemma nth_cumsum_from:
  "i < length bs \<Longrightarrow> cumsum_from a bs ! i = a + int (length (filter id (take (Suc i) bs)))"
  by (induction bs arbitrary: a i) (auto simp: Let_def nth_Cons split: nat.splits)

lemma length_cumsum_from [simp]: "length (cumsum_from a bs) = length bs"
  by (induction bs arbitrary: a) (auto simp: Let_def)

lemma cumsum_from_eq_Nil: "cumsum_from a bs = [] \<longleftrightarrow> bs = []"
  by (cases bs) (auto simp: Let_def)

lemma last_cumsum_from: "bs \<noteq> [] \<Longrightarrow> last (cumsum_from a bs) = a + int (length (filter id bs))"
  by (induction bs arbitrary: a) (auto simp: Let_def cumsum_from_eq_Nil)

lemma get_num_embeds_mask:
  "is_embed p = Some bs \<Longrightarrow> get_num_embeds p = int (length (filter id bs))"
  by (cases "bs = []")
    (simp_all add: get_num_embeds_def embeds_cumsum_def last_cumsum_from cumsum_from_eq_Nil)

lemma num_tokens_append [simp]:
  "num_tokens (r\<lparr>output_token_ids := os, all_token_ids := all_token_ids r @ toks\<rparr>) =
     num_tokens r + int (length toks)"
  by (simp add: num_tokens_def)

end
