(* ===== verification/Block_Hash.thy ===== *)
theory Block_Hash
  imports Requests "HOL-Library.Countable"
begin

text \<open>
  Block hashing of \<open>vllm/v1/core/kv_cache_utils.py\<close>: hash keys with group ids (lines 53-110), the
  extra keys of a block (373-536), the hash chain over the full blocks of a request (539-566,
  635-686), the block sizes in use (569-632) and the view of a hash list at a coarser block size
  (2054-2121).

  The hash function, SHA-256 over embedding bytes and the value of \<open>NONE_HASH\<close> are parameters.
  The loop of the hasher carries fuel; it never runs out for a positive block size.
\<close>

section \<open>Keys\<close>

datatype ExternalBlockHash = EBytes bytes | EInt int

definition make_block_hash_with_group_id :: "bytes \<Rightarrow> int \<Rightarrow> bytes result" where
  "make_block_hash_with_group_id h group_id = map_r (\<lambda>g. h @ g) (to_bytes_big group_id 4)"

definition get_block_hash :: "bytes \<Rightarrow> bytes" where
  "get_block_hash key = slice_to key (-4)"

definition get_group_id :: "bytes \<Rightarrow> int" where
  "get_group_id key = from_bytes_big (slice_from key (-4))"

definition maybe_convert_block_hash :: "bool \<Rightarrow> bytes \<Rightarrow> ExternalBlockHash" where
  "maybe_convert_block_hash use_int h =
     (if \<not> use_int then EBytes h else EInt (from_bytes_big h mod 2 ^ 64))"

definition init_none_hash :: "string option \<Rightarrow> bytes \<Rightarrow> (string \<Rightarrow> bytes) \<Rightarrow> bytes" where
  "init_none_hash hash_seed urandom hash_fn =
     (case hash_seed of None \<Rightarrow> urandom | Some s \<Rightarrow> hash_fn s)"

section \<open>Extra keys\<close>

text \<open>The elements of the \<open>extra_keys\<close> tuple: strings (LoRA name, cache salt), pairs of a
  multi-modal identifier and an offset, and digests.\<close>

datatype extra_key = KStr string | KMm string int | KBytes bytes

definition need_extra_keys :: "Request \<Rightarrow> bool" where
  "need_extra_keys r \<longleftrightarrow> mm_features r \<noteq> [] \<or> lora_request r \<noteq> None \<or> cache_salt r \<noteq> None"

text \<open>The \<open>while\<close> loop over \<open>mm_features[curr_mm_idx:]\<close>.\<close>

fun gen_mm_loop ::
    "MultiModalFeatureSpec list \<Rightarrow> int \<Rightarrow> int \<Rightarrow> int \<Rightarrow> extra_key list \<Rightarrow> extra_key list \<times> int" where
  "gen_mm_loop [] s e i keys = (keys, i)"
| "gen_mm_loop (f # fs) s e i keys =
     (let off = mm_offset (mm_position f); len = mm_length (mm_position f) in
      if e > off then
        if s \<ge> off + len then gen_mm_loop fs s e (i + 1) keys
        else
          let keys = keys @ [KMm (mm_identifier f) (off - s)] in
          if e \<ge> off + len then gen_mm_loop fs s e (i + 1) keys else (keys, i)
      else (keys, i))"

definition gen_mm_extra_hash_keys :: "Request \<Rightarrow> int \<Rightarrow> int \<Rightarrow> int \<Rightarrow> (extra_key list \<times> int) result" where
  "gen_mm_extra_hash_keys r s e start_mm_idx =
     (let fs = mm_features r in
      if fs = [] then Inr ([], start_mm_idx)
      else let last_pos = mm_position (last fs) in
        if mm_offset last_pos + mm_length last_pos \<le> s then Inr ([], start_mm_idx)
        else bind_r
          (if start_mm_idx < 0
           then bind_r (assert_r (- start_mm_idx \<le> int (length fs))) (\<lambda>_. Inr (int (length fs) + start_mm_idx))
           else Inr start_mm_idx)
          (\<lambda>i. Inr (gen_mm_loop (drop (nat i) fs) s e i [])))"

definition gen_lora_extra_hash_keys :: "Request \<Rightarrow> extra_key list" where
  "gen_lora_extra_hash_keys r = (case lora_request r of None \<Rightarrow> [] | Some l \<Rightarrow> [KStr (lora_name l)])"

definition gen_prompt_embeds_extra_hash_keys ::
    "(bytes \<Rightarrow> bytes) \<Rightarrow> Request \<Rightarrow> int \<Rightarrow> int \<Rightarrow> extra_key list \<times> Request" where
  "gen_prompt_embeds_extra_hash_keys sha256 r s e =
     (case prompt_embeds r of
        None \<Rightarrow> ([], r)
      | Some rows \<Rightarrow>
          (case embeds_hashes r (s, e) of
             Some h \<Rightarrow> ([KBytes h], r)
           | None \<Rightarrow>
               let h = sha256 (concat (slice rows s e))
               in ([KBytes h], r\<lparr>embeds_hashes := (embeds_hashes r)((s, e) \<mapsto> h)\<rparr>)))"

definition generate_block_hash_extra_keys ::
    "(bytes \<Rightarrow> bytes) \<Rightarrow> Request \<Rightarrow> int \<Rightarrow> int \<Rightarrow> int \<Rightarrow> (extra_key list option \<times> int \<times> Request) result" where
  "generate_block_hash_extra_keys sha256 r s e start_mm_idx =
     bind_r (gen_mm_extra_hash_keys r s e start_mm_idx) (\<lambda>(mm_keys, i).
       let lora_keys = gen_lora_extra_hash_keys r;
           salt_keys = (case cache_salt r of
                          Some salt \<Rightarrow> (if s = 0 \<and> salt \<noteq> [] then [KStr salt] else [])
                        | None \<Rightarrow> []);
           (embed_keys, r) = gen_prompt_embeds_extra_hash_keys sha256 r s e;
           keys = lora_keys @ mm_keys @ salt_keys @ embed_keys
       in Inr (if keys = [] then None else Some keys, i, r))"

section \<open>The hash chain\<close>

type_synonym hash_input = "bytes \<times> int list \<times> extra_key list option"

definition hash_block_tokens ::
    "(hash_input \<Rightarrow> bytes) \<Rightarrow> bytes \<Rightarrow> bytes option \<Rightarrow> int list \<Rightarrow> extra_key list option \<Rightarrow> bytes" where
  "hash_block_tokens hash_fn none_hash parent toks keys =
     hash_fn (case parent of None \<Rightarrow> none_hash | Some p \<Rightarrow> (if p = [] then none_hash else p), toks, keys)"

fun hasher_loop ::
    "(hash_input \<Rightarrow> bytes) \<Rightarrow> bytes \<Rightarrow> (bytes \<Rightarrow> bytes) \<Rightarrow> int \<Rightarrow> nat \<Rightarrow> Request \<Rightarrow> int \<Rightarrow> int
      \<Rightarrow> bytes option \<Rightarrow> bytes list \<Rightarrow> (bytes list \<times> Request) result" where
  "hasher_loop hash_fn none_hash sha256 block_size 0 r start_idx mm_idx prev acc = Inl NonTermination"
| "hasher_loop hash_fn none_hash sha256 block_size (Suc fuel) r start_idx mm_idx prev acc =
     (let end_idx = start_idx + block_size in
      if end_idx > num_tokens r then Inr (acc, r)
      else bind_r (generate_block_hash_extra_keys sha256 r start_idx end_idx mm_idx) (\<lambda>(keys, mm_idx, r).
        let h = hash_block_tokens hash_fn none_hash prev (slice (all_token_ids r) start_idx end_idx) keys
        in hasher_loop hash_fn none_hash sha256 block_size fuel r (start_idx + block_size) mm_idx (Some h)
             (acc @ [h])))"

definition request_block_hasher ::
    "(hash_input \<Rightarrow> bytes) \<Rightarrow> bytes \<Rightarrow> (bytes \<Rightarrow> bytes) \<Rightarrow> int \<Rightarrow> block_hasher" where
  "request_block_hasher hash_fn none_hash sha256 block_size r =
     (let start_idx = int (length (block_hashes r)) * block_size in
      if start_idx + block_size > num_tokens r then Inr ([], r)
      else hasher_loop hash_fn none_hash sha256 block_size (Suc (nat (num_tokens r))) r start_idx
             (if start_idx > 0 then - 1 else 0)
             (if block_hashes r = [] then None else Some (last (block_hashes r))) [])"

section \<open>Hash lists at a coarser block size\<close>

record BlockHashListWithBlockSize =
  bhl_block_hashes :: "bytes list"
  scale_factor :: int

definition bhl_init :: "bytes list \<Rightarrow> int \<Rightarrow> int \<Rightarrow> BlockHashListWithBlockSize result" where
  "bhl_init hs hash_block_size target_block_size =
     bind_r (guard_r (hash_block_size \<noteq> 0) ZeroDivisionError) (\<lambda>_.
     bind_r (assert_r (target_block_size mod hash_block_size = 0)) (\<lambda>_.
       Inr \<lparr>bhl_block_hashes = hs, scale_factor = target_block_size div hash_block_size\<rparr>))"

definition bhl_len :: "BlockHashListWithBlockSize \<Rightarrow> int" where
  "bhl_len l = int (length (bhl_block_hashes l)) div scale_factor l"

definition bhl_get_value_at :: "BlockHashListWithBlockSize \<Rightarrow> int \<Rightarrow> bytes" where
  "bhl_get_value_at l idx =
     (let base = idx * scale_factor l; e = base + scale_factor l
      in concat (slice (bhl_block_hashes l) base e))"

definition bhl_iter :: "BlockHashListWithBlockSize \<Rightarrow> bytes list" where
  "bhl_iter l = map (bhl_get_value_at l) [0..bhl_len l - 1]"

text \<open>\<open>self[start:]\<close> through \<open>slice.indices(len(self))\<close>.\<close>

definition bhl_slice_from :: "BlockHashListWithBlockSize \<Rightarrow> int \<Rightarrow> bytes list" where
  "bhl_slice_from l start =
     map (bhl_get_value_at l) [int (py_idx start (nat (bhl_len l)))..bhl_len l - 1]"

section \<open>Reference definitions\<close>

text \<open>Multi-modal items come in prompt order and do not overlap; their lengths are positive.\<close>

definition mm_end :: "MultiModalFeatureSpec \<Rightarrow> int" where
  "mm_end f = mm_offset (mm_position f) + mm_length (mm_position f)"

fun mm_sorted :: "MultiModalFeatureSpec list \<Rightarrow> bool" where
  "mm_sorted [] \<longleftrightarrow> True"
| "mm_sorted (f # fs) \<longleftrightarrow>
     mm_length (mm_position f) > 0 \<and> list_all (\<lambda>g. mm_end f \<le> mm_offset (mm_position g)) fs \<and> mm_sorted fs"

definition overlaps :: "int \<Rightarrow> int \<Rightarrow> MultiModalFeatureSpec \<Rightarrow> bool" where
  "overlaps s e f \<longleftrightarrow> mm_offset (mm_position f) < e \<and> s < mm_end f"

definition mm_keys_spec :: "MultiModalFeatureSpec list \<Rightarrow> int \<Rightarrow> int \<Rightarrow> extra_key list" where
  "mm_keys_spec fs s e =
     map (\<lambda>f. KMm (mm_identifier f) (mm_offset (mm_position f) - s)) (filter (overlaps s e) fs)"

text \<open>The keys of the tokens \<open>s..<e\<close>: LoRA name, every overlapping multi-modal item with its offset,
  the salt in the first block, and the digest of the block's embeddings.\<close>

definition extra_keys_spec :: "(bytes \<Rightarrow> bytes) \<Rightarrow> Request \<Rightarrow> int \<Rightarrow> int \<Rightarrow> extra_key list option" where
  "extra_keys_spec sha256 r s e =
     (let keys = gen_lora_extra_hash_keys r @ mm_keys_spec (mm_features r) s e
            @ (case cache_salt r of Some salt \<Rightarrow> (if s = 0 \<and> salt \<noteq> [] then [KStr salt] else []) | None \<Rightarrow> [])
            @ (case prompt_embeds r of None \<Rightarrow> [] | Some rows \<Rightarrow> [KBytes (sha256 (concat (slice rows s e)))])
      in if keys = [] then None else Some keys)"

fun chain_hashes ::
    "(hash_input \<Rightarrow> bytes) \<Rightarrow> bytes \<Rightarrow> (nat \<Rightarrow> extra_key list option) \<Rightarrow> int list \<Rightarrow> nat \<Rightarrow> nat \<Rightarrow> bytes list" where
  "chain_hashes H none ks toks b 0 = []"
| "chain_hashes H none ks toks b (Suc n) =
     (let hs = chain_hashes H none ks toks b n
      in hs @ [hash_block_tokens H none (if hs = [] then None else Some (last hs))
                 (take b (drop (n * b) toks)) (ks n)])"

definition request_hashes :: "(hash_input \<Rightarrow> bytes) \<Rightarrow> bytes \<Rightarrow> (bytes \<Rightarrow> bytes) \<Rightarrow> nat \<Rightarrow> Request \<Rightarrow> nat \<Rightarrow> bytes list" where
  "request_hashes H none sha256 b r n =
     chain_hashes H none (\<lambda>i. extra_keys_spec sha256 r (int (i * b)) (int (Suc i * b))) (all_token_ids r) b n"

text \<open>The cache of embedding digests holds what would be computed.\<close>

definition embeds_ok :: "(bytes \<Rightarrow> bytes) \<Rightarrow> Request \<Rightarrow> bool" where
  "embeds_ok sha256 r \<longleftrightarrow>
     (\<forall>rows s e h. prompt_embeds r = Some rows \<longrightarrow> embeds_hashes r (s, e) = Some h
        \<longrightarrow> h = sha256 (concat (slice rows s e)))"

section \<open>Extra keys\<close>

lemma length_chain_hashes [simp]: "length (chain_hashes H none ks toks b n) = n"
  by (induction n) (auto simp: Let_def)

lemma chain_hashes_take:
  "m \<le> n \<Longrightarrow> take m (chain_hashes H none ks toks b n) = chain_hashes H none ks toks b m"
  by (induction n) (auto simp: Let_def le_Suc_eq)

lemma mm_sorted_end_mono:
  "mm_sorted (f # fs) \<Longrightarrow> g \<in> set fs \<Longrightarrow> mm_end f \<le> mm_offset (mm_position g) \<and> mm_end f \<le> mm_end g"
proof (induction fs arbitrary: f)
  case (Cons a fs)
  have "mm_offset (mm_position g) \<le> mm_end g" if "mm_sorted xs" "g \<in> set xs" for xs
    using that by (induction xs) (auto simp: mm_end_def)
  with Cons.prems have "mm_offset (mm_position g) \<le> mm_end g" by (meson list.set_intros(2))
  with Cons.prems show ?case by (auto simp: list_all_iff)
qed simp

lemma gen_mm_loop_spec:
  assumes "mm_sorted fs" and "s < e"
  shows "gen_mm_loop fs s e i keys =
      (keys @ mm_keys_spec fs s e, i + int (length (takeWhile (\<lambda>f. mm_end f \<le> e) fs)))"
  using assms
proof (induction fs s e i keys rule: gen_mm_loop.induct)
  case (2 f fs s e i keys)
  have later: "\<not> overlaps s e g" if "e \<le> mm_end f" "g \<in> set fs" for g
    using mm_sorted_end_mono[OF "2.prems"(1) that(2)] that(1) by (auto simp: overlaps_def)
  then have none: "filter (overlaps s e) fs = []" if "e \<le> mm_end f"
    using that by (auto simp: filter_empty_conv)
  have "mm_offset (mm_position f) < mm_end f" using "2.prems"(1) by (simp add: mm_end_def)
  with 2 none show ?case
    by (auto simp: Let_def mm_keys_spec_def overlaps_def mm_end_def)
qed (auto simp: mm_keys_spec_def)

lemma mm_sorted_drop: "mm_sorted fs \<Longrightarrow> mm_sorted (drop k fs)"
  by (induction fs arbitrary: k) (auto simp: drop_Cons split: nat.splits)

lemma mm_sorted_last:
  "mm_sorted fs \<Longrightarrow> f \<in> set fs \<Longrightarrow> mm_end f \<le> mm_end (last fs)"
proof (induction fs)
  case (Cons a fs)
  then show ?case
    using mm_sorted_end_mono[of a fs "last fs"] by (cases "fs = []") auto
qed simp

lemma mm_keys_spec_skip:
  assumes "\<forall>f\<in>set (take k fs). mm_end f \<le> s"
  shows "mm_keys_spec (drop k fs) s e = mm_keys_spec fs s e"
proof -
  have "filter (overlaps s e) (take k fs) = []"
    using assms by (auto simp: filter_empty_conv overlaps_def)
  then have "filter (overlaps s e) fs = filter (overlaps s e) (drop k fs)"
    by (metis append_Nil append_take_drop_id filter_append)
  then show ?thesis by (simp add: mm_keys_spec_def)
qed

text \<open>The multi-modal index the hasher carries from block to block: everything before it ends at or
  before the start of the block.\<close>

definition mm_idx_ok :: "MultiModalFeatureSpec list \<Rightarrow> int \<Rightarrow> int \<Rightarrow> bool" where
  "mm_idx_ok fs s i \<longleftrightarrow>
     i = -1 \<and> (\<forall>f\<in>set (butlast fs). mm_end f \<le> s) \<or> 0 \<le> i \<and> (\<forall>f\<in>set (take (nat i) fs). mm_end f \<le> s)"

lemma gen_mm_extra_hash_keys_spec:
  assumes srt: "mm_sorted (mm_features r)" and se: "s < e" and ok: "mm_idx_ok (mm_features r) s i"
  shows "\<exists>i'. gen_mm_extra_hash_keys r s e i = Inr (mm_keys_spec (mm_features r) s e, i')
           \<and> mm_idx_ok (mm_features r) e i'"
proof -
  let ?fs = "mm_features r"
  consider (none) "?fs = [] \<or> mm_end (last ?fs) \<le> s" | (some) "?fs \<noteq> []" "s < mm_end (last ?fs)"
    by linarith
  then show ?thesis
  proof cases
    case none
    then have past: "mm_end f \<le> s" if "f \<in> set ?fs" for f
      using that mm_sorted_last[OF srt that] by auto
    then have "mm_keys_spec ?fs s e = []"
      by (force simp: mm_keys_spec_def filter_empty_conv overlaps_def)
    moreover have "mm_idx_ok ?fs e i" using ok past se by (fastforce simp: mm_idx_ok_def)
    ultimately show ?thesis using none by (auto simp: gen_mm_extra_hash_keys_def Let_def mm_end_def)
  next
    case some
    define k where "k = (if i < 0 then int (length ?fs) - 1 else i)"
    have k: "0 \<le> k" using some(1) by (cases ?fs) (auto simp: k_def)
    have before: "\<forall>f\<in>set (take (nat k) ?fs). mm_end f \<le> s"
      using ok by (auto simp: mm_idx_ok_def k_def butlast_conv_take)
    let ?n = "length (takeWhile (\<lambda>f. mm_end f \<le> e) (drop (nat k) ?fs))"
    have "mm_end f \<le> e" if f: "f \<in> set (take (nat k + ?n) ?fs)" for f
    proof -
      have "f \<in> set (take (nat k) ?fs) \<or> f \<in> set (takeWhile (\<lambda>f. mm_end f \<le> e) (drop (nat k) ?fs))"
        using f unfolding take_add takeWhile_eq_take[symmetric] by simp
      with before se show ?thesis by (auto dest: set_takeWhileD)
    qed
    then have "\<forall>f\<in>set (take (nat (k + int ?n)) ?fs). mm_end f \<le> e"
      using k by (simp only: nat_add_distrib nat_int of_nat_0_le_iff) blast
    then have "mm_idx_ok ?fs e (k + int ?n)"
      unfolding mm_idx_ok_def using k by (intro disjI2 conjI add_nonneg_nonneg of_nat_0_le_iff)
    moreover have "gen_mm_extra_hash_keys r s e i = Inr (gen_mm_loop (drop (nat k) ?fs) s e k [])"
      using some ok
      by (cases "i < 0") (simp_all add: gen_mm_extra_hash_keys_def Let_def k_def mm_end_def mm_idx_ok_def assert_r_def Suc_leI)
    ultimately show ?thesis
      using gen_mm_loop_spec[OF mm_sorted_drop[OF srt] se] mm_keys_spec_skip[OF before] by simp
  qed
qed

lemma gen_prompt_embeds_spec:
  assumes "embeds_ok sha256 r"
  obtains c where "gen_prompt_embeds_extra_hash_keys sha256 r s e =
      (case prompt_embeds r of None \<Rightarrow> [] | Some rows \<Rightarrow> [KBytes (sha256 (concat (slice rows s e)))], r\<lparr>embeds_hashes := c\<rparr>)"
    and "embeds_ok sha256 (r\<lparr>embeds_hashes := c\<rparr>)"
proof (cases "prompt_embeds r")
  case None
  with that[of "embeds_hashes r"] assms show ?thesis by (simp add: gen_prompt_embeds_extra_hash_keys_def)
next
  case (Some rows)
  show ?thesis
  proof (cases "embeds_hashes r (s, e)")
    case None
    let ?c = "(embeds_hashes r)((s, e) \<mapsto> sha256 (concat (slice rows s e)))"
    have "embeds_ok sha256 (r\<lparr>embeds_hashes := ?c\<rparr>)"
      using assms Some by (auto simp: embeds_ok_def split: if_splits)
    with that[of ?c] None Some show ?thesis by (simp add: gen_prompt_embeds_extra_hash_keys_def Let_def)
  next
    case (Some h)
    with \<open>prompt_embeds r = Some rows\<close> assms that[of "embeds_hashes r"] show ?thesis
      by (auto simp: gen_prompt_embeds_extra_hash_keys_def embeds_ok_def)
  qed
qed

lemma generate_block_hash_extra_keys_spec:
  assumes "mm_sorted (mm_features r)" and "s < e" and "mm_idx_ok (mm_features r) s i" and "embeds_ok sha256 r"
  shows "\<exists>i' c. generate_block_hash_extra_keys sha256 r s e i =
            Inr (extra_keys_spec sha256 r s e, i', r\<lparr>embeds_hashes := c\<rparr>)
          \<and> mm_idx_ok (mm_features r) e i' \<and> embeds_ok sha256 (r\<lparr>embeds_hashes := c\<rparr>)"
proof -
  obtain i' where "gen_mm_extra_hash_keys r s e i = Inr (mm_keys_spec (mm_features r) s e, i')"
    "mm_idx_ok (mm_features r) e i'" using gen_mm_extra_hash_keys_spec[OF assms(1-3)] by blast
  moreover obtain c where "gen_prompt_embeds_extra_hash_keys sha256 r s e =
      (case prompt_embeds r of None \<Rightarrow> [] | Some rows \<Rightarrow> [KBytes (sha256 (concat (slice rows s e)))], r\<lparr>embeds_hashes := c\<rparr>)"
    "embeds_ok sha256 (r\<lparr>embeds_hashes := c\<rparr>)" using gen_prompt_embeds_spec[OF assms(4)] by blast
  ultimately show ?thesis
    by (auto simp: generate_block_hash_extra_keys_def extra_keys_spec_def Let_def)
qed

section \<open>The hasher computes the chain\<close>

lemma extra_keys_spec_frame [simp]:
  "extra_keys_spec sha256 (r\<lparr>embeds_hashes := c\<rparr>) = extra_keys_spec sha256 r"
  "extra_keys_spec sha256 (r\<lparr>block_hashes := hs\<rparr>) = extra_keys_spec sha256 r"
  "extra_keys_spec sha256 (r\<lparr>output_token_ids := os, all_token_ids := ts\<rparr>) = extra_keys_spec sha256 r"
  by (simp_all add: fun_eq_iff extra_keys_spec_def gen_lora_extra_hash_keys_def)

lemma request_hashes_frame [simp]:
  "request_hashes H none sha256 b (r\<lparr>embeds_hashes := c\<rparr>) = request_hashes H none sha256 b r"
  "request_hashes H none sha256 b (r\<lparr>block_hashes := hs\<rparr>) = request_hashes H none sha256 b r"
  by (simp_all add: fun_eq_iff request_hashes_def)

lemma length_request_hashes [simp]: "length (request_hashes H none sha256 b r n) = n"
  by (simp add: request_hashes_def)

lemma request_hashes_take:
  "m \<le> n \<Longrightarrow> take m (request_hashes H none sha256 b r n) = request_hashes H none sha256 b r m"
  by (simp add: request_hashes_def chain_hashes_take)

lemma request_hashes_Suc:
  "request_hashes H none sha256 b r (Suc n) = request_hashes H none sha256 b r n @
     [hash_block_tokens H none (if n = 0 then None else Some (last (request_hashes H none sha256 b r n)))
        (slice (all_token_ids r) (int n * int b) (int n * int b + int b))
        (extra_keys_spec sha256 r (int n * int b) (int n * int b + int b))]"
proof -
  have "slice (all_token_ids r) (int (n * b)) (int (n * b + b)) = take b (drop (n * b) (all_token_ids r))"
    by (simp only: slice_nonneg of_nat_0_le_iff nat_int take_drop add.commute)
  moreover have "chain_hashes H none ks ts b n = [] \<longleftrightarrow> n = 0" for ks ts
    by (metis length_0_conv length_chain_hashes)
  ultimately show ?thesis by (simp add: request_hashes_def Let_def algebra_simps)
qed

lemma hasher_loop_spec:
  assumes "0 < b" and "mm_sorted (mm_features r)" and "embeds_ok sha256 r"
    and "mm_idx_ok (mm_features r) (int n * int b) i"
    and "n \<le> N" and N: "N = length (all_token_ids r) div b" and "N - n < fuel"
    and "prev = (if n = 0 then None else Some (last (request_hashes H none sha256 b r n)))"
  shows "\<exists>c. hasher_loop H none sha256 (int b) fuel r (int n * int b) i prev acc =
             Inr (acc @ drop n (request_hashes H none sha256 b r N), r\<lparr>embeds_hashes := c\<rparr>)
           \<and> embeds_ok sha256 (r\<lparr>embeds_hashes := c\<rparr>)"
  using assms
proof (induction fuel arbitrary: r n i prev acc)
  case (Suc fuel)
  have stop: "int n * int b + int b > num_tokens r \<longleftrightarrow> n = N"
  proof -
    have "int n * int b + int b > num_tokens r \<longleftrightarrow> \<not> Suc n * b \<le> length (all_token_ids r)"
      unfolding num_tokens_def by (simp flip: of_nat_mult of_nat_add add: not_le add.commute)
    also have "\<dots> \<longleftrightarrow> \<not> Suc n \<le> N" using Suc.prems(1,6) by (simp add: less_eq_div_iff_mult_less_eq)
    finally show ?thesis using Suc.prems(5) by auto
  qed
  show ?case
  proof (cases "n = N")
    case True
    with stop Suc.prems show ?thesis
      by (intro exI[of _ "embeds_hashes r"]) (simp add: Let_def)
  next
    case False
    let ?s = "int n * int b" and ?R = "request_hashes H none sha256 b r"
    obtain i' c where g: "generate_block_hash_extra_keys sha256 r ?s (?s + int b) i =
          Inr (extra_keys_spec sha256 r ?s (?s + int b), i', r\<lparr>embeds_hashes := c\<rparr>)"
      "mm_idx_ok (mm_features r) (?s + int b) i'" "embeds_ok sha256 (r\<lparr>embeds_hashes := c\<rparr>)"
      using generate_block_hash_extra_keys_spec[of r ?s "?s + int b" i sha256] Suc.prems(1-4) by auto
    define h where "h = last (?R (Suc n))"
    have h: "h = hash_block_tokens H none prev (slice (all_token_ids r) ?s (?s + int b))
        (extra_keys_spec sha256 r ?s (?s + int b))"
      unfolding h_def request_hashes_Suc Suc.prems(8) by simp
    have "\<exists>c'. hasher_loop H none sha256 (int b) fuel (r\<lparr>embeds_hashes := c\<rparr>) (int (Suc n) * int b) i'
          (Some h) (acc @ [h]) =
        Inr ((acc @ [h]) @ drop (Suc n) (request_hashes H none sha256 b (r\<lparr>embeds_hashes := c\<rparr>) N),
          r\<lparr>embeds_hashes := c, embeds_hashes := c'\<rparr>)
        \<and> embeds_ok sha256 (r\<lparr>embeds_hashes := c, embeds_hashes := c'\<rparr>)"
      using Suc.prems False g by (intro Suc.IH) (auto simp: algebra_simps h_def)
    moreover have "drop n (?R N) = h # drop (Suc n) (?R N)"
    proof -
      have "?R N ! n = take (Suc n) (?R N) ! n" by simp
      also have "\<dots> = h"
        using False Suc.prems(5) h by (simp add: request_hashes_take request_hashes_Suc nth_append Suc.prems(8))
      finally show ?thesis using False Suc.prems(5) by (simp add: Cons_nth_drop_Suc[symmetric])
    qed
    ultimately show ?thesis using stop False g(1) h by (simp add: Let_def algebra_simps)
  qed
qed simp

definition hashes_ok :: "(hash_input \<Rightarrow> bytes) \<Rightarrow> bytes \<Rightarrow> (bytes \<Rightarrow> bytes) \<Rightarrow> nat \<Rightarrow> Request \<Rightarrow> bool" where
  "hashes_ok H none sha256 b r \<longleftrightarrow>
     block_hashes r = request_hashes H none sha256 b r (length (all_token_ids r) div b)
     \<and> embeds_ok sha256 r \<and> mm_sorted (mm_features r)"

text \<open>No multi-modal item but the last one reaches past the blocks hashed so far.\<close>

definition mm_settled :: "nat \<Rightarrow> Request \<Rightarrow> bool" where
  "mm_settled b r \<longleftrightarrow>
     block_hashes r = [] \<or> (\<forall>f\<in>set (butlast (mm_features r)). mm_end f \<le> int (length (block_hashes r) * b))"

lemma request_block_hasher_spec:
  assumes b: "0 < b" and "mm_sorted (mm_features r)" "embeds_ok sha256 r" "mm_settled b r"
    and hs: "block_hashes r = request_hashes H none sha256 b r n" and n: "n \<le> length (all_token_ids r) div b"
  shows "\<exists>c. request_block_hasher H none sha256 (int b) r =
             Inr (drop n (request_hashes H none sha256 b r (length (all_token_ids r) div b)), r\<lparr>embeds_hashes := c\<rparr>)
           \<and> embeds_ok sha256 (r\<lparr>embeds_hashes := c\<rparr>)"
proof -
  let ?N = "length (all_token_ids r) div b" and ?s = "int n * int b"
  have len: "length (block_hashes r) = n" using hs by simp
  have stop: "?s + int b > num_tokens r \<longleftrightarrow> n = ?N"
  proof -
    have "?s + int b > num_tokens r \<longleftrightarrow> \<not> Suc n * b \<le> length (all_token_ids r)"
      unfolding num_tokens_def by (simp flip: of_nat_mult of_nat_add add: not_le add.commute)
    also have "\<dots> \<longleftrightarrow> \<not> Suc n \<le> ?N" using b by (simp add: less_eq_div_iff_mult_less_eq)
    finally show ?thesis using n by auto
  qed
  show ?thesis
  proof (cases "n = ?N")
    case True
    with stop len show ?thesis
      by (intro exI[of _ "embeds_hashes r"]) (use assms in \<open>simp add: request_block_hasher_def Let_def\<close>)
  next
    case False
    have idx: "mm_idx_ok (mm_features r) ?s (if ?s > 0 then - 1 else 0)"
      using \<open>mm_settled b r\<close> b len by (auto simp: mm_settled_def mm_idx_ok_def)
    have "?N - n < Suc (nat (num_tokens r))"
      using div_le_dividend[of "length (all_token_ids r)" b] unfolding num_tokens_def nat_int by linarith
    note L = hasher_loop_spec[OF b assms(2,3) idx n refl this refl, of H none "[]"]
    have "request_hashes H none sha256 b r n = [] \<longleftrightarrow> n = 0" by (metis length_0_conv length_request_hashes)
    with False stop hs have eq: "request_block_hasher H none sha256 (int b) r =
        hasher_loop H none sha256 (int b) (Suc (nat (num_tokens r))) r ?s (if ?s > 0 then - 1 else 0)
          (if n = 0 then None else Some (last (request_hashes H none sha256 b r n))) []"
      by (simp add: request_block_hasher_def Let_def del: hasher_loop.simps)
    show ?thesis unfolding eq using L unfolding append_Nil .
  qed
qed

lemma update_block_hashes_spec:
  assumes "0 < b" and "mm_sorted (mm_features r)" "embeds_ok sha256 r" "mm_settled b r"
    and "block_hashes r = request_hashes H none sha256 b r n" and "n \<le> length (all_token_ids r) div b"
  shows "\<exists>r'. update_block_hashes (Some (request_block_hasher H none sha256 (int b))) r = Inr r'
    \<and> hashes_ok H none sha256 b r' \<and> all_token_ids r' = all_token_ids r \<and> mm_features r' = mm_features r
    \<and> length (block_hashes r') = length (all_token_ids r) div b"
proof -
  let ?N = "length (all_token_ids r) div b"
  obtain c where "request_block_hasher H none sha256 (int b) r =
             Inr (drop n (request_hashes H none sha256 b r ?N), r\<lparr>embeds_hashes := c\<rparr>)"
    and ok: "embeds_ok sha256 (r\<lparr>embeds_hashes := c\<rparr>)"
    using request_block_hasher_spec[OF assms] by blast
  moreover have "request_hashes H none sha256 b r n @ drop n (request_hashes H none sha256 b r ?N) =
      request_hashes H none sha256 b r ?N"
    using request_hashes_take[OF assms(6), of H none sha256 b r] by (metis append_take_drop_id)
  ultimately show ?thesis
    using assms by (auto simp: update_block_hashes_def hashes_ok_def embeds_ok_def)
qed

lemma request_hashes_append:
  assumes "n \<le> length (all_token_ids r) div b"
  shows "request_hashes H none sha256 b (r\<lparr>output_token_ids := os, all_token_ids := all_token_ids r @ toks\<rparr>) n =
           request_hashes H none sha256 b r n"
  using assms
proof (induction n)
  case (Suc n)
  then have "Suc n * b \<le> length (all_token_ids r)"
    by (metis div_times_less_eq_dividend le_trans mult_le_mono1)
  then have "slice (all_token_ids r @ toks) (int n * int b) (int n * int b + int b) =
      slice (all_token_ids r) (int n * int b) (int n * int b + int b)"
    by (simp flip: of_nat_mult of_nat_add add: add.commute)
  with Suc show ?case by (simp add: request_hashes_Suc del: slice_nonneg)
qed (simp add: request_hashes_def)

lemma append_output_token_ids_hashes:
  assumes b: "0 < b" and ok: "hashes_ok H none sha256 b r" and settled: "mm_settled b r"
  shows "\<exists>r'. append_output_token_ids (Some (request_block_hasher H none sha256 (int b))) toks r = Inr r'
    \<and> hashes_ok H none sha256 b r' \<and> all_token_ids r' = all_token_ids r @ toks \<and> mm_features r' = mm_features r"
proof -
  let ?r = "r\<lparr>output_token_ids := output_token_ids r @ toks, all_token_ids := all_token_ids r @ toks\<rparr>"
  let ?n = "length (all_token_ids r) div b"
  have "block_hashes ?r = request_hashes H none sha256 b ?r ?n"
    using ok by (simp add: hashes_ok_def request_hashes_append)
  moreover have "?n \<le> length (all_token_ids ?r) div b" by (simp add: div_le_mono)
  moreover have "mm_sorted (mm_features ?r)" "embeds_ok sha256 ?r" "mm_settled b ?r"
    using ok settled by (simp_all add: hashes_ok_def embeds_ok_def mm_settled_def)
  ultimately show ?thesis
    using update_block_hashes_spec[OF b, of ?r sha256 H none ?n] by (auto simp: append_output_token_ids_def)
qed

lemma request_init_hashes:
  assumes "0 < b" and "request_init oid e None = Inr r" and "mm_sorted (mm_features r)"
  shows "\<exists>r0. request_init oid e (Some (request_block_hasher H none sha256 (int b))) = Inr r0
    \<and> hashes_ok H none sha256 b r0 \<and> all_token_ids r0 = all_token_ids r \<and> mm_features r0 = mm_features r"
proof -
  have r: "block_hashes r = []" "embeds_hashes r = (\<lambda>_. None)"
    and step: "request_init oid e hasher = update_block_hashes hasher r" for hasher
    using assms(2) by (auto simp: request_init_def update_block_hashes_def Let_def result_simps split: option.splits)
  have "embeds_ok sha256 r" using r by (simp add: embeds_ok_def)
  moreover have "mm_settled b r" "block_hashes r = request_hashes H none sha256 b r 0"
    using r by (simp_all add: mm_settled_def request_hashes_def)
  ultimately show ?thesis
    using update_block_hashes_spec[OF assms(1,3), of sha256 H none 0] step by auto
qed

lemma hashes_ok_length:
  "hashes_ok H none sha256 b r \<Longrightarrow> length (block_hashes r) = length (all_token_ids r) div b"
  by (simp add: hashes_ok_def)

lemma append_run_hashes:
  assumes "0 < b" and "hashes_ok H none sha256 b r"
    and "\<forall>f\<in>set (butlast (mm_features r)). mm_end f \<le> int (max 1 (length (all_token_ids r) div b) * b)"
  shows "\<exists>r'. fold_r (append_output_token_ids (Some (request_block_hasher H none sha256 (int b)))) chunks r = Inr r'
    \<and> hashes_ok H none sha256 b r' \<and> all_token_ids r' = all_token_ids r @ concat chunks"
  using assms
proof (induction chunks arbitrary: r)
  case (Cons toks chunks)
  have "mm_settled b r"
    using Cons.prems(3) hashes_ok_length[OF Cons.prems(2), symmetric]
    by (cases "block_hashes r") (auto simp: mm_settled_def max_def)
  from append_output_token_ids_hashes[OF Cons.prems(1,2) this, of toks] obtain r1 where
    r1: "append_output_token_ids (Some (request_block_hasher H none sha256 (int b))) toks r = Inr r1"
      "hashes_ok H none sha256 b r1" "all_token_ids r1 = all_token_ids r @ toks" "mm_features r1 = mm_features r"
    by blast
  have "max 1 (length (all_token_ids r) div b) * b \<le> max 1 (length (all_token_ids r1) div b) * b"
    using r1(3) by (intro mult_le_mono1 max.mono div_le_mono) auto
  then have "\<forall>f\<in>set (butlast (mm_features r1)). mm_end f \<le> int (max 1 (length (all_token_ids r1) div b) * b)"
    using Cons.prems(3) r1(4) by (metis of_nat_le_iff order_trans)
  from Cons.IH[OF Cons.prems(1) r1(2) this] r1 show ?case by auto
qed simp

section \<open>What equal hashes mean\<close>

lemma chain_hashes_nth:
  "k < n \<Longrightarrow> chain_hashes H none ks toks b n ! k =
     hash_block_tokens H none (if k = 0 then None else Some (chain_hashes H none ks toks b n ! (k - 1)))
       (take b (drop (k * b) toks)) (ks k)"
proof (induction n)
  case (Suc n)
  have "chain_hashes H none ks toks b n = [] \<longleftrightarrow> n = 0" by (metis length_0_conv length_chain_hashes)
  with Suc show ?case
    by (auto simp: Let_def nth_append last_conv_nth less_Suc_eq)
qed simp

text \<open>The arguments the hash function is applied to along a chain.\<close>

definition chain_input ::
    "(hash_input \<Rightarrow> bytes) \<Rightarrow> bytes \<Rightarrow> (nat \<Rightarrow> extra_key list option) \<Rightarrow> int list \<Rightarrow> nat \<Rightarrow> nat \<Rightarrow> nat \<Rightarrow> hash_input" where
  "chain_input H none ks ts b n k =
     (if k = 0 then none else chain_hashes H none ks ts b n ! (k - 1), take b (drop (k * b) ts), ks k)"

lemma chain_hashes_step:
  assumes "[] \<notin> H ` chain_input H none ks ts b n ` {..<n}" and "k < n"
  shows "chain_hashes H none ks ts b n ! k = H (chain_input H none ks ts b n k)"
  using assms(2)
proof (induction k)
  case (Suc l)
  then have "chain_hashes H none ks ts b n ! l = H (chain_input H none ks ts b n l)" by simp
  with assms(1) Suc.prems have "chain_hashes H none ks ts b n ! l \<noteq> []" by (metis Suc_lessD imageI lessThan_iff)
  with Suc.prems show ?case by (simp add: chain_hashes_nth[of "Suc l"] hash_block_tokens_def chain_input_def)
qed (simp add: chain_hashes_nth[of 0] hash_block_tokens_def chain_input_def)

lemma chain_hashes_inject:
  fixes H none b
  defines "I \<equiv> chain_input H none"
  assumes inj: "inj_on H (I ks ts b n ` {..<n} \<union> I ks' ts' b m ` {..<m})"
    and out: "none \<notin> H ` (I ks ts b n ` {..<n} \<union> I ks' ts' b m ` {..<m})"
      "[] \<notin> H ` (I ks ts b n ` {..<n} \<union> I ks' ts' b m ` {..<m})"
    and "i < n" "j < m" "chain_hashes H none ks ts b n ! i = chain_hashes H none ks' ts' b m ! j"
  shows "i = j \<and> take (Suc i * b) ts = take (Suc i * b) ts' \<and> (\<forall>k\<le>i. ks k = ks' k)"
  using assms(5-7)
proof (induction i arbitrary: j)
  have st: "chain_hashes H none ks ts b n ! k = H (I ks ts b n k)" if "k < n" for k
    unfolding I_def by (rule chain_hashes_step[OF _ that]) (use out(2) in \<open>auto simp: I_def\<close>)
  have st': "chain_hashes H none ks' ts' b m ! k = H (I ks' ts' b m k)" if "k < m" for k
    unfolding I_def by (rule chain_hashes_step[OF _ that]) (use out(2) in \<open>auto simp: I_def\<close>)
  have ne: "chain_hashes H none ks ts b n ! k \<noteq> none" if "k < n" for k using st[OF that] out(1) that by auto
  have ne': "chain_hashes H none ks' ts' b m ! k \<noteq> none" if "k < m" for k using st'[OF that] out(1) that by auto
  have same: "I ks ts b n i = I ks' ts' b m j"
    if "i < n" "j < m" "chain_hashes H none ks ts b n ! i = chain_hashes H none ks' ts' b m ! j" for i j
    by (rule inj_onD[OF inj]) (use that st[OF that(1)] st'[OF that(2)] in simp_all)
  {
    case 0
    with same[OF 0] ne'[of "j - 1"] show ?case by (cases j) (auto simp: I_def chain_input_def)
  next
    case (Suc i)
    note eq = same[OF Suc.prems]
    obtain l where l: "j = Suc l" using eq ne[of i] Suc.prems(1) by (cases j) (auto simp: I_def chain_input_def)
    with eq have eqs: "chain_hashes H none ks ts b n ! i = chain_hashes H none ks' ts' b m ! l"
      "take b (drop (Suc i * b) ts) = take b (drop (Suc l * b) ts')" "ks (Suc i) = ks' (Suc l)"
      by (auto simp: I_def chain_input_def)
    have "i < n" "l < m" using Suc.prems(1,2) l by simp_all
    from Suc.IH[OF this eqs(1)] have IH: "i = l" "take (Suc i * b) ts = take (Suc i * b) ts'" "\<forall>k\<le>i. ks k = ks' k"
      by blast+
    have "take (Suc i * b + b) ts = take (Suc i * b + b) ts'"
      unfolding take_add using IH(2) eqs(2) \<open>i = l\<close> by simp
    then have "take (Suc (Suc i) * b) ts = take (Suc (Suc i) * b) ts'" by (simp add: add.commute)
    with IH eqs l show ?case by (auto simp: le_Suc_eq)
  }
qed

lemma slice_neg4:
  assumes "length g = 4"
  shows "slice_to (h @ g) (-4) = h" "slice_from (h @ g) (-4) = g"
  using assms by (simp_all add: slice_to_def slice_from_def py_idx_def)

lemma bhl_get_value_at_nth:
  "0 \<le> k \<Longrightarrow> 0 < k' \<Longrightarrow> scale_factor l = int k' \<Longrightarrow>
     bhl_get_value_at l k = concat (take k' (drop (nat k * k') (bhl_block_hashes l)))"
  by (simp add: bhl_get_value_at_def Let_def take_drop nat_add_distrib nat_mult_distrib add.commute)

lemma concat_inject_width:
  "length xs = length ys \<Longrightarrow> \<forall>x\<in>set xs. length x = w \<Longrightarrow> \<forall>y\<in>set ys. length y = w \<Longrightarrow>
     concat xs = concat ys \<Longrightarrow> xs = ys"
  by (induction xs ys rule: list_induct2) auto

text \<open>The life of a request as far as hashing goes: it is built, then output tokens are appended call by call.\<close>

definition hashed_request ::
    "(hash_input \<Rightarrow> bytes) \<Rightarrow> bytes \<Rightarrow> (bytes \<Rightarrow> bytes) \<Rightarrow> nat \<Rightarrow> int \<Rightarrow> EngineCoreRequest \<Rightarrow> int list list \<Rightarrow> Request result" where
  "hashed_request H none sha256 b oid e chunks =
     bind_r (request_init oid e (Some (request_block_hasher H none sha256 (int b))))
       (fold_r (append_output_token_ids (Some (request_block_hasher H none sha256 (int b)))) chunks)"

text \<open>The items of a new request are in prompt order and, but for the last one, end inside the blocks hashed with the
  prompt, or inside the first block.\<close>

definition mm_hashable :: "nat \<Rightarrow> Request \<Rightarrow> bool" where
  "mm_hashable b r \<longleftrightarrow> mm_sorted (mm_features r)
     \<and> (\<forall>f\<in>set (butlast (mm_features r)). mm_end f \<le> int (max 1 (length (all_token_ids r) div b) * b))"

text \<open>The arguments of all calls of the hash function for a request.\<close>

definition hash_inputs :: "(hash_input \<Rightarrow> bytes) \<Rightarrow> bytes \<Rightarrow> (bytes \<Rightarrow> bytes) \<Rightarrow> nat \<Rightarrow> Request \<Rightarrow> hash_input set" where
  "hash_inputs H none sha256 b r =
     (let n = length (all_token_ids r) div b
      in chain_input H none (\<lambda>i. extra_keys_spec sha256 r (int (i * b)) (int (Suc i * b))) (all_token_ids r) b n ` {..<n})"

lemma hashed_request_ok:
  assumes "0 < b" and "request_init oid e None = Inr r" and "mm_hashable b r"
  shows "\<exists>r'. hashed_request H none sha256 b oid e chunks = Inr r' \<and> hashes_ok H none sha256 b r'
    \<and> all_token_ids r' = all_token_ids r @ concat chunks"
proof -
  obtain r0 where r0: "request_init oid e (Some (request_block_hasher H none sha256 (int b))) = Inr r0"
    "hashes_ok H none sha256 b r0" "all_token_ids r0 = all_token_ids r" "mm_features r0 = mm_features r"
    using request_init_hashes[OF assms(1,2), of H none sha256] assms(3) unfolding mm_hashable_def by blast
  with append_run_hashes[OF assms(1) r0(2), of chunks] assms(3) show ?thesis
    by (auto simp: hashed_request_def mm_hashable_def)
qed

section \<open>Properties\<close>


definition sample_request :: "int list \<Rightarrow> MultiModalFeatureSpec list \<Rightarrow> EngineCoreRequest" where
  "sample_request toks feats = \<lparr>ec_request_id = ''r'', ec_prompt_token_ids = Some toks, ec_prompt_embeds = None,
     ec_mm_features = Some feats,
     ec_sampling_params = Some \<lparr>sp_max_tokens = Some 8, sp_structured_outputs = False, sp_skip_reading_prefix_cache = None,
        sp_min_tokens = 0, sp_eos_token_id = None, sp_stop_token_ids = None, sp_repetition_detection = None\<rparr>,
     ec_pooling_params = None, ec_arrival_time = 0, ec_lora_request = None, ec_cache_salt = None,
     ec_priority = 0, ec_resumable = False\<rparr>"

definition sample_item :: "string \<Rightarrow> int \<Rightarrow> MultiModalFeatureSpec" where
  "sample_item ident off = \<lparr>modality = ''image'', mm_identifier = ident,
     mm_position = \<lparr>mm_offset = off, mm_length = 1, is_embed = None\<rparr>, mm_hash = None\<rparr>"

lemma sample_request_init:
  "\<exists>r. request_init 0 (sample_request toks feats) None = Inr r \<and> all_token_ids r = toks \<and> mm_features r = feats"
  by (simp add: request_init_def sample_request_def length_from_prompt_token_ids_or_embeds_def update_block_hashes_def)



instance extra_key :: countable
  by countable_datatype

definition counting_hash :: "hash_input \<Rightarrow> bytes" where
  "counting_hash x = replicate (Suc (to_nat x)) 0"

lemma counting_hash_facts: "inj counting_hash" "[] \<notin> range counting_hash"
proof -
  show "inj counting_hash"
  proof (rule injI)
    fix x y assume "counting_hash x = counting_hash y"
    then have "length (counting_hash x) = length (counting_hash y)" by simp
    then show "x = y" by (simp add: counting_hash_def)
  qed
qed (auto simp: counting_hash_def)

definition sample_hashed :: "int list \<Rightarrow> Request" where
  "sample_hashed toks =
     (case request_init 0 (sample_request toks []) None of Inr r \<Rightarrow> r\<lparr>block_hashes := [counting_hash ([], take 2 toks, None)]\<rparr>)"

lemma sample_hashed_tokens:
  assumes "length toks = 3"
  shows "all_token_ids (sample_hashed toks) = toks" "block_hashes (sample_hashed toks) = [counting_hash ([], take 2 toks, None)]"
  using assms
  by (simp_all add: sample_hashed_def sample_request_def request_init_def update_block_hashes_def
      length_from_prompt_token_ids_or_embeds_def)

lemma sample_hashed_request: "hashed_request counting_hash [] id 2 0 (sample_request [t, u, v] []) [] = Inr (sample_hashed [t, u, v])"
  by (simp add: hashed_request_def sample_hashed_def sample_request_def request_init_def update_block_hashes_def
      length_from_prompt_token_ids_or_embeds_def request_block_hasher_def num_tokens_def hash_block_tokens_def
      generate_block_hash_extra_keys_def gen_mm_extra_hash_keys_def gen_lora_extra_hash_keys_def
      gen_prompt_embeds_extra_hash_keys_def eval_nat_numeral)


text \<open>
  C26: A hash packed with a group id gives back both components; a group id that does not fit in
  four bytes raises OverflowError; and the packed keys of two pairs are equal only if the pairs are.
\<close>

theorem block_hash_group_id_roundtrip:
  "case make_block_hash_with_group_id h g of
     Inr key \<Rightarrow> 0 \<le> g \<and> g < 2 ^ 32 \<and> get_block_hash key = h \<and> get_group_id key = g
   | Inl err \<Rightarrow> err = OverflowError \<and> (g < 0 \<or> g \<ge> 2 ^ 32)"
proof (cases "0 \<le> g \<and> g < 256 ^ 4")
  case True
  then show ?thesis
    by (simp add: make_block_hash_with_group_id_def to_bytes_big_def get_block_hash_def get_group_id_def
        slice_neg4 from_to_bytes_list)
next
  case False
  then show ?thesis by (auto simp: make_block_hash_with_group_id_def to_bytes_big_def)
qed

text \<open>
  C27: Viewing a hash list at a coarser block size groups it: the view has one entry per complete group of
  \<open>scale_factor\<close> hashes (a trailing partial group is dropped), entry \<open>k\<close> is the concatenation of the hashes of
  group \<open>k\<close>, and against any other list viewed at the same sizes, both with hashes of one fixed width, two
  entries are equal exactly if the groups of hashes are.
\<close>

theorem coarser_view_faithful:
  assumes "bhl_init hs hb tb = Inr l" and "0 < hb" and "0 < tb"
  defines "f \<equiv> nat (tb div hb)"
  shows "bhl_iter l = map (\<lambda>i. concat (take f (drop (i * f) hs))) [0..<length hs div f]
    \<and> (\<forall>hs' l' w i j. bhl_init hs' hb tb = Inr l' \<and> (\<forall>h\<in>set hs \<union> set hs'. length h = w)
         \<and> i < length (bhl_iter l) \<and> j < length (bhl_iter l') \<longrightarrow>
         (bhl_iter l ! i = bhl_iter l' ! j \<longleftrightarrow> take f (drop (i * f) hs) = take f (drop (j * f) hs')))"
proof -
  have tb: "tb mod hb = 0" using assms(1) by (auto simp: bhl_init_def result_simps assert_r_def split: if_splits)
  have "0 < tb div hb" using tb assms(2,3) by (metis dvd_imp_mod_0 mod_0_imp_dvd pos_imp_zdiv_pos_iff zdvd_imp_le)
  then have f: "0 < f" "tb div hb = int f" by (simp_all add: f_def)
  have iter: "bhl_iter l = map (\<lambda>i. concat (take f (drop (i * f) hs))) [0..<length hs div f]"
    if "bhl_init hs hb tb = Inr l" for hs l
  proof -
    have l: "l = \<lparr>bhl_block_hashes = hs, scale_factor = int f\<rparr>"
      using that f(2) by (auto simp: bhl_init_def result_simps assert_r_def split: if_splits)
    then have n: "bhl_len l = int (length hs div f)" by (simp add: bhl_len_def zdiv_int)
    show ?thesis unfolding bhl_iter_def n upto_int_upt using f l by (simp add: bhl_get_value_at_nth[of _ f] comp_def)
  qed
  have len: "length (take f (drop (i * f) xs)) = f" if "i < length xs div f" for i and xs :: "bytes list"
  proof -
    have "Suc i * f \<le> length xs" using that f(1) by (metis Suc_leI less_eq_div_iff_mult_less_eq)
    then show ?thesis by simp
  qed
  have groups: "concat (take f (drop (i * f) hs)) = concat (take f (drop (j * f) hs')) \<longleftrightarrow> take f (drop (i * f) hs) = take f (drop (j * f) hs')"
    if "\<forall>h\<in>set hs \<union> set hs'. length h = w" "i < length hs div f" "j < length hs' div f" for hs' w i j
    using that len[of i hs] len[of j hs'] concat_inject_width[of "take f (drop (i * f) hs)" "take f (drop (j * f) hs')" w]
    by (auto dest!: in_set_takeD in_set_dropD)
  show ?thesis
  proof (intro conjI allI impI, rule iter[OF assms(1)], elim conjE)
    fix hs' l' w i j
    assume l': "bhl_init hs' hb tb = Inr l'" and w: "\<forall>h\<in>set hs \<union> set hs'. length h = w"
      and ij: "i < length (bhl_iter l)" "j < length (bhl_iter l')"
    show "bhl_iter l ! i = bhl_iter l' ! j \<longleftrightarrow> take f (drop (i * f) hs) = take f (drop (j * f) hs')"
      using groups[OF w] ij by (simp add: iter[OF assms(1)] iter[OF l'])
  qed
qed

theorem coarser_view_faithful_witness:
  "\<exists>l l'. bhl_init [[1], [2], [3]] 16 32 = Inr l \<and> bhl_init [[1], [2], [4], [5 :: 8 word]] 16 32 = Inr l'
     \<and> bhl_iter l = [[1, 2]] \<and> bhl_iter l ! 0 = bhl_iter l' ! 0 \<and> bhl_iter l ! 0 \<noteq> bhl_iter l' ! 1"
proof -
  let ?l = "\<lparr>bhl_block_hashes = [[1], [2], [3]], scale_factor = 2\<rparr>"
  let ?l' = "\<lparr>bhl_block_hashes = [[1], [2], [4], [5 :: 8 word]], scale_factor = 2\<rparr>"
  have i: "bhl_init [[1], [2], [3]] 16 32 = Inr ?l" "bhl_init [[1], [2], [4], [5 :: 8 word]] 16 32 = Inr ?l'"
    by (simp_all add: bhl_init_def guard_r_def assert_r_def)
  have f: "nat (32 div 16) = 2" "length [[1], [2], [3 :: 8 word]] div 2 = 1" "length [[1], [2], [4], [5 :: 8 word]] div 2 = 2"
    by simp_all
  have p: "(0 :: int) < 16" "(0 :: int) < 32" by simp_all
  note T = coarser_view_faithful[OF i(1) p, unfolded f] and T' = coarser_view_faithful[OF i(2) p, unfolded f]
  have iter: "bhl_iter ?l = [[1, 2]]" "length (bhl_iter ?l') = 2" using conjunct1[OF T] conjunct1[OF T'] by (simp_all add: numeral_2_eq_2)
  have "bhl_iter ?l ! 0 = bhl_iter ?l' ! j \<longleftrightarrow> take 2 (drop (0 * 2) [[1], [2], [3 :: 8 word]]) = take 2 (drop (j * 2) [[1], [2], [4], [5]])"
    if "j < 2" for j
    by (rule conjunct2[OF T, rule_format, of "[[1], [2], [4], [5]]" ?l' 1]) (use that i(2) iter in simp)
  from this[of 0] this[of 1] iter i show ?thesis by (intro exI[of _ ?l] exI[of _ ?l']) simp
qed

text \<open>
  C35: The hasher restarts at the last multi-modal item once a block has been hashed.  If two short
  items lie in the partial last block of the prompt, the first of them is left out of that block's
  hash: two requests that differ only in it get the same hash list, whatever the hash function,
  although their extra keys differ.
\<close>

theorem partial_block_item_not_hashed:
  "let hasher = Some (request_block_hasher H none sha256 4);
       run = (\<lambda>ident. bind_r (request_init 0 (sample_request [1, 2, 3, 4, 5, 6] [sample_item ident 4, sample_item ''C'' 5]) hasher)
                (append_output_token_ids hasher [7, 8]))
   in map_r block_hashes (run ''A'') = map_r block_hashes (run ''B'')
      \<and> (\<exists>rA rB. run ''A'' = Inr rA \<and> run ''B'' = Inr rB \<and> length (block_hashes rA) = 2
            \<and> extra_keys_spec sha256 rA 4 8 \<noteq> extra_keys_spec sha256 rB 4 8)"
proof -
  have init: "request_init 0 (sample_request [1, 2, 3, 4, 5, 6] [sample_item ident 4, sample_item ''C'' 5])
      (Some (request_block_hasher H none sha256 4)) =
    map_r (\<lambda>r. r\<lparr>block_hashes := [H (none, [1, 2, 3, 4], None)]\<rparr>)
      (request_init 0 (sample_request [1, 2, 3, 4, 5, 6] [sample_item ident 4, sample_item ''C'' 5]) None)" for ident
    by (simp add: request_init_def sample_request_def length_from_prompt_token_ids_or_embeds_def
        update_block_hashes_def request_block_hasher_def num_tokens_def hash_block_tokens_def
        generate_block_hash_extra_keys_def gen_mm_extra_hash_keys_def sample_item_def
        gen_lora_extra_hash_keys_def gen_prompt_embeds_extra_hash_keys_def eval_nat_numeral)
  show ?thesis
    unfolding Let_def init
    by (simp add: request_init_def sample_request_def length_from_prompt_token_ids_or_embeds_def
        append_output_token_ids_def
        update_block_hashes_def request_block_hasher_def num_tokens_def hash_block_tokens_def
        generate_block_hash_extra_keys_def gen_mm_extra_hash_keys_def sample_item_def assert_r_def
        gen_lora_extra_hash_keys_def gen_prompt_embeds_extra_hash_keys_def eval_nat_numeral
        extra_keys_spec_def mm_keys_spec_def overlaps_def mm_end_def)
qed

end
