(* ===== verification/Block_Pool.thy ===== *)
theory Block_Pool
  imports Complex_Main Hash_Map Block_Hash
begin

text \<open>
  \<open>BlockPool\<close> of \<open>vllm/v1/core/block_pool.py\<close> (lines 130-509): allocation, reference counting, caching
  of full blocks, eviction and the events it reports.  The pool's blocks live in the store of its
  free-block queue; \<open>self.blocks[i]\<close> is \<open>Block i\<close>.  Calls on the metrics collector, which only
  observes, are kept as a list.
\<close>

section \<open>State\<close>

datatype metrics_call = on_block_allocated block_ref | on_block_accessed block_ref
  | on_block_evicted block_ref | metrics_reset

record BlockStored =
  bs_block_hashes :: "ExternalBlockHash list"
  bs_parent_block_hash :: "ExternalBlockHash option"
  bs_token_ids :: "int list"
  bs_block_size :: int
  bs_lora :: "LoRARequest option"
  bs_extra_keys :: "extra_key list option list option"
  bs_group_idx :: int

datatype KVCacheEvent = EBlockStored BlockStored | EBlockRemoved "ExternalBlockHash list" int | EAllBlocksCleared

record BlockPool =
  free_block_queue :: FreeKVCacheBlockQueue
  num_gpu_blocks :: int
  enable_caching :: bool
  hash_block_size :: int
  cached_block_hash_to_block :: BlockHashToBlockMap
  null_block :: block_ref
  enable_kv_cache_events :: bool
  kv_event_queue :: "KVCacheEvent list"
  metrics_collector :: "metrics_call list option"

abbreviation pool_store :: "BlockPool \<Rightarrow> store" where
  "pool_store p \<equiv> blk (free_block_queue p)"

definition pool_blocks :: "BlockPool \<Rightarrow> block_ref list" where
  "pool_blocks p = map Block [0..<nat (num_gpu_blocks p)]"

definition set_store :: "store \<Rightarrow> BlockPool \<Rightarrow> BlockPool" where
  "set_store h p = p\<lparr>free_block_queue := (free_block_queue p)\<lparr>blk := h\<rparr>\<rparr>"

definition add_ref :: "int \<Rightarrow> block_ref \<Rightarrow> BlockPool \<Rightarrow> BlockPool" where
  "add_ref d b p = set_store ((pool_store p)(b := (pool_store p b)\<lparr>ref_cnt := ref_cnt (pool_store p b) + d\<rparr>)) p"

definition note_metrics :: "metrics_call \<Rightarrow> BlockPool \<Rightarrow> BlockPool" where
  "note_metrics c p = p\<lparr>metrics_collector := map_option (\<lambda>cs. cs @ [c]) (metrics_collector p)\<rparr>"

section \<open>Operations\<close>

definition block_pool_init :: "int \<Rightarrow> bool \<Rightarrow> int \<Rightarrow> bool \<Rightarrow> bool \<Rightarrow> BlockPool result" where
  "block_pool_init num caching hash_bs events metrics =
     bind_r (assert_r (num > 0)) (\<lambda>_.
       let blocks = map Block [0..<nat num];
           h = (\<lambda>r. case r of Block i \<Rightarrow> new_block (int i) | _ \<Rightarrow> new_block (-1));
           q = free_queue_init blocks h
       in bind_r (popleft q) (\<lambda>(nb, q).
         let h = blk q; h = h(nb := (h nb)\<lparr>is_null := True\<rparr>)
         in Inr \<lparr>free_block_queue = q\<lparr>blk := h\<rparr>, num_gpu_blocks = num, enable_caching = caching,
              hash_block_size = hash_bs, cached_block_hash_to_block = hmap_empty, null_block = nb,
              enable_kv_cache_events = events, kv_event_queue = [],
              metrics_collector = (if metrics then Some [] else None)\<rparr>))"

fun get_cached_block :: "bytes \<Rightarrow> int list \<Rightarrow> BlockPool \<Rightarrow> block_ref list option result" where
  "get_cached_block bh [] p = Inr (Some [])"
| "get_cached_block bh (g # gs) p =
     bind_r (make_block_hash_with_group_id bh g) (\<lambda>key.
     bind_r (get_one_block (cached_block_hash_to_block p) key) (\<lambda>r.
       case r of
         None \<Rightarrow> Inr None
       | Some b \<Rightarrow> map_r (map_option (\<lambda>bs. b # bs)) (get_cached_block bh gs p)))"

text \<open>One iteration of the loop over \<open>enumerate(new_full_blocks)\<close>; the state also carries the
  external hashes collected for the event.\<close>

definition cache_one_block ::
    "bool \<Rightarrow> int \<Rightarrow> bytes list \<Rightarrow> int \<times> block_ref \<Rightarrow> BlockPool \<times> ExternalBlockHash list
      \<Rightarrow> (BlockPool \<times> ExternalBlockHash list) result" where
  "cache_one_block use_int gid new_hashes ib st =
     (case (ib, st) of ((i, b), (p, ext)) \<Rightarrow>
      if is_null (pool_store p b) then Inr (p, ext)
      else bind_r (assert_r (block_hash (pool_store p b) = None)) (\<lambda>_.
        bind_r (nth_r new_hashes i) (\<lambda>bh.
        bind_r (make_block_hash_with_group_id bh gid) (\<lambda>key.
        bind_r (set_block_hash b key (pool_store p)) (\<lambda>h.
          let p = set_store h p;
              p = p\<lparr>cached_block_hash_to_block := hmap_insert h key b (cached_block_hash_to_block p)\<rparr>
          in Inr (p, ext @ [maybe_convert_block_hash use_int bh]))))))"

text \<open>The extra keys of every cached block, for the event.\<close>

definition event_extra_keys_step ::
    "(bytes \<Rightarrow> bytes) \<Rightarrow> block_ref list \<Rightarrow> int \<Rightarrow> BlockPool \<Rightarrow> int
      \<Rightarrow> extra_key list option list \<times> int \<times> Request \<Rightarrow> (extra_key list option list \<times> int \<times> Request) result" where
  "event_extra_keys_step sha256 blocks block_size p i st =
     (case st of (acc, mm_idx, r) \<Rightarrow>
      bind_r (nth_r blocks i) (\<lambda>b.
        if is_null (pool_store p b) then Inr (acc, mm_idx, r)
        else bind_r (generate_block_hash_extra_keys sha256 r (i * block_size) (i * block_size + block_size) mm_idx)
          (\<lambda>(keys, mm_idx, r). Inr (acc @ [keys], mm_idx, r))))"

definition cache_full_blocks ::
    "bool \<Rightarrow> (bytes \<Rightarrow> bytes) \<Rightarrow> Request \<Rightarrow> block_ref list \<Rightarrow> int \<Rightarrow> int \<Rightarrow> int \<Rightarrow> int \<Rightarrow> BlockPool
      \<Rightarrow> (Request \<times> BlockPool) result" where
  "cache_full_blocks use_int sha256 r blocks num_cached num_full block_size gid p =
     (if num_cached \<ge> num_full then Inr (r, p)
      else
        let new_full = slice blocks num_cached num_full in
        bind_r (assert_r (int (length (block_hashes r)) \<ge> num_full)) (\<lambda>_.
        bind_r (if block_size = hash_block_size p
                then Inr (slice_from (block_hashes r) num_cached, nth_r (block_hashes r))
                else bind_r (bhl_init (block_hashes r) (hash_block_size p) block_size) (\<lambda>l.
                  Inr (bhl_slice_from l num_cached, \<lambda>i. Inr (bhl_get_value_at l i))))
          (\<lambda>(new_hashes, hash_at).
        bind_r (fold_r (cache_one_block use_int gid new_hashes)
                  (zip (map int [0..<length new_full]) new_full) (p, []))
          (\<lambda>(p, ext).
        if \<not> enable_kv_cache_events p then Inr (r, p)
        else
          bind_r (if num_cached = 0 then Inr None
                  else map_r (\<lambda>h. Some (maybe_convert_block_hash use_int h)) (hash_at (num_cached - 1)))
            (\<lambda>parent.
          bind_r (fold_r (event_extra_keys_step sha256 blocks block_size p) [num_cached..num_full - 1] ([], 0, r))
            (\<lambda>(keys, _, r).
              Inr (r, p\<lparr>kv_event_queue := kv_event_queue p @ [EBlockStored
                \<lparr>bs_block_hashes = ext, bs_parent_block_hash = parent,
                 bs_token_ids = slice (all_token_ids r) (num_cached * block_size) (num_full * block_size),
                 bs_block_size = block_size, bs_lora = lora_request r,
                 bs_extra_keys = (if keys = [] then None else Some keys), bs_group_idx = gid\<rparr>]\<rparr>)))))))"

definition get_num_free_blocks :: "BlockPool \<Rightarrow> int" where
  "get_num_free_blocks p = num_free_blocks (free_block_queue p)"

definition maybe_evict_cached_block :: "bool \<Rightarrow> block_ref \<Rightarrow> BlockPool \<Rightarrow> bool \<times> BlockPool" where
  "maybe_evict_cached_block use_int b p =
     (let p = note_metrics (on_block_evicted b) p in
      case block_hash (pool_store p b) of
        None \<Rightarrow> (False, p)
      | Some key \<Rightarrow>
          (case hmap_pop (pool_store p) key (block_id (pool_store p b)) (cached_block_hash_to_block p) of
             (None, m) \<Rightarrow> (False, p\<lparr>cached_block_hash_to_block := m\<rparr>)
           | (Some _, m) \<Rightarrow>
               let p = set_store (reset_hash b (pool_store p)) (p\<lparr>cached_block_hash_to_block := m\<rparr>)
               in (True, if enable_kv_cache_events p
                         then p\<lparr>kv_event_queue := kv_event_queue p @
                            [EBlockRemoved [maybe_convert_block_hash use_int (get_block_hash key)] (get_group_id key)]\<rparr>
                         else p)))"

definition allocate_one :: "bool \<Rightarrow> block_ref \<Rightarrow> BlockPool \<Rightarrow> BlockPool result" where
  "allocate_one use_int b p =
     (let p = (if enable_caching p then snd (maybe_evict_cached_block use_int b p) else p) in
      bind_r (assert_r (ref_cnt (pool_store p b) = 0)) (\<lambda>_.
        Inr (note_metrics (on_block_allocated b) (add_ref 1 b p))))"

definition get_new_blocks :: "bool \<Rightarrow> int \<Rightarrow> BlockPool \<Rightarrow> (block_ref list \<times> BlockPool) result" where
  "get_new_blocks use_int n p =
     (if n > get_num_free_blocks p then Inl ValueError
      else bind_r (popleft_n n (free_block_queue p)) (\<lambda>(ret, q).
        map_r (\<lambda>p. (ret, p)) (fold_r (allocate_one use_int) ret (p\<lparr>free_block_queue := q\<rparr>))))"

definition touch_one :: "block_ref \<Rightarrow> BlockPool \<Rightarrow> BlockPool result" where
  "touch_one b p =
     bind_r (if ref_cnt (pool_store p b) = 0 \<and> \<not> is_null (pool_store p b)
             then map_r (\<lambda>q. p\<lparr>free_block_queue := q\<rparr>) (remove_block b (free_block_queue p))
             else Inr p)
       (\<lambda>p. Inr (note_metrics (on_block_accessed b) (add_ref 1 b p)))"

definition touch :: "block_ref list \<Rightarrow> BlockPool \<Rightarrow> BlockPool result" where
  "touch bs p = fold_r touch_one bs p"

definition free_blocks :: "block_ref list \<Rightarrow> BlockPool \<Rightarrow> BlockPool result" where
  "free_blocks bs p =
     (let p = fold (add_ref (-1)) bs p in
      map_r (\<lambda>q. p\<lparr>free_block_queue := q\<rparr>)
        (append_n (filter (\<lambda>b. ref_cnt (pool_store p b) = 0 \<and> \<not> is_null (pool_store p b)) bs) (free_block_queue p)))"

definition evict_one :: "bool \<Rightarrow> int \<Rightarrow> BlockPool \<Rightarrow> BlockPool result" where
  "evict_one use_int i p =
     bind_r (assert_r (i < int (length (pool_blocks p)))) (\<lambda>_.
     bind_r (nth_r (pool_blocks p) i) (\<lambda>b. Inr (snd (maybe_evict_cached_block use_int b p))))"

text \<open>The set of ids is iterated in some order, here the order of the list.\<close>

definition evict_blocks :: "bool \<Rightarrow> int list \<Rightarrow> BlockPool \<Rightarrow> BlockPool result" where
  "evict_blocks use_int ids p = fold_r (evict_one use_int) ids p"

definition reset_prefix_cache_pool :: "BlockPool \<Rightarrow> bool \<times> BlockPool" where
  "reset_prefix_cache_pool p =
     (if num_gpu_blocks p - get_num_free_blocks p \<noteq> 1 then (False, p)
      else
        let p = p\<lparr>cached_block_hash_to_block := hmap_empty\<rparr>;
            p = set_store (fold reset_hash (pool_blocks p) (pool_store p)) p;
            p = note_metrics metrics_reset p
        in (True, if enable_kv_cache_events p
                  then p\<lparr>kv_event_queue := kv_event_queue p @ [EAllBlocksCleared]\<rparr> else p))"

definition get_usage :: "BlockPool \<Rightarrow> rat" where
  "get_usage p =
     (let total = num_gpu_blocks p - 1
      in if total = 0 then 0 else 1 - of_int (get_num_free_blocks p) / of_int total)"

definition take_events :: "BlockPool \<Rightarrow> KVCacheEvent list \<times> BlockPool" where
  "take_events p =
     (if \<not> enable_kv_cache_events p then ([], p) else (kv_event_queue p, p\<lparr>kv_event_queue := []\<rparr>))"

section \<open>The pool invariant\<close>

abbreviation refs :: "BlockPool \<Rightarrow> block_ref \<Rightarrow> int" where
  "refs p b \<equiv> ref_cnt (pool_store p b)"

abbreviation hash_of :: "BlockPool \<Rightarrow> block_ref \<Rightarrow> bytes option" where
  "hash_of p b \<equiv> block_hash (pool_store p b)"

text \<open>The blocks requests may hold: every block of the pool but the null block.\<close>

definition usable :: "BlockPool \<Rightarrow> block_ref \<Rightarrow> bool" where
  "usable p b \<longleftrightarrow> (\<exists>i. b = Block i \<and> 0 < i \<and> int i < num_gpu_blocks p)"

text \<open>
  \<open>pool_core p xs Z\<close>: the free queue spells \<open>xs\<close>, which are the usable blocks without references
  except those of \<open>Z\<close> (blocks in transit inside an operation), and the hash index holds exactly the
  blocks that carry a hash.
\<close>

definition pool_core :: "BlockPool \<Rightarrow> block_ref list \<Rightarrow> block_ref set \<Rightarrow> bool" where
  "pool_core p xs Z \<longleftrightarrow>
     queue_inv (free_block_queue p) xs \<and> num_gpu_blocks p > 0 \<and> null_block p = Block 0
     \<and> (\<forall>i. int i < num_gpu_blocks p \<longrightarrow> block_id (pool_store p (Block i)) = int i
            \<and> is_null (pool_store p (Block i)) = (i = 0))
     \<and> set xs = {b. usable p b \<and> refs p b = 0} - Z
     \<and> (\<forall>b. usable p b \<longrightarrow> refs p b \<ge> 0)
     \<and> hmap_wf (pool_store p) (cached_block_hash_to_block p)
     \<and> (\<forall>key. hmap_blocks (cached_block_hash_to_block p) key = {b. usable p b \<and> hash_of p b = Some key})
     \<and> hash_of p (Block 0) = None"

abbreviation pool_inv :: "BlockPool \<Rightarrow> block_ref list \<Rightarrow> bool" where
  "pool_inv p xs \<equiv> pool_core p xs {}"

text \<open>What no operation changes.\<close>

definition pool_static :: "BlockPool \<Rightarrow> BlockPool \<Rightarrow> bool" where
  "pool_static p p' \<longleftrightarrow>
     num_gpu_blocks p' = num_gpu_blocks p \<and> null_block p' = null_block p \<and> enable_caching p' = enable_caching p
     \<and> hash_block_size p' = hash_block_size p \<and> enable_kv_cache_events p' = enable_kv_cache_events p
     \<and> (\<forall>b. is_null (pool_store p' b) = is_null (pool_store p b) \<and> block_id (pool_store p' b) = block_id (pool_store p b))"

lemma pool_static_refl [simp]: "pool_static p p"
  by (simp add: pool_static_def)

lemma pool_static_trans: "pool_static p p' \<Longrightarrow> pool_static p' p'' \<Longrightarrow> pool_static p p''"
  by (simp add: pool_static_def)

lemma pool_static_usable: "pool_static p p' \<Longrightarrow> usable p' b = usable p b"
  by (simp add: pool_static_def usable_def)

lemma pool_staticD:
  assumes "pool_static p p'"
  shows "num_gpu_blocks p' = num_gpu_blocks p" "null_block p' = null_block p" "enable_caching p' = enable_caching p"
    "hash_block_size p' = hash_block_size p" "enable_kv_cache_events p' = enable_kv_cache_events p"
    "is_null (pool_store p' b) = is_null (pool_store p b)" "block_id (pool_store p' b) = block_id (pool_store p b)"
    "pool_blocks p' = pool_blocks p"
  using assms by (auto simp: pool_static_def pool_blocks_def)

lemma pool_coreD:
  assumes "pool_core p xs Z"
  shows "queue_inv (free_block_queue p) xs" "num_gpu_blocks p > 0" "null_block p = Block 0"
    "set xs = {b. usable p b \<and> refs p b = 0} - Z" "\<And>b. usable p b \<Longrightarrow> refs p b \<ge> 0"
    "hmap_wf (pool_store p) (cached_block_hash_to_block p)"
    "\<And>key. hmap_blocks (cached_block_hash_to_block p) key = {b. usable p b \<and> hash_of p b = Some key}"
    "hash_of p (Block 0) = None" "distinct xs"
  using assms by (auto simp: pool_core_def queue_inv_def)

lemma usable_facts:
  assumes "pool_core p xs Z" and "usable p b"
  shows "\<not> is_null (pool_store p b)" "real_block b" "b \<noteq> null_block p"
    "usable p c \<Longrightarrow> block_id (pool_store p b) = block_id (pool_store p c) \<Longrightarrow> b = c"
  using assms by (auto simp: pool_core_def usable_def real_block_def)

lemma null_facts:
  assumes "pool_core p xs Z"
  shows "is_null (pool_store p (null_block p))" "\<not> usable p (null_block p)"
  using assms by (auto simp: pool_core_def usable_def)

subsection \<open>Elementary updates\<close>

lemma set_store_simps [simp]:
  "pool_store (set_store h p) = h"
  "num_free_blocks (free_block_queue (set_store h p)) = num_free_blocks (free_block_queue p)"
  "num_gpu_blocks (set_store h p) = num_gpu_blocks p" "enable_caching (set_store h p) = enable_caching p"
  "hash_block_size (set_store h p) = hash_block_size p" "null_block (set_store h p) = null_block p"
  "cached_block_hash_to_block (set_store h p) = cached_block_hash_to_block p"
  "enable_kv_cache_events (set_store h p) = enable_kv_cache_events p"
  by (simp_all add: set_store_def)

lemma add_ref_simps [simp]:
  "refs (add_ref d b p) c = (if c = b then refs p b + d else refs p c)"
  "hash_of (add_ref d b p) c = hash_of p c" "pool_static p (add_ref d b p)"
  "usable (add_ref d b p) c = usable p c"
  "cached_block_hash_to_block (add_ref d b p) = cached_block_hash_to_block p"
  by (simp_all add: add_ref_def pool_static_def usable_def)

lemma note_metrics_simps [simp]:
  "free_block_queue (note_metrics c p) = free_block_queue p" "pool_static p (note_metrics c p)"
  "usable (note_metrics c p) b = usable p b" "enable_caching (note_metrics c p) = enable_caching p"
  "cached_block_hash_to_block (note_metrics c p) = cached_block_hash_to_block p"
  "pool_core (note_metrics c p) xs Z = pool_core p xs Z"
  by (simp_all add: note_metrics_def pool_static_def usable_def pool_core_def)

lemma queue_inv_set_store:
  "links_eq (pool_store p) h \<Longrightarrow> queue_inv (free_block_queue (set_store h p)) xs = queue_inv (free_block_queue p) xs"
  by (simp add: set_store_def queue_inv_links_eq)

lemma pool_core_add_ref:
  assumes core: "pool_core p xs Z" and b: "usable p b" "b \<notin> set xs" "refs p b + d \<ge> 0"
  shows "pool_core (add_ref d b p) xs (if refs p b + d = 0 then insert b Z else Z - {b})"
proof -
  have "queue_inv (free_block_queue (add_ref d b p)) xs"
    using pool_coreD(1)[OF core] unfolding add_ref_def by (subst queue_inv_set_store) (auto simp: links_eq_def)
  moreover have "hmap_wf (pool_store (add_ref d b p)) (cached_block_hash_to_block p)"
    using pool_coreD(6)[OF core] by (subst hmap_wf_cong[of _ "pool_store p"]) (auto simp: add_ref_def)
  ultimately show ?thesis
    using core b unfolding pool_core_def by (auto simp: add_ref_def usable_def)
qed

lemma pool_core_add_ref_null:
  assumes core: "pool_core p xs Z" and b: "\<not> usable p b"
  shows "pool_core (add_ref d b p) xs Z"
proof -
  have "queue_inv (free_block_queue (add_ref d b p)) xs"
    using pool_coreD(1)[OF core] unfolding add_ref_def by (subst queue_inv_set_store) (auto simp: links_eq_def)
  moreover have "hmap_wf (pool_store (add_ref d b p)) (cached_block_hash_to_block p)"
    using pool_coreD(6)[OF core] by (subst hmap_wf_cong[of _ "pool_store p"]) (auto simp: add_ref_def)
  ultimately show ?thesis
    using core b unfolding pool_core_def by (auto simp: add_ref_def usable_def)
qed

subsection \<open>Eviction and allocation\<close>

lemma reset_hash_fields [heap_simps]:
  "block_hash (reset_hash b h c) = (if c = b then None else block_hash (h c))"
  "ref_cnt (reset_hash b h c) = ref_cnt (h c)" "block_id (reset_hash b h c) = block_id (h c)"
  "is_null (reset_hash b h c) = is_null (h c)" "links_eq h (reset_hash b h)"
  by (simp_all add: reset_hash_def links_eq_def)

lemma evict_spec:
  assumes core: "pool_core p xs Z" and b: "usable p b \<or> b = null_block p"
    and ev: "maybe_evict_cached_block u b p = (r, p')"
  shows "pool_core p' xs Z \<and> pool_static p p' \<and> (\<forall>c. refs p' c = refs p c) \<and> (\<forall>c. hash_of p' c = (if c = b then None else hash_of p c))
    \<and> r = (hash_of p b \<noteq> None)"
proof (cases "hash_of p b")
  case None
  with ev core show ?thesis
    by (auto simp: maybe_evict_cached_block_def Let_def fun_eq_iff)
next
  case (Some key)
  have ub: "usable p b" using b Some pool_coreD(3,8)[OF core] by auto
  let ?m = "cached_block_hash_to_block p"
  obtain o' m where pop: "hmap_pop (pool_store p) key (block_id (pool_store p b)) ?m = (o', m)" by fastforce
  note P = hmap_pop_spec[OF pool_coreD(6)[OF core] pop]
  have "b \<in> hmap_blocks ?m key" using ub Some pool_coreD(7)[OF core] by simp
  with P(3) obtain c where o': "o' = Some c" by (auto split: option.splits)
  have m: "hmap_blocks m k = {c. usable p c \<and> hash_of p c = Some k \<and> (k = key \<longrightarrow> c \<noteq> b)}" for k
    unfolding P(2) pool_coreD(7)[OF core] using usable_facts(4)[OF core ub] ub by (auto; metis)
  let ?h = "reset_hash b (pool_store p)"
  have q: "queue_inv (free_block_queue (set_store ?h p')) xs = queue_inv (free_block_queue p') xs"
    if "pool_store p' = pool_store p" for p'
    using that by (intro queue_inv_set_store) (simp add: heap_simps)
  have wf: "hmap_wf ?h m" using P(1) by (subst hmap_wf_cong[of _ "pool_store p"]) (auto simp: heap_simps)
  have p': "pool_store p' = ?h" "cached_block_hash_to_block p' = m" "r" "num_free_blocks (free_block_queue p') = num_free_blocks (free_block_queue p)"
    "num_gpu_blocks p' = num_gpu_blocks p" "null_block p' = null_block p"
    "enable_caching p' = enable_caching p" "hash_block_size p' = hash_block_size p" "enable_kv_cache_events p' = enable_kv_cache_events p"
    using ev Some pop o' by (auto simp: maybe_evict_cached_block_def Let_def note_metrics_def split: if_splits)
  have "queue_inv (free_block_queue p') xs"
  proof -
    have "free_block_queue p' = (free_block_queue p)\<lparr>blk := ?h\<rparr>" using p'(1,4) by simp
    then show ?thesis using pool_coreD(1)[OF core] queue_inv_links_eq[of "free_block_queue p" ?h xs]
      by (simp add: heap_simps)
  qed
  moreover have "usable p' = usable p" using p' by (simp add: usable_def fun_eq_iff)
  ultimately have "pool_core p' xs Z"
    using core wf m p' Some unfolding pool_core_def by (auto simp: heap_simps)
  with p' Some show ?thesis by (auto simp: pool_static_def heap_simps fun_eq_iff)
qed

lemma allocate_one_spec:
  assumes core: "pool_core p xs Z" and b: "usable p b" "b \<in> Z" "refs p b = 0"
  shows "\<exists>p'. allocate_one u b p = Inr p' \<and> pool_core p' xs (Z - {b}) \<and> pool_static p p'
    \<and> (\<forall>c. refs p' c = (if c = b then 1 else refs p c))
    \<and> (\<forall>c. hash_of p' c = (if enable_caching p \<and> c = b then None else hash_of p c))"
proof -
  define p1 where "p1 = (if enable_caching p then snd (maybe_evict_cached_block u b p) else p)"
  have p1: "pool_core p1 xs Z" "pool_static p p1" "\<forall>c. refs p1 c = refs p c"
    "\<forall>c. hash_of p1 c = (if enable_caching p \<and> c = b then None else hash_of p c)"
    using evict_spec[OF core disjI1[OF b(1)], of u] core unfolding p1_def
    by (cases "maybe_evict_cached_block u b p"; auto)+
  have ub: "usable p1 b" using b p1 by (simp add: pool_static_usable)
  have nin: "b \<notin> set xs" using b pool_coreD(4)[OF core] by auto
  have "pool_core (add_ref 1 b p1) xs (Z - {b})"
    using pool_core_add_ref[OF p1(1) ub nin, of 1] p1(3) b by simp
  moreover have "pool_static p (note_metrics (on_block_allocated b) (add_ref 1 b p1))"
    using p1(2) by (meson pool_static_trans add_ref_simps(3) note_metrics_simps(2))
  moreover have "allocate_one u b p = Inr (note_metrics (on_block_allocated b) (add_ref 1 b p1))"
    using p1(3) b(3) unfolding allocate_one_def p1_def[symmetric] Let_def by (simp add: assert_r_def)
  ultimately show ?thesis using p1 b by (auto simp: fun_eq_iff)
qed

lemma allocate_all_spec:
  assumes "pool_core p xs (set bs)" and "distinct bs" and "\<forall>b\<in>set bs. usable p b \<and> refs p b = 0"
  shows "\<exists>p'. fold_r (allocate_one u) bs p = Inr p' \<and> pool_inv p' xs \<and> pool_static p p'
    \<and> (\<forall>b. refs p' b = (if b \<in> set bs then 1 else refs p b))
    \<and> (\<forall>b. hash_of p' b = (if enable_caching p \<and> b \<in> set bs then None else hash_of p b))"
  using assms
proof (induction bs arbitrary: p)
  case (Cons b bs)
  obtain p1 where p1: "allocate_one u b p = Inr p1" "pool_core p1 xs (set (b # bs) - {b})" "pool_static p p1"
    "\<forall>c. refs p1 c = (if c = b then 1 else refs p c)" "\<forall>c. hash_of p1 c = (if enable_caching p \<and> c = b then None else hash_of p c)"
    using allocate_one_spec[OF Cons.prems(1), of b u] Cons.prems(3) by auto
  have "set (b # bs) - {b} = set bs" using Cons.prems(2) by auto
  then have "pool_core p1 xs (set bs)" using p1(2) by simp
  moreover have "\<forall>c\<in>set bs. usable p1 c \<and> refs p1 c = 0"
    using Cons.prems(2,3) p1(3,4) by (auto simp: pool_static_usable)
  ultimately obtain p' where p': "fold_r (allocate_one u) bs p1 = Inr p'" "pool_inv p' xs" "pool_static p1 p'"
    "\<forall>b. refs p' b = (if b \<in> set bs then 1 else refs p1 b)"
    "\<forall>b. hash_of p' b = (if enable_caching p1 \<and> b \<in> set bs then None else hash_of p1 b)"
    using Cons.IH[of p1] Cons.prems(2) by auto
  moreover have "pool_static p p'" using p1(3) p'(3) by (rule pool_static_trans)
  moreover have "enable_caching p1 = enable_caching p" using p1(3) by (simp add: pool_static_def)
  ultimately show ?case using p1 Cons.prems(2) by (auto simp: fun_eq_iff)
qed (simp add: fun_eq_iff)

lemma get_new_blocks_spec:
  assumes inv: "pool_inv p xs" and n: "0 \<le> n" "n \<le> int (length xs)"
  shows "\<exists>p'. get_new_blocks u n p = Inr (take (nat n) xs, p') \<and> pool_inv p' (drop (nat n) xs) \<and> pool_static p p'
    \<and> (\<forall>b. refs p' b = (if b \<in> set (take (nat n) xs) then 1 else refs p b))
    \<and> (\<forall>b. hash_of p' b = (if enable_caching p \<and> b \<in> set (take (nat n) xs) then None else hash_of p b))"
proof -
  let ?ys = "take (nat n) xs" and ?zs = "drop (nat n) xs"
  have free: "get_num_free_blocks p = int (length xs)"
    using pool_coreD(1)[OF inv] by (simp add: get_num_free_blocks_def queue_inv_def)
  obtain q where q: "popleft_n n (free_block_queue p) = Inr (?ys, q)" "queue_inv q ?zs" "payload_eq (pool_store p) (blk q)"
    using fq.pop_n_law[OF pool_coreD(1)[OF inv] n] by blast
  let ?p = "p\<lparr>free_block_queue := q\<rparr>"
  note pay = payload_eqD[OF q(3)]
  have ub: "usable ?p = usable p" by (simp add: usable_def fun_eq_iff)
  have st: "pool_static p ?p" by (simp add: pool_static_def pay)
  have "set ?zs = set xs - set ?ys" using set_drop_distinct[OF pool_coreD(9)[OF inv]] .
  then have "pool_core ?p ?zs (set ?ys)"
    using inv q(2) ub pay unfolding pool_core_def
    by (simp add: hmap_wf_cong[of "blk q" "pool_store p"])
  moreover have "distinct ?ys" using pool_coreD(9)[OF inv] by simp
  moreover have "\<forall>b\<in>set ?ys. usable ?p b \<and> refs ?p b = 0"
    using pool_coreD(4)[OF inv] ub pay by (auto dest: in_set_takeD)
  ultimately obtain p' where p': "fold_r (allocate_one u) ?ys ?p = Inr p'" "pool_inv p' ?zs" "pool_static ?p p'"
    "\<forall>b. refs p' b = (if b \<in> set ?ys then 1 else refs ?p b)"
    "\<forall>b. hash_of p' b = (if enable_caching ?p \<and> b \<in> set ?ys then None else hash_of ?p b)"
    using allocate_all_spec[of ?p ?zs ?ys u] by blast
  moreover have "pool_static p p'" using st p'(3) by (rule pool_static_trans)
  ultimately show ?thesis using q(1) n free pay by (auto simp: get_new_blocks_def fun_eq_iff)
qed

lemma get_new_blocks_too_many:
  "pool_inv p xs \<Longrightarrow> int (length xs) < n \<Longrightarrow> get_new_blocks u n p = Inl ValueError"
  using pool_coreD(1)[of p xs "{}"] by (simp add: get_new_blocks_def get_num_free_blocks_def queue_inv_def)

subsection \<open>Touching and freeing\<close>

lemma pool_core_requeue:
  assumes core: "pool_core p xs Z" and q: "queue_inv q ys" "payload_eq (pool_store p) (blk q)"
    and ys: "set ys = {b. usable p b \<and> refs p b = 0} - Z'"
  shows "pool_core (p\<lparr>free_block_queue := q\<rparr>) ys Z'" "pool_static p (p\<lparr>free_block_queue := q\<rparr>)"
    "usable (p\<lparr>free_block_queue := q\<rparr>) = usable p"
proof -
  note pay = payload_eqD[OF q(2)]
  show "usable (p\<lparr>free_block_queue := q\<rparr>) = usable p" by (simp add: usable_def fun_eq_iff)
  then show "pool_core (p\<lparr>free_block_queue := q\<rparr>) ys Z'"
    using core q ys pay unfolding pool_core_def by (simp add: hmap_wf_cong[of "blk q" "pool_store p"])
  show "pool_static p (p\<lparr>free_block_queue := q\<rparr>)" by (simp add: pool_static_def pay)
qed

lemma touch_one_spec:
  assumes inv: "pool_inv p xs" and b: "usable p b \<or> b = null_block p"
  shows "\<exists>p'. touch_one b p = Inr p' \<and> pool_inv p' (remove1 b xs) \<and> pool_static p p'
    \<and> (\<forall>c. refs p' c = refs p c + (if c = b then 1 else 0)) \<and> (\<forall>c. hash_of p' c = hash_of p c)"
proof (cases "b \<in> set xs")
  case True
  then have u: "usable p b" "refs p b = 0" using pool_coreD(4)[OF inv] by auto
  obtain ys zs where xs: "xs = ys @ b # zs" "b \<notin> set ys" using True by (meson split_list_first)
  obtain q where q: "remove_block b (free_block_queue p) = Inr q" "queue_inv q (ys @ zs)" "payload_eq (pool_store p) (blk q)"
    using fq.take_out_law pool_coreD(1)[OF inv] xs(1) by blast
  have "set (ys @ zs) = {b. usable p b \<and> refs p b = 0} - {b}"
    using pool_coreD(4,9)[OF inv] xs(1) by auto
  note P = pool_core_requeue[OF inv q(2,3) this]
  let ?p = "p\<lparr>free_block_queue := q\<rparr>"
  note pay = payload_eqD[OF q(3)]
  have "usable ?p b" "b \<notin> set (ys @ zs)" using u P(3) pool_coreD(9)[OF inv] xs by auto
  from pool_core_add_ref[OF P(1) this, of 1] u pay have "pool_inv (add_ref 1 b ?p) (ys @ zs)" by simp
  moreover have "pool_static p (note_metrics (on_block_accessed b) (add_ref 1 b ?p))"
    using P(2) by (meson pool_static_trans add_ref_simps(3) note_metrics_simps(2))
  moreover have "touch_one b p = Inr (note_metrics (on_block_accessed b) (add_ref 1 b ?p))"
    using u q(1) usable_facts(1)[OF inv u(1)] by (simp add: touch_one_def)
  ultimately show ?thesis using pay xs u by (auto simp: remove1_append)
next
  case False
  have cond: "\<not> (refs p b = 0 \<and> \<not> is_null (pool_store p b))"
    using False b pool_coreD(4)[OF inv] null_facts(1)[OF inv] by auto
  have "pool_inv (add_ref 1 b p) xs"
  proof (cases "usable p b")
    case True
    then have "refs p b + 1 > 0" using pool_coreD(5)[OF inv True] by simp
    with pool_core_add_ref[OF inv True False, of 1] show ?thesis by simp
  qed (rule pool_core_add_ref_null[OF inv])
  moreover have "pool_static p (note_metrics (on_block_accessed b) (add_ref 1 b p))"
    by (meson pool_static_trans add_ref_simps(3) note_metrics_simps(2))
  ultimately show ?thesis using cond False by (auto simp: touch_one_def remove1_idem)
qed

lemma touch_spec:
  assumes "pool_inv p xs" and "\<forall>b\<in>set bs. usable p b \<or> b = null_block p"
  shows "\<exists>p'. touch bs p = Inr p' \<and> pool_inv p' (filter (\<lambda>b. b \<notin> set bs) xs) \<and> pool_static p p'
    \<and> (\<forall>c. refs p' c = refs p c + int (count_list bs c)) \<and> (\<forall>c. hash_of p' c = hash_of p c)"
  using assms unfolding touch_def
proof (induction bs arbitrary: p xs)
  case (Cons b bs)
  obtain p1 where p1: "touch_one b p = Inr p1" "pool_inv p1 (remove1 b xs)" "pool_static p p1"
    "\<forall>c. refs p1 c = refs p c + (if c = b then 1 else 0)" "\<forall>c. hash_of p1 c = hash_of p c"
    using touch_one_spec[OF Cons.prems(1), of b] Cons.prems(2) by auto
  have "\<forall>c\<in>set bs. usable p1 c \<or> c = null_block p1"
    using Cons.prems(2) p1(3) by (auto simp: pool_static_usable pool_staticD)
  from Cons.IH[OF p1(2) this] obtain p' where p': "fold_r touch_one bs p1 = Inr p'"
    "pool_inv p' (filter (\<lambda>b. b \<notin> set bs) (remove1 b xs))" "pool_static p1 p'"
    "\<forall>c. refs p' c = refs p1 c + int (count_list bs c)" "\<forall>c. hash_of p' c = hash_of p1 c" by blast
  moreover have "filter (\<lambda>b. b \<notin> set bs) (remove1 b xs) = filter (\<lambda>c. c \<notin> set (b # bs)) xs"
    using pool_coreD(9)[OF Cons.prems(1)] by (auto simp: distinct_remove1_removeAll removeAll_filter_not_eq intro!: filter_cong)
  moreover have "pool_static p p'" using p1(3) p'(3) by (rule pool_static_trans)
  ultimately show ?case using p1 by auto
qed simp

lemma dec_all_spec:
  assumes "pool_core p xs Z" and "\<forall>b\<in>set bs. usable p b \<and> refs p b \<ge> 1 \<or> b = null_block p"
    and "distinct (filter (usable p) bs)"
  shows "pool_core (fold (add_ref (-1)) bs p) xs (Z \<union> {b \<in> set bs. usable p b \<and> refs p b = 1})
    \<and> pool_static p (fold (add_ref (-1)) bs p)
    \<and> (\<forall>c. refs (fold (add_ref (-1)) bs p) c = refs p c - int (count_list bs c))
    \<and> (\<forall>c. hash_of (fold (add_ref (-1)) bs p) c = hash_of p c)"
  using assms
proof (induction bs arbitrary: p Z)
  case (Cons b bs)
  let ?p = "add_ref (-1) b p" and ?Z = "if usable p b \<and> refs p b = 1 then insert b Z else Z - {c. c = b \<and> usable p b}"
  have core: "pool_core ?p xs ?Z"
  proof (cases "usable p b")
    case True
    then have "refs p b \<ge> 1" using Cons.prems(1,2) null_facts(2) by auto
    moreover from this have "b \<notin> set xs" using pool_coreD(4)[OF Cons.prems(1)] by auto
    ultimately show ?thesis using pool_core_add_ref[OF Cons.prems(1) True, of "-1"] True by auto
  next
    case False
    then show ?thesis using pool_core_add_ref_null[OF Cons.prems(1) False] by simp
  qed
  have A: "\<forall>c\<in>set bs. usable ?p c \<and> refs ?p c \<ge> 1 \<or> c = null_block ?p"
    using Cons.prems(2,3) by (auto simp: pool_staticD(2)[OF add_ref_simps(3)] split: if_splits)
  have B: "distinct (filter (usable ?p) bs)"
  proof -
    have "usable ?p = usable p" by (simp add: fun_eq_iff)
    then show ?thesis using Cons.prems(3) by (simp split: if_splits)
  qed
  note I = Cons.IH[OF core A B]
  note IH = I[THEN conjunct1] I[THEN conjunct2, THEN conjunct1] I[THEN conjunct2, THEN conjunct2, THEN conjunct1]
    I[THEN conjunct2, THEN conjunct2, THEN conjunct2]
  have "{c. usable p c \<and> refs (fold (add_ref (-1)) bs ?p) c = 0} - (?Z \<union> {c \<in> set bs. usable ?p c \<and> refs ?p c = 1})
      = {c. usable p c \<and> refs (fold (add_ref (-1)) bs ?p) c = 0} - (Z \<union> {c \<in> set (b # bs). usable p c \<and> refs p c = 1})"
  proof -
    have "refs (fold (add_ref (-1)) bs ?p) b \<noteq> 0" if "usable p b" "refs p b \<noteq> 1"
      using that IH(3) Cons.prems(3) by (auto simp: count_list_0_iff)
    with Cons.prems(3) show ?thesis by (auto split: if_splits)
  qed
  moreover have "pool_static p (fold (add_ref (-1)) bs ?p)"
    using IH(2) by (meson add_ref_simps(3) pool_static_trans)
  ultimately show ?case
    using IH unfolding pool_core_def by (simp add: pool_static_usable)
qed simp

lemma free_blocks_spec:
  assumes inv: "pool_inv p xs" and bs: "\<forall>b\<in>set bs. usable p b \<and> refs p b \<ge> 1 \<or> b = null_block p"
    and dst: "distinct (filter (usable p) bs)"
  shows "\<exists>p'. free_blocks bs p = Inr p' \<and> pool_inv p' (xs @ filter (\<lambda>b. usable p b \<and> refs p b = 1) bs) \<and> pool_static p p'
    \<and> (\<forall>c. refs p' c = refs p c - int (count_list bs c)) \<and> (\<forall>c. hash_of p' c = hash_of p c)"
proof -
  let ?p = "fold (add_ref (-1)) bs p" and ?ys = "filter (\<lambda>b. usable p b \<and> refs p b = 1) bs"
  have D: "pool_core ?p xs {b \<in> set bs. usable p b \<and> refs p b = 1}" "pool_static p ?p"
    "\<forall>c. refs ?p c = refs p c - int (count_list bs c)" "\<forall>c. hash_of ?p c = hash_of p c"
    using dec_all_spec[OF inv bs dst] by auto
  note one = count_list_distinct_filter[OF dst]
  have flt: "filter (\<lambda>b. refs ?p b = 0 \<and> \<not> is_null (pool_store ?p b)) bs = ?ys"
  proof (rule filter_cong)
    fix b assume "b \<in> set bs"
    with bs one D(3) pool_staticD(6)[OF D(2)] null_facts[OF inv] usable_facts(1)[OF inv]
    show "(refs ?p b = 0 \<and> \<not> is_null (pool_store ?p b)) = (usable p b \<and> refs p b = 1)" by fastforce
  qed simp
  have "distinct ?ys" using dst by (simp add: filter_filter[symmetric] del: filter_filter flip: conj_commute)
  moreover have "\<forall>b\<in>set ?ys. real_block b" using usable_facts(2)[OF inv] by auto
  moreover have "set ?ys \<inter> set xs = {}" using pool_coreD(4)[OF D(1)] by auto
  ultimately obtain q where q: "append_n ?ys (free_block_queue ?p) = Inr q" "queue_inv q (xs @ ?ys)"
    "payload_eq (pool_store ?p) (blk q)"
    using fq.put_back_law[OF pool_coreD(1)[OF D(1)]] by blast
  have "set (xs @ ?ys) = {b. usable ?p b \<and> refs ?p b = 0} - {}"
    using pool_coreD(4)[OF D(1)] pool_static_usable[OF D(2)] D(3) one by auto
  note P = pool_core_requeue[OF D(1) q(2,3) this]
  have "free_blocks bs p = Inr (?p\<lparr>free_block_queue := q\<rparr>)"
    using flt q(1) by (simp add: free_blocks_def Let_def)
  moreover have "pool_static p (?p\<lparr>free_block_queue := q\<rparr>)" using D(2) P(2) by (rule pool_static_trans)
  ultimately show ?thesis using P(1) D payload_eqD[OF q(3)] by auto
qed

subsection \<open>Caching full blocks\<close>

text \<open>The hash list of a request at a group's block size.\<close>

definition group_hashes :: "Request \<Rightarrow> int \<Rightarrow> int \<Rightarrow> bytes list result" where
  "group_hashes r hash_bs block_size =
     (if block_size = hash_bs then Inr (block_hashes r)
      else map_r bhl_iter (bhl_init (block_hashes r) hash_bs block_size))"

lemma bhl_slice_from_iter:
  assumes "0 \<le> n"
  shows "bhl_slice_from l n = drop (nat n) (bhl_iter l)"
proof (cases "0 \<le> bhl_len l")
  case True
  then obtain k where k: "bhl_len l = int k" using nonneg_int_cases by blast
  have "[int m..int k - 1] = drop m (map int [0..<k])" if "m \<le> k" for m
    using that by (simp add: upto_int_upt_from drop_map)
  with assms k show ?thesis
    by (simp add: bhl_slice_from_def bhl_iter_def upto_int_upt py_idx_nonneg drop_map min_def)
qed (simp add: bhl_slice_from_def bhl_iter_def py_idx_def)

lemma cache_one_block_spec:
  assumes inv: "pool_inv p xs" and b: "usable p b \<and> hash_of p b = None \<or> b = null_block p"
    and i: "i < length hs" and gid: "to_bytes_big gid 4 = Inr g"
  shows "\<exists>p' ext'. cache_one_block u gid hs (int i, b) (p, ext) = Inr (p', ext') \<and> pool_inv p' xs \<and> pool_static p p'
    \<and> (\<forall>c. refs p' c = refs p c)
    \<and> (\<forall>c. hash_of p' c = (if c = b \<and> usable p b then Some (hs ! i @ g) else hash_of p c))"
proof (cases "usable p b")
  case False
  with b null_facts(1)[OF inv] inv show ?thesis by (auto simp: cache_one_block_def)
next
  case True
  then have none: "hash_of p b = None" using b pool_coreD(3,8)[OF inv] by auto
  let ?key = "hs ! i @ g" and ?h = "(pool_store p)(b := (pool_store p b)\<lparr>block_hash := Some (hs ! i @ g)\<rparr>)"
  let ?m = "hmap_insert ?h ?key b (cached_block_hash_to_block p)"
  let ?p = "(set_store ?h p)\<lparr>cached_block_hash_to_block := ?m\<rparr>"
  have wf: "hmap_wf ?h (cached_block_hash_to_block p)"
    using pool_coreD(6)[OF inv] by (subst hmap_wf_cong[of _ "pool_store p"]) auto
  have fresh: "b' = b" if "b' \<in> hmap_blocks (cached_block_hash_to_block p) ?key" "block_id (?h b') = block_id (?h b)" for b'
    using that usable_facts(4)[OF inv True, of b'] pool_coreD(7)[OF inv] none by (auto split: if_splits)
  note I = hmap_insert_spec[OF wf fresh]
  have q: "queue_inv (free_block_queue ?p) xs"
  proof -
    have "links_eq (pool_store p) ?h" by (simp add: links_eq_def)
    then have "queue_inv (free_block_queue (set_store ?h p)) xs"
      using pool_coreD(1)[OF inv] by (simp add: queue_inv_set_store)
    then show ?thesis by simp
  qed
  have "usable ?p = usable p" by (simp add: usable_def fun_eq_iff)
  then have "pool_inv ?p xs"
    using inv q I True none unfolding pool_core_def by (auto simp: usable_def)
  moreover have "cache_one_block u gid hs (int i, b) (p, ext) = Inr (?p, ext @ [maybe_convert_block_hash u (hs ! i)])"
    using usable_facts(1)[OF inv True] none i gid
    by (simp add: cache_one_block_def make_block_hash_with_group_id_def set_block_hash_def assert_r_def Let_def)
  moreover have "pool_static p ?p" by (simp add: pool_static_def)
  ultimately show ?thesis using True by auto
qed

lemma cache_loop_spec:
  assumes "pool_inv p xs" and "\<forall>b\<in>set bs. usable p b \<and> hash_of p b = None \<or> b = null_block p"
    and "distinct (filter (usable p) bs)" and "n + length bs \<le> length hs" and gid: "to_bytes_big gid 4 = Inr g"
  shows "\<exists>p' ext'. fold_r (cache_one_block u gid hs) (zip (map int [n..<n + length bs]) bs) (p, ext) = Inr (p', ext')
    \<and> pool_inv p' xs \<and> pool_static p p' \<and> (\<forall>c. refs p' c = refs p c)
    \<and> (\<forall>c. hash_of p' c = (case map_of (zip bs (drop n hs)) c of
              Some h \<Rightarrow> if usable p c then Some (h @ g) else hash_of p c | None \<Rightarrow> hash_of p c))"
  using assms(1-4)
proof (induction bs arbitrary: p n ext)
  case (Cons b bs)
  obtain p1 ext1 where p1: "cache_one_block u gid hs (int n, b) (p, ext) = Inr (p1, ext1)" "pool_inv p1 xs" "pool_static p p1"
    "\<forall>c. refs p1 c = refs p c" "\<forall>c. hash_of p1 c = (if c = b \<and> usable p b then Some (hs ! n @ g) else hash_of p c)"
    using cache_one_block_spec[OF Cons.prems(1), of b n hs gid g u ext] Cons.prems(2,4) gid by auto
  note us = pool_static_usable[OF p1(3)]
  have dst: "distinct (filter (usable p1) bs)"
  proof -
    have "usable p1 = usable p" using us by auto
    then show ?thesis using Cons.prems(3) by (simp split: if_splits)
  qed
  have "\<forall>c\<in>set bs. usable p1 c \<and> hash_of p1 c = None \<or> c = null_block p1"
    using Cons.prems(2,3) p1(5) us pool_staticD(2)[OF p1(3)] by (auto split: if_splits)
  from Cons.IH[OF p1(2) this dst, of "Suc n" ext1] Cons.prems(4) obtain p' ext' where
    p': "fold_r (cache_one_block u gid hs) (zip (map int [Suc n..<Suc n + length bs]) bs) (p1, ext1) = Inr (p', ext')"
      "pool_inv p' xs" "pool_static p1 p'" "\<forall>c. refs p' c = refs p1 c"
      "\<forall>c. hash_of p' c = (case map_of (zip bs (drop (Suc n) hs)) c of
              Some h \<Rightarrow> if usable p1 c then Some (h @ g) else hash_of p1 c | None \<Rightarrow> hash_of p1 c)"
    by auto
  have z: "zip (map int [n..<n + length (b # bs)]) (b # bs) = (int n, b) # zip (map int [Suc n..<Suc n + length bs]) bs"
    by (simp add: upt_conv_Cons del: upt_Suc)
  have d: "drop n hs = hs ! n # drop (Suc n) hs" using Cons.prems(4) by (simp add: Cons_nth_drop_Suc)
  have notin: "b \<notin> set bs" if "usable p b" using Cons.prems(3) that by simp
  have m: "map_of (zip bs (drop (Suc n) hs)) b = None" if "usable p b"
    using notin[OF that] by (auto simp: map_of_eq_None_iff dest: set_zip_leftD)
  have "\<forall>c. hash_of p' c = (case map_of (zip (b # bs) (drop n hs)) c of
              Some h \<Rightarrow> if usable p c then Some (h @ g) else hash_of p c | None \<Rightarrow> hash_of p c)"
    unfolding d using p'(5) p1(5) us m by (auto split: option.splits)
  moreover have "pool_static p p'" using p1(3) p'(3) by (rule pool_static_trans)
  ultimately show ?case unfolding z using p1 p' by auto
qed simp

text \<open>From index 0 on, collecting extra keys never fails, and it changes only the request's digest cache.\<close>

lemma gen_mm_loop_index: "0 \<le> i \<Longrightarrow> gen_mm_loop fs s e i keys = (ks, i') \<Longrightarrow> 0 \<le> i'"
  by (induction fs s e i keys rule: gen_mm_loop.induct) (auto simp: Let_def split: if_splits)

lemma generate_extra_keys_total:
  assumes "0 \<le> i"
  shows "\<exists>ks i' c. generate_block_hash_extra_keys sha r s e i = Inr (ks, i', r\<lparr>embeds_hashes := c\<rparr>) \<and> 0 \<le> i'"
proof -
  obtain ks i' where "gen_mm_extra_hash_keys r s e i = Inr (ks, i')" "0 \<le> i'"
  proof -
    obtain ks i' where g: "gen_mm_loop (drop (nat i) (mm_features r)) s e i [] = (ks, i')" by fastforce
    then have "gen_mm_extra_hash_keys r s e i = Inr ([], i) \<or> gen_mm_extra_hash_keys r s e i = Inr (ks, i')"
      using assms by (simp add: gen_mm_extra_hash_keys_def Let_def)
    then show thesis using that[of "[]" i] that[of ks i'] assms gen_mm_loop_index[OF assms g] by blast
  qed
  moreover obtain ek c where "gen_prompt_embeds_extra_hash_keys sha r s e = (ek, r\<lparr>embeds_hashes := c\<rparr>)"
  proof -
    show thesis
    proof (cases "prompt_embeds r")
      case None
      then show thesis using that[of "[]" "embeds_hashes r"] by (simp add: gen_prompt_embeds_extra_hash_keys_def)
    next
      case (Some rows)
      then show thesis using that[of _ "embeds_hashes r"] that
        by (cases "embeds_hashes r (s, e)") (simp_all add: gen_prompt_embeds_extra_hash_keys_def Let_def)
    qed
  qed
  ultimately show ?thesis by (auto simp: generate_block_hash_extra_keys_def Let_def)
qed

lemma event_extra_keys_total:
  assumes "\<forall>i\<in>set ns. 0 \<le> i \<and> i < int (length blocks)" and "0 \<le> mm"
  shows "\<exists>ks mm' c. fold_r (event_extra_keys_step sha blocks bs p) ns (acc, mm, r) = Inr (ks, mm', r\<lparr>embeds_hashes := c\<rparr>)"
  using assms
proof (induction ns arbitrary: acc mm r)
  case Nil
  show ?case by (intro exI[of _ acc] exI[of _ mm] exI[of _ "embeds_hashes r"]) simp
next
  case (Cons i ns)
  then obtain b where b: "nth_r blocks i = Inr b" using nth_r_nat[of "nat i" blocks] by auto
  obtain ks mm' c where g: "generate_block_hash_extra_keys sha r (i * bs) (i * bs + bs) mm = Inr (ks, mm', r\<lparr>embeds_hashes := c\<rparr>)"
    "0 \<le> mm'" using generate_extra_keys_total[OF Cons.prems(2)] by blast
  show ?case
  proof (cases "is_null (pool_store p b)")
    case True
    with Cons b show ?thesis by (simp add: event_extra_keys_step_def)
  next
    case False
    with Cons.IH[of mm' "acc @ [ks]" "r\<lparr>embeds_hashes := c\<rparr>"] Cons.prems b g show ?thesis
      by (simp add: event_extra_keys_step_def)
  qed
qed

lemma cache_full_blocks_spec:
  assumes inv: "pool_inv p xs" and nc: "0 \<le> nc" "nc < nf" "nf \<le> int (length blocks)" "nf \<le> int (length (block_hashes r))"
    and hs: "group_hashes r (hash_block_size p) bs = Inr hs" "nf \<le> int (length hs)"
    and new: "\<forall>b\<in>set (slice blocks nc nf). usable p b \<and> hash_of p b = None \<or> b = null_block p"
    and dst: "distinct (filter (usable p) (slice blocks nc nf))"
    and gid: "to_bytes_big gid 4 = Inr g"
  shows "\<exists>c p'. cache_full_blocks u sha r blocks nc nf bs gid p = Inr (r\<lparr>embeds_hashes := c\<rparr>, p')
    \<and> pool_inv p' xs \<and> pool_static p p' \<and> (\<forall>c. refs p' c = refs p c)
    \<and> (\<forall>c. hash_of p' c = (case map_of (zip (slice blocks nc nf) (drop (nat nc) hs)) c of
              Some h \<Rightarrow> if usable p c then Some (h @ g) else hash_of p c | None \<Rightarrow> hash_of p c))"
proof -
  let ?new = "slice blocks nc nf" and ?hs = "drop (nat nc) hs"
  have len: "length ?new = nat nf - nat nc" using nc by simp
  have "0 + length ?new \<le> length ?hs" using len hs(2) nc by simp
  from cache_loop_spec[OF inv new dst this gid, of u "[]"] obtain p1 ext where
    p1: "fold_r (cache_one_block u gid ?hs) (zip (map int [0..<length ?new]) ?new) (p, []) = Inr (p1, ext)"
      "pool_inv p1 xs" "pool_static p p1" "\<forall>c. refs p1 c = refs p c"
      "\<forall>c. hash_of p1 c = (case map_of (zip ?new ?hs) c of
              Some h \<Rightarrow> if usable p c then Some (h @ g) else hash_of p c | None \<Rightarrow> hash_of p c)"
    by (auto simp del: slice_nonneg)
  obtain ha where ha: "\<And>k. 0 \<le> k \<Longrightarrow> k < nf \<Longrightarrow> \<exists>h. ha k = Inr h"
    and view: "(if bs = hash_block_size p then Inr (slice_from (block_hashes r) nc, nth_r (block_hashes r))
       else bind_r (bhl_init (block_hashes r) (hash_block_size p) bs) (\<lambda>l.
              Inr (bhl_slice_from l nc, \<lambda>i. Inr (bhl_get_value_at l i)))) = Inr (?hs, ha)"
  proof (cases "bs = hash_block_size p")
    case True
    have "\<exists>h. nth_r (block_hashes r) k = Inr h" if "0 \<le> k" "k < nf" for k
      using that nc(4) nth_r_nat[of "nat k" "block_hashes r"] by auto
    with True hs(1) nc(1) that show ?thesis by (auto simp: group_hashes_def)
  next
    case False
    with hs(1) obtain l where l: "bhl_init (block_hashes r) (hash_block_size p) bs = Inr l" "hs = bhl_iter l"
      by (auto simp: group_hashes_def result_simps)
    show ?thesis
      by (rule that[of "\<lambda>i. Inr (bhl_get_value_at l i)"]) (use False l nc(1) in \<open>simp_all add: bhl_slice_from_iter\<close>)
  qed
  let ?res = "\<lambda>r' p'. cache_full_blocks u sha r blocks nc nf bs gid p = Inr (r', p')"
  show ?thesis
  proof (cases "enable_kv_cache_events p1")
    case False
    then have "?res (r\<lparr>embeds_hashes := embeds_hashes r\<rparr>) p1"
      using nc view p1(1) by (simp add: cache_full_blocks_def Let_def assert_r_def del: slice_nonneg)
    with p1 show ?thesis by blast
  next
    case True
    obtain parent where parent: "(if nc = 0 then Inr None
                  else map_r (\<lambda>h. Some (maybe_convert_block_hash u h)) (ha (nc - 1))) = Inr parent"
      using ha[of "nc - 1"] nc by (cases "nc = 0") auto
    have "\<forall>i\<in>set [nc..nf - 1]. 0 \<le> i \<and> i < int (length blocks)" using nc by auto
    from event_extra_keys_total[OF this order_refl, of sha bs p1 "[]" r] obtain ks mm c where
      ks: "fold_r (event_extra_keys_step sha blocks bs p1) [nc..nf - 1] ([], 0, r) = Inr (ks, mm, r\<lparr>embeds_hashes := c\<rparr>)"
      by blast
    obtain ev where "?res (r\<lparr>embeds_hashes := c\<rparr>) (p1\<lparr>kv_event_queue := ev\<rparr>)"
      using nc view p1(1) True parent ks by (simp add: cache_full_blocks_def Let_def assert_r_def del: slice_nonneg)
    moreover have "pool_inv (p1\<lparr>kv_event_queue := ev\<rparr>) xs" "pool_static p (p1\<lparr>kv_event_queue := ev\<rparr>)"
      using p1(2,3) by (simp_all add: pool_core_def pool_static_def usable_def)
    ultimately show ?thesis using p1(4,5) by auto
  qed
qed

subsection \<open>Construction, lookup, explicit eviction, reset\<close>

lemma new_block_fields [simp]:
  "block_id (new_block i) = i" "ref_cnt (new_block i) = 0" "block_hash (new_block i) = None"
  "is_null (new_block i) = False" "prev_free_block (new_block i) = None" "next_free_block (new_block i) = None"
  by (simp_all add: new_block_def)

lemma block_pool_init_spec:
  assumes "0 < num"
  shows "\<exists>p. block_pool_init num caching hbs events metrics = Inr p \<and> pool_inv p (map Block [1..<nat num])
    \<and> num_gpu_blocks p = num \<and> enable_caching p = caching \<and> hash_block_size p = hbs
    \<and> (\<forall>i. int i < num \<longrightarrow> refs p (Block i) = 0 \<and> hash_of p (Block i) = None)"
proof -
  let ?h = "\<lambda>r. case r of Block i \<Rightarrow> new_block (int i) | _ \<Rightarrow> new_block (-1)"
  let ?bs = "map Block [0..<nat num]" and ?q = "free_queue_init (map Block [0..<nat num]) (\<lambda>r. case r of Block i \<Rightarrow> new_block (int i) | _ \<Rightarrow> new_block (-1))"
  have "distinct ?bs" by (simp add: distinct_map inj_on_def)
  moreover have "\<forall>b\<in>set ?bs. real_block b" by (auto simp: real_block_def)
  moreover have "prev_free_block (?h b) = None \<and> next_free_block (?h b) = None" for b
    by (cases b) simp_all
  ultimately have Q: "queue_inv ?q ?bs"
    and F: "real_block b \<Longrightarrow> block_id (blk ?q b) = block_id (?h b) \<and> ref_cnt (blk ?q b) = ref_cnt (?h b)
        \<and> block_hash (blk ?q b) = block_hash (?h b) \<and> is_null (blk ?q b) = is_null (?h b)" for b
    by (rule free_queue_init_spec)+
  have bs: "?bs = Block 0 # map Block [1..<nat num]" using assms by (simp add: upt_conv_Cons)
  obtain q where q: "popleft ?q = Inr (Block 0, q)" "queue_inv q (map Block [1..<nat num])" "payload_eq (blk ?q) (blk q)"
    using popleft_spec[of ?q "Block 0" "map Block [1..<nat num]"] Q unfolding bs by blast
  define h' where "h' = (blk q)(Block 0 := (blk q (Block 0))\<lparr>is_null := True\<rparr>)"
  let ?p = "\<lparr>free_block_queue = q\<lparr>blk := h'\<rparr>, num_gpu_blocks = num, enable_caching = caching, hash_block_size = hbs,
     cached_block_hash_to_block = hmap_empty, null_block = Block 0, enable_kv_cache_events = events,
     kv_event_queue = [], metrics_collector = (if metrics then Some [] else None)\<rparr>"
  have run: "block_pool_init num caching hbs events metrics = Inr ?p"
    using assms q(1) by (simp add: block_pool_init_def assert_r_def Let_def h'_def)
  have fld: "block_id (h' (Block i)) = int i" "ref_cnt (h' (Block i)) = 0" "block_hash (h' (Block i)) = None"
    "is_null (h' (Block i)) = (i = 0)" for i
    using F[of "Block i"] payload_eqD[OF q(3), of "Block i"]
    unfolding h'_def by (auto simp: real_block_def)
  have "links_eq (blk q) h'" by (simp add: links_eq_def h'_def)
  then have "queue_inv (q\<lparr>blk := h'\<rparr>) (map Block [1..<nat num])" using q(2) by (simp add: queue_inv_links_eq)
  moreover have "set (map Block [1..<nat num]) = {b. usable ?p b \<and> refs ?p b = 0}"
    using fld by (auto simp: usable_def image_iff)
  moreover have "block_hash (h' b) = None" if "usable ?p b" for b using that fld by (auto simp: usable_def)
  ultimately have "pool_inv ?p (map Block [1..<nat num])"
    unfolding pool_core_def using assms fld by (auto simp: usable_def)
  with run fld show ?thesis by auto
qed

lemma get_cached_block_spec:
  assumes inv: "pool_inv p xs" and "\<forall>g\<in>set gs. \<exists>k. make_block_hash_with_group_id bh g = Inr k"
  shows "\<exists>r. get_cached_block bh gs p = Inr r \<and>
    (case r of
       None \<Rightarrow> \<exists>g\<in>set gs. \<forall>k b. make_block_hash_with_group_id bh g = Inr k \<longrightarrow> usable p b \<longrightarrow> hash_of p b \<noteq> Some k
     | Some bs \<Rightarrow> list_all2 (\<lambda>g b. usable p b \<and> (\<exists>k. make_block_hash_with_group_id bh g = Inr k \<and> hash_of p b = Some k)) gs bs)"
  using assms(2)
proof (induction gs)
  case (Cons g gs)
  then obtain k where k: "make_block_hash_with_group_id bh g = Inr k" by auto
  obtain o' where o': "get_one_block (cached_block_hash_to_block p) k = Inr o'"
    "case o' of None \<Rightarrow> hmap_blocks (cached_block_hash_to_block p) k = {}
      | Some b \<Rightarrow> b \<in> hmap_blocks (cached_block_hash_to_block p) k"
    using hidx.get_one_law[OF pool_coreD(6)[OF inv]] by blast
  show ?case
  proof (cases o')
    case None
    with o' k pool_coreD(7)[OF inv] show ?thesis by auto
  next
    case (Some b)
    moreover from this o' pool_coreD(7)[OF inv] have "usable p b" "hash_of p b = Some k" by auto
    moreover obtain r where "get_cached_block bh gs p = Inr r"
      "case r of None \<Rightarrow> \<exists>g\<in>set gs. \<forall>k b. make_block_hash_with_group_id bh g = Inr k \<longrightarrow> usable p b \<longrightarrow> hash_of p b \<noteq> Some k
       | Some bs \<Rightarrow> list_all2 (\<lambda>g b. usable p b \<and> (\<exists>k. make_block_hash_with_group_id bh g = Inr k \<and> hash_of p b = Some k)) gs bs"
      using Cons by auto
    ultimately show ?thesis using k o'(1) by (cases r) auto
  qed
qed simp

lemma pool_blocks_nth:
  "0 \<le> i \<Longrightarrow> i < num_gpu_blocks p \<Longrightarrow> nth_r (pool_blocks p) i = Inr (Block (nat i))"
  using nth_r_nat[of "nat i" "pool_blocks p"] by (simp add: pool_blocks_def)

lemma evict_blocks_spec:
  assumes "pool_inv p xs" and "\<forall>i\<in>set ids. 0 \<le> i \<and> i < num_gpu_blocks p"
  shows "\<exists>p'. evict_blocks u ids p = Inr p' \<and> pool_inv p' xs \<and> pool_static p p' \<and> (\<forall>c. refs p' c = refs p c)
    \<and> (\<forall>c. hash_of p' c = (if c \<in> (\<lambda>i. Block (nat i)) ` set ids then None else hash_of p c))"
  using assms unfolding evict_blocks_def
proof (induction ids arbitrary: p)
  case (Cons i ids)
  let ?b = "Block (nat i)"
  have i: "0 \<le> i" "i < num_gpu_blocks p" using Cons.prems(2) by auto
  then have b: "usable p ?b \<or> ?b = null_block p"
    using pool_coreD(3)[OF Cons.prems(1)] by (cases "nat i") (auto simp: usable_def)
  obtain r p1 where ev: "maybe_evict_cached_block u ?b p = (r, p1)" by fastforce
  note E = evict_spec[OF Cons.prems(1) b ev]
  have "evict_one u i p = Inr p1" using i ev pool_blocks_nth[of i p] by (simp add: evict_one_def assert_r_def pool_blocks_def)
  moreover obtain p' where "fold_r (evict_one u) ids p1 = Inr p'" "pool_inv p' xs" "pool_static p1 p'"
    "\<forall>c. refs p' c = refs p1 c" "\<forall>c. hash_of p' c = (if c \<in> (\<lambda>i. Block (nat i)) ` set ids then None else hash_of p1 c)"
    using Cons.IH[of p1] E Cons.prems(2) by (auto simp: pool_staticD)
  moreover from this E have "pool_static p p'" by (meson pool_static_trans)
  ultimately show ?case using E by auto
qed simp

lemma reset_hash_all:
  "block_hash (fold reset_hash bs h c) = (if c \<in> set bs then None else block_hash (h c))"
  "ref_cnt (fold reset_hash bs h c) = ref_cnt (h c)" "block_id (fold reset_hash bs h c) = block_id (h c)"
  "is_null (fold reset_hash bs h c) = is_null (h c)" "links_eq h (fold reset_hash bs h)"
  by (induction bs arbitrary: h) (auto simp: heap_simps links_eq_def reset_hash_def)

lemma reset_prefix_cache_pool_spec:
  assumes inv: "pool_inv p xs"
  shows "\<exists>p'. reset_prefix_cache_pool p = (num_gpu_blocks p = 1 + int (length xs), p') \<and> pool_inv p' xs \<and> pool_static p p'
    \<and> (\<forall>c. refs p' c = refs p c)
    \<and> (\<forall>c. usable p c \<longrightarrow> hash_of p' c = (if num_gpu_blocks p = 1 + int (length xs) then None else hash_of p c))"
proof (cases "num_gpu_blocks p = 1 + int (length xs)")
  case False
  with inv show ?thesis
    by (auto simp: reset_prefix_cache_pool_def get_num_free_blocks_def pool_core_def queue_inv_def)
next
  case True
  then have free: "num_gpu_blocks p - get_num_free_blocks p = 1"
    using pool_coreD(1)[OF inv] by (simp add: get_num_free_blocks_def queue_inv_def)
  let ?h = "fold reset_hash (pool_blocks p) (pool_store p)"
  define p' where "p' = snd (reset_prefix_cache_pool p)"
  have p': "pool_store p' = ?h" "num_free_blocks (free_block_queue p') = num_free_blocks (free_block_queue p)"
    "cached_block_hash_to_block p' = hmap_empty" "num_gpu_blocks p' = num_gpu_blocks p" "null_block p' = null_block p"
    "enable_caching p' = enable_caching p" "hash_block_size p' = hash_block_size p"
    "enable_kv_cache_events p' = enable_kv_cache_events p" "fst (reset_prefix_cache_pool p)"
    using free unfolding p'_def by (simp_all add: reset_prefix_cache_pool_def Let_def note_metrics_def pool_blocks_def)
  have mem: "c \<in> set (pool_blocks p)" if "usable p c \<or> c = Block 0" for c
    using that pool_coreD(2)[OF inv] by (auto simp: usable_def pool_blocks_def image_iff)
  have "free_block_queue p' = (free_block_queue p)\<lparr>blk := ?h\<rparr>" using p'(1,2) by simp
  then have "queue_inv (free_block_queue p') xs"
    using pool_coreD(1)[OF inv] by (simp add: queue_inv_links_eq reset_hash_all)
  moreover have "usable p' = usable p" using p' by (simp add: usable_def fun_eq_iff)
  ultimately have "pool_inv p' xs"
    using inv p' mem unfolding pool_core_def by (simp add: reset_hash_all)
  moreover have "pool_static p p'" using p' by (simp add: pool_static_def reset_hash_all)
  moreover have "reset_prefix_cache_pool p = (True, p')" using p'(9) unfolding p'_def by (simp add: prod_eq_iff)
  ultimately show ?thesis using True p'(1) mem by (auto simp: reset_hash_all)
qed

section \<open>The interface the cache managers rely on\<close>

text \<open>
  A pool that hands out, shares and takes back blocks.  \<open>holdable p b\<close>: a request may hold \<open>b\<close>; the
  null block is shared by everyone and never counted.
\<close>

locale block_allocator =
  fixes inv :: "'p \<Rightarrow> bool"
    and free_count :: "'p \<Rightarrow> int"
    and refcount :: "'p \<Rightarrow> 'b \<Rightarrow> int"
    and holdable :: "'p \<Rightarrow> 'b \<Rightarrow> bool"
    and null :: "'p \<Rightarrow> 'b"
    and alloc :: "int \<Rightarrow> 'p \<Rightarrow> ('b list \<times> 'p) result"
    and share :: "'b list \<Rightarrow> 'p \<Rightarrow> 'p result"
    and release :: "'b list \<Rightarrow> 'p \<Rightarrow> 'p result"
  assumes null_law: "inv p \<Longrightarrow> \<not> holdable p (null p)"
    and alloc_law: "inv p \<Longrightarrow> 0 \<le> n \<Longrightarrow> n \<le> free_count p \<Longrightarrow>
        \<exists>bs p'. alloc n p = Inr (bs, p') \<and> inv p' \<and> holdable p' = holdable p \<and> null p' = null p
          \<and> length bs = nat n \<and> distinct bs \<and> (\<forall>b\<in>set bs. holdable p b \<and> refcount p b = 0)
          \<and> (\<forall>b. refcount p' b = refcount p b + int (count_list bs b)) \<and> free_count p' = free_count p - n"
    and alloc_error_law: "inv p \<Longrightarrow> free_count p < n \<Longrightarrow> alloc n p = Inl ValueError"
    and share_law: "inv p \<Longrightarrow> \<forall>b\<in>set bs. holdable p b \<or> b = null p \<Longrightarrow>
        \<exists>p'. share bs p = Inr p' \<and> inv p' \<and> holdable p' = holdable p \<and> null p' = null p
          \<and> (\<forall>b. refcount p' b = refcount p b + int (count_list bs b))
          \<and> free_count p' = free_count p - int (card {b \<in> set bs. holdable p b \<and> refcount p b = 0})"
    and release_law: "inv p \<Longrightarrow> \<forall>b\<in>set bs. holdable p b \<and> 1 \<le> refcount p b \<or> b = null p \<Longrightarrow>
        distinct (filter (holdable p) bs) \<Longrightarrow>
        \<exists>p'. release bs p = Inr p' \<and> inv p' \<and> holdable p' = holdable p \<and> null p' = null p
          \<and> (\<forall>b. refcount p' b = refcount p b - int (count_list bs b))
          \<and> free_count p' = free_count p + int (card {b \<in> set bs. holdable p b \<and> refcount p b = 1})"
begin

text \<open>The ledger of a client: \<open>H\<close> collects every block of every block table.\<close>

lemma ledger_alloc:
  assumes "inv p" "0 \<le> n" "n \<le> free_count p" "\<forall>b. holdable p b \<longrightarrow> refcount p b = int (count H b)"
  shows "\<exists>bs p'. alloc n p = Inr (bs, p') \<and> inv p' \<and> holdable p' = holdable p \<and> null p' = null p
    \<and> length bs = nat n \<and> distinct bs \<and> (\<forall>b\<in>set bs. holdable p b \<and> b \<notin># H)
    \<and> (\<forall>b. holdable p' b \<longrightarrow> refcount p' b = int (count (H + mset bs) b)) \<and> free_count p' = free_count p - n"
  using alloc_law[OF assms(1-3)] assms(4) by (fastforce simp: count_mset not_in_iff)

lemma ledger_share:
  assumes "inv p" "\<forall>b\<in>set bs. holdable p b \<or> b = null p" "\<forall>b. holdable p b \<longrightarrow> refcount p b = int (count H b)"
  shows "\<exists>p'. share bs p = Inr p' \<and> inv p' \<and> holdable p' = holdable p \<and> null p' = null p
    \<and> (\<forall>b. holdable p' b \<longrightarrow> refcount p' b = int (count (H + mset bs) b))
    \<and> free_count p' = free_count p - int (card {b \<in> set bs. holdable p b \<and> b \<notin># H})"
  using share_law[OF assms(1,2)] assms(3)
  by (simp add: count_mset not_in_iff cong: conj_cong) fastforce

lemma ledger_release:
  assumes "inv p" "\<forall>b\<in>set bs. holdable p b \<or> b = null p" "distinct (filter (holdable p) bs)"
    "\<forall>b. holdable p b \<longrightarrow> refcount p b = int (count H b)" "filter_mset (holdable p) (mset bs) \<subseteq># H"
  shows "\<exists>p'. release bs p = Inr p' \<and> inv p' \<and> holdable p' = holdable p \<and> null p' = null p
    \<and> (\<forall>b. holdable p' b \<longrightarrow> refcount p' b = int (count (H - mset bs) b)) \<and> free_count p \<le> free_count p'"
proof -
  have le: "count (mset bs) b \<le> count H b" if "holdable p b" for b
    using mset_subset_eq_count[OF assms(5), of b] that by simp
  have "\<forall>b\<in>set bs. holdable p b \<and> 1 \<le> refcount p b \<or> b = null p"
  proof
    fix b assume b: "b \<in> set bs"
    have "0 < count (mset bs) b" using b by (simp only: count_greater_zero_iff set_mset_mset)
    then have "1 \<le> int (count H b)" if "holdable p b" using le[OF that] by linarith
    with assms(2,4) b show "holdable p b \<and> 1 \<le> refcount p b \<or> b = null p" by auto
  qed
  from release_law[OF assms(1) this assms(3)] obtain p' where
    "release bs p = Inr p'" "inv p'" "holdable p' = holdable p" "null p' = null p"
    "\<forall>b. refcount p' b = refcount p b - int (count_list bs b)"
    "free_count p' = free_count p + int (card {b \<in> set bs. holdable p b \<and> refcount p b = 1})" by blast
  moreover have "int (count (H - mset bs) b) = int (count H b) - int (count_list bs b)" if "holdable p b" for b
    using le[OF that] by (simp add: of_nat_diff count_mset)
  ultimately show ?thesis using assms(4) by auto
qed

end

definition pool_ok :: "BlockPool \<Rightarrow> bool" where
  "pool_ok p \<longleftrightarrow> (\<exists>xs. pool_inv p xs)"

lemma pool_free_count: "pool_inv p xs \<Longrightarrow> get_num_free_blocks p = int (length xs)"
  by (simp add: get_num_free_blocks_def pool_core_def queue_inv_def)

lemma distinct_length_card: "distinct xs \<Longrightarrow> set xs = A \<Longrightarrow> length xs = card A"
  by (metis distinct_card)

interpretation pool: block_allocator pool_ok get_num_free_blocks refs usable null_block "get_new_blocks u" touch free_blocks
  for u
proof
  fix p :: BlockPool and n bs
  show "pool_ok p \<Longrightarrow> \<not> usable p (null_block p)" by (auto simp: pool_ok_def dest: null_facts)
  show "pool_ok p \<Longrightarrow> get_num_free_blocks p < n \<Longrightarrow> get_new_blocks u n p = Inl ValueError"
    by (auto simp: pool_ok_def pool_free_count get_new_blocks_too_many)
  show "\<exists>bs p'. get_new_blocks u n p = Inr (bs, p') \<and> pool_ok p' \<and> usable p' = usable p \<and> null_block p' = null_block p
          \<and> length bs = nat n \<and> distinct bs \<and> (\<forall>b\<in>set bs. usable p b \<and> refs p b = 0)
          \<and> (\<forall>b. refs p' b = refs p b + int (count_list bs b)) \<and> get_num_free_blocks p' = get_num_free_blocks p - n"
    if ok: "pool_ok p" and n: "0 \<le> n" "n \<le> get_num_free_blocks p"
  proof -
    obtain xs where xs: "pool_inv p xs" using ok by (auto simp: pool_ok_def)
    have len: "n \<le> int (length xs)" using n pool_free_count[OF xs] by simp
    obtain p' where p': "get_new_blocks u n p = Inr (take (nat n) xs, p')" "pool_inv p' (drop (nat n) xs)" "pool_static p p'"
      "\<forall>b. refs p' b = (if b \<in> set (take (nat n) xs) then 1 else refs p b)"
      using get_new_blocks_spec[OF xs n(1) len, of u] by blast
    have dst: "distinct (take (nat n) xs)" using pool_coreD(9)[OF xs] by simp
    have zero: "\<forall>b\<in>set (take (nat n) xs). usable p b \<and> refs p b = 0"
      using pool_coreD(4)[OF xs] by (auto dest: in_set_takeD)
    moreover have "\<forall>b. refs p' b = refs p b + int (count_list (take (nat n) xs) b)"
      using p'(4) zero dst by (auto simp: count_list_0_iff distinct_count_list)
    ultimately show ?thesis
      using p' dst len n(1) pool_free_count[OF p'(2)] pool_free_count[OF xs] pool_static_usable[OF p'(3)] pool_staticD(2)[OF p'(3)]
      by (intro exI[of _ "take (nat n) xs"] exI[of _ p']) (auto simp: pool_ok_def fun_eq_iff)
  qed
  show "\<exists>p'. touch bs p = Inr p' \<and> pool_ok p' \<and> usable p' = usable p \<and> null_block p' = null_block p
          \<and> (\<forall>b. refs p' b = refs p b + int (count_list bs b))
          \<and> get_num_free_blocks p' = get_num_free_blocks p - int (card {b \<in> set bs. usable p b \<and> refs p b = 0})"
    if ok: "pool_ok p" and bs: "\<forall>b\<in>set bs. usable p b \<or> b = null_block p"
  proof -
    obtain xs where xs: "pool_inv p xs" using ok by (auto simp: pool_ok_def)
    obtain p' where p': "touch bs p = Inr p'" "pool_inv p' (filter (\<lambda>b. b \<notin> set bs) xs)" "pool_static p p'"
      "\<forall>c. refs p' c = refs p c + int (count_list bs c)" using touch_spec[OF xs bs] by blast
    have "length xs = length (filter (\<lambda>b. b \<notin> set bs) xs) + length (filter (\<lambda>b. b \<in> set bs) xs)"
      using sum_length_filter_compl[of "\<lambda>b. b \<in> set bs" xs] by simp
    moreover have "length (filter (\<lambda>b. b \<in> set bs) xs) = card {b \<in> set bs. usable p b \<and> refs p b = 0}"
      using pool_coreD(4,9)[OF xs] by (intro distinct_length_card) auto
    ultimately show ?thesis
      using p' pool_free_count[OF p'(2)] pool_free_count[OF xs] pool_static_usable[OF p'(3)] pool_staticD(2)[OF p'(3)]
      by (auto simp: pool_ok_def fun_eq_iff)
  qed
  show "\<exists>p'. free_blocks bs p = Inr p' \<and> pool_ok p' \<and> usable p' = usable p \<and> null_block p' = null_block p
          \<and> (\<forall>b. refs p' b = refs p b - int (count_list bs b))
          \<and> get_num_free_blocks p' = get_num_free_blocks p + int (card {b \<in> set bs. usable p b \<and> refs p b = 1})"
    if ok: "pool_ok p" and bs: "\<forall>b\<in>set bs. usable p b \<and> 1 \<le> refs p b \<or> b = null_block p" and dst: "distinct (filter (usable p) bs)"
  proof -
    obtain xs where xs: "pool_inv p xs" using ok by (auto simp: pool_ok_def)
    let ?ys = "filter (\<lambda>b. usable p b \<and> refs p b = 1) bs"
    obtain p' where p': "free_blocks bs p = Inr p'" "pool_inv p' (xs @ ?ys)" "pool_static p p'"
      "\<forall>c. refs p' c = refs p c - int (count_list bs c)" using free_blocks_spec[OF xs bs dst] by blast
    have "distinct ?ys" using pool_coreD(9)[OF p'(2)] by simp
    then have "length ?ys = card {b \<in> set bs. usable p b \<and> refs p b = 1}" by (intro distinct_length_card) auto
    then show ?thesis
      using p' pool_free_count[OF p'(2)] pool_free_count[OF xs] pool_static_usable[OF p'(3)] pool_staticD(2)[OF p'(3)]
      by (auto simp: pool_ok_def fun_eq_iff)
  qed
qed

section \<open>Reachable pools\<close>

definition cacheable :: "BlockPool \<Rightarrow> Request \<Rightarrow> block_ref list \<Rightarrow> int \<Rightarrow> int \<Rightarrow> int \<Rightarrow> int \<Rightarrow> bool" where
  "cacheable p r blocks nc nf bs gid \<longleftrightarrow>
     0 \<le> nc \<and> nf \<le> int (length blocks) \<and> nf \<le> int (length (block_hashes r))
     \<and> (\<exists>hs. group_hashes r (hash_block_size p) bs = Inr hs \<and> nf \<le> int (length hs))
     \<and> (\<forall>b\<in>set (slice blocks nc nf). usable p b \<and> hash_of p b = None \<or> b = null_block p)
     \<and> distinct (filter (usable p) (slice blocks nc nf)) \<and> 0 \<le> gid \<and> gid < 2 ^ 32"

text \<open>The calls of a well-behaved client.\<close>

inductive pool_step :: "BlockPool \<Rightarrow> BlockPool \<Rightarrow> bool" where
  alloc: "0 \<le> n \<Longrightarrow> get_new_blocks u n p = Inr (bs, p') \<Longrightarrow> pool_step p p'"
| share: "\<forall>b\<in>set bs. usable p b \<or> b = null_block p \<Longrightarrow> touch bs p = Inr p' \<Longrightarrow> pool_step p p'"
| release: "\<forall>b\<in>set bs. usable p b \<and> 1 \<le> refs p b \<or> b = null_block p \<Longrightarrow> distinct (filter (usable p) bs) \<Longrightarrow>
    free_blocks bs p = Inr p' \<Longrightarrow> pool_step p p'"
| cache: "cacheable p r blocks nc nf bs gid \<Longrightarrow> cache_full_blocks u sha r blocks nc nf bs gid p = Inr (r', p') \<Longrightarrow> pool_step p p'"
| evict: "\<forall>i\<in>set ids. 0 \<le> i \<and> i < num_gpu_blocks p \<Longrightarrow> evict_blocks u ids p = Inr p' \<Longrightarrow> pool_step p p'"
| reset: "reset_prefix_cache_pool p = (ok, p') \<Longrightarrow> pool_step p p'"
| events: "take_events p = (evs, p') \<Longrightarrow> pool_step p p'"

lemma cacheable_ok:
  assumes "pool_inv p xs" "cacheable p r blocks nc nf bs gid"
    and "cache_full_blocks u sha r blocks nc nf bs gid p = Inr (r', p')"
  shows "pool_inv p' xs"
proof (cases "nc < nf")
  case True
  obtain hs where "group_hashes r (hash_block_size p) bs = Inr hs" "nf \<le> int (length hs)"
    using assms(2) by (auto simp: cacheable_def)
  moreover have "to_bytes_big gid 4 = Inr (to_bytes_list 4 gid)"
    using assms(2) by (simp add: cacheable_def to_bytes_big_def)
  ultimately show ?thesis
    using cache_full_blocks_spec[OF assms(1) _ True, of blocks r bs hs gid _ u sha] assms(2,3)
    by (auto simp: cacheable_def simp del: slice_nonneg)
next
  case False
  with assms show ?thesis by (simp add: cache_full_blocks_def)
qed

lemma pool_step_ok:
  assumes "pool_step p p'" and "pool_inv p xs"
  shows "\<exists>ys. pool_inv p' ys"
  using assms
proof (induction rule: pool_step.induct)
  case (alloc n u p bs p')
  then have "n \<le> int (length xs)" using get_new_blocks_too_many[of p xs n u] by (cases "n \<le> int (length xs)") auto
  with get_new_blocks_spec[of p xs n u] alloc show ?case by auto
next
  case (share bs p p')
  then show ?case using touch_spec[of p xs bs] by auto
next
  case (release bs p p')
  then show ?case using free_blocks_spec[of p xs bs] by auto
next
  case (cache p r blocks nc nf bs gid u sha r' p')
  then show ?case using cacheable_ok by blast
next
  case (evict ids p u p')
  then show ?case using evict_blocks_spec[of p xs ids u] by auto
next
  case (reset p ok p')
  then show ?case using reset_prefix_cache_pool_spec[of p xs] by auto
next
  case (events p evs p')
  then have "pool_inv p' xs" by (auto simp: take_events_def pool_core_def usable_def split: if_splits)
  then show ?case ..
qed

lemma pool_reachable_inv:
  assumes "block_pool_init num caching hbs ev met = Inr p0" and "pool_step\<^sup>*\<^sup>* p0 p"
  shows "\<exists>xs. pool_inv p xs"
  using assms(2)
proof (induction rule: rtranclp_induct)
  case base
  have "0 < num" using assms(1) by (auto simp: block_pool_init_def result_simps assert_r_def split: if_splits)
  with block_pool_init_spec[of num caching hbs ev met] assms(1) show ?case by auto
qed (use pool_step_ok in blast)

lemma usable_card: "num_gpu_blocks p > 0 \<Longrightarrow> int (card {b. usable p b}) = num_gpu_blocks p - 1"
proof -
  assume "num_gpu_blocks p > 0"
  have "{b. usable p b} = Block ` {1..<nat (num_gpu_blocks p)}"
    by (auto simp: usable_def image_iff)
  moreover have "inj_on Block A" for A by (simp add: inj_on_def)
  ultimately show ?thesis using \<open>num_gpu_blocks p > 0\<close> by (simp add: card_image)
qed

lemma free_le_usable: "pool_inv p xs \<Longrightarrow> int (length xs) \<le> num_gpu_blocks p - 1"
proof -
  assume inv: "pool_inv p xs"
  have "finite {b. usable p b}"
    by (rule finite_subset[of _ "Block ` {..<nat (num_gpu_blocks p)}"]) (auto simp: usable_def image_iff)
  then have "card (set xs) \<le> card {b. usable p b}" using pool_coreD(4)[OF inv] by (intro card_mono) auto
  then show ?thesis
    using usable_card[OF pool_coreD(2)[OF inv]] distinct_card[OF pool_coreD(9)[OF inv]] by simp
qed

section \<open>Properties\<close>

text \<open>
  C2: In every pool reachable from its construction by calls of a well-behaved client, the free queue
  walks exactly the usable blocks without references, each once; reference counts are never
  negative; the prefix-cache index holds exactly the blocks that carry a hash, under that hash; the
  null block is in neither; and the reported usage lies between 0 and 1.
\<close>

theorem pool_reachable_consistent:
  assumes "block_pool_init num caching hbs ev met = Inr p0" and "pool_step\<^sup>*\<^sup>* p0 p"
  shows "\<exists>xs. get_all_free_blocks (free_block_queue p) = Some (Inr xs) \<and> distinct xs
    \<and> set xs = {b. usable p b \<and> refs p b = 0} \<and> get_num_free_blocks p = int (length xs)
    \<and> (\<forall>b. usable p b \<longrightarrow> refs p b \<ge> 0)
    \<and> (\<forall>key. hmap_blocks (cached_block_hash_to_block p) key = {b. usable p b \<and> hash_of p b = Some key})
    \<and> is_null (pool_store p (null_block p)) \<and> null_block p \<notin> set xs \<and> hash_of p (null_block p) = None
    \<and> 0 \<le> get_usage p \<and> get_usage p \<le> 1"
proof -
  obtain xs where xs: "pool_inv p xs" using pool_reachable_inv[OF assms] by blast
  note D = pool_coreD[OF xs]
  have "0 \<le> get_usage p \<and> get_usage p \<le> 1"
    using free_le_usable[OF xs] pool_free_count[OF xs] D(2)
    by (auto simp: get_usage_def Let_def divide_le_eq_1 zero_le_divide_iff)
  with D null_facts[OF xs] get_all_free_blocks_spec[OF D(1)] pool_free_count[OF xs] show ?thesis by auto
qed

theorem pool_reachable_consistent_witness:
  "\<exists>p0 p bs xs. block_pool_init 4 True 16 False False = Inr p0 \<and> get_new_blocks False 2 p0 = Inr (bs, p)
     \<and> get_all_free_blocks (free_block_queue p) = Some (Inr xs) \<and> distinct xs
     \<and> set xs = {b. usable p b \<and> refs p b = 0}"
proof -
  obtain p0 where p0: "block_pool_init 4 True 16 False False = Inr p0" "pool_inv p0 (map Block [1..<nat 4])"
    using block_pool_init_spec[of 4 True 16 False False] by auto
  obtain bs p where p: "get_new_blocks False 2 p0 = Inr (bs, p)"
    using get_new_blocks_spec[OF p0(2), of 2 False] by auto
  have "pool_step\<^sup>*\<^sup>* p0 p" using pool_step.alloc[OF _ p] by auto
  from pool_reachable_consistent[OF p0(1) this] p0(1) p show ?thesis by blast
qed

text \<open>
  C3: Allocation on every branch.  Asking for more blocks than are free raises ValueError.  Otherwise
  the least recently freed blocks are returned in queue order, each with one reference and, with
  caching enabled, without its old hash, which no lookup finds any more; nothing else changes.
\<close>

theorem get_new_blocks_lru:
  assumes "pool_inv p xs" and "0 \<le> n"
  shows "if int (length xs) < n then get_new_blocks u n p = Inl ValueError
    else \<exists>p'. get_new_blocks u n p = Inr (take (nat n) xs, p') \<and> pool_inv p' (drop (nat n) xs)
      \<and> (\<forall>b. refs p' b = (if b \<in> set (take (nat n) xs) then 1 else refs p b))
      \<and> (\<forall>b. hash_of p' b = (if enable_caching p \<and> b \<in> set (take (nat n) xs) then None else hash_of p b))
      \<and> (\<forall>key. hmap_blocks (cached_block_hash_to_block p') key =
            {b \<in> hmap_blocks (cached_block_hash_to_block p) key. \<not> (enable_caching p \<and> b \<in> set (take (nat n) xs))})"
proof (cases "int (length xs) < n")
  case True
  then show ?thesis using get_new_blocks_too_many[OF assms(1)] by simp
next
  case False
  then obtain p' where p': "get_new_blocks u n p = Inr (take (nat n) xs, p')" "pool_inv p' (drop (nat n) xs)" "pool_static p p'"
    "\<forall>b. refs p' b = (if b \<in> set (take (nat n) xs) then 1 else refs p b)"
    "\<forall>b. hash_of p' b = (if enable_caching p \<and> b \<in> set (take (nat n) xs) then None else hash_of p b)"
    using get_new_blocks_spec[OF assms, of u] by auto
  have "hmap_blocks (cached_block_hash_to_block p') key =
      {b \<in> hmap_blocks (cached_block_hash_to_block p) key. \<not> (enable_caching p \<and> b \<in> set (take (nat n) xs))}" for key
    using p'(5) unfolding pool_coreD(7)[OF p'(2)] pool_coreD(7)[OF assms(1)] pool_static_usable[OF p'(3)] by auto
  with p' False show ?thesis by auto
qed

theorem get_new_blocks_lru_witness:
  "\<exists>p p'. block_pool_init 4 True 16 False False = Inr p \<and> get_new_blocks False 2 p = Inr ([Block 1, Block 2], p')
     \<and> get_new_blocks False 4 p = Inl ValueError"
proof -
  obtain p where p: "block_pool_init 4 True 16 False False = Inr p" "pool_inv p [Block 1, Block 2, Block 3]"
    using block_pool_init_spec[of 4 True 16 False False] by (auto simp: upt_rec eval_nat_numeral)
  from get_new_blocks_lru[OF p(2), of 2 False] get_new_blocks_lru[OF p(2), of 4 False] p(1) show ?thesis
    by (auto simp: numeral_2_eq_2)
qed

end
