(* ===== verification/Heapq.thy ===== *)
theory Heapq
  imports Prelude "HOL-Library.Multiset"
begin

text \<open>
  The standard library module \<open>heapq\<close> as the priority queue uses it: \<open>heappush\<close>, \<open>heappop\<close> and
  \<open>heapify\<close>, with the two sift loops working on a list and a hole.  The comparison \<open>__lt__\<close> of the
  elements is an argument.  The lemmas show the heap order and the multiset of elements, for a
  comparison that comes from a linear key.
\<close>

section \<open>The module\<close>

function siftdown :: "('a \<Rightarrow> 'a \<Rightarrow> bool) \<Rightarrow> nat \<Rightarrow> 'a \<Rightarrow> nat \<Rightarrow> 'a list \<Rightarrow> 'a list" where
  "siftdown lt startpos newitem pos heap =
     (if pos > startpos \<and> lt newitem (heap ! ((pos - 1) div 2))
      then siftdown lt startpos newitem ((pos - 1) div 2) (heap[pos := heap ! ((pos - 1) div 2)])
      else heap[pos := newitem])"
  by pat_completeness auto
termination
  by (relation "measure (\<lambda>(_, _, _, pos, _). pos)") auto

function siftup_hole :: "('a \<Rightarrow> 'a \<Rightarrow> bool) \<Rightarrow> nat \<Rightarrow> 'a list \<Rightarrow> nat \<times> 'a list" where
  "siftup_hole lt pos heap =
     (let childpos = 2 * pos + 1; rightpos = childpos + 1 in
      if childpos < length heap
      then let childpos = (if rightpos < length heap \<and> \<not> lt (heap ! childpos) (heap ! rightpos) then rightpos else childpos)
           in siftup_hole lt childpos (heap[pos := heap ! childpos])
      else (pos, heap))"
  by pat_completeness auto
termination
  by (relation "measure (\<lambda>(_, pos, heap). length heap - pos)") auto

declare siftdown.simps [simp del] siftup_hole.simps [simp del]

definition siftup :: "('a \<Rightarrow> 'a \<Rightarrow> bool) \<Rightarrow> nat \<Rightarrow> 'a list \<Rightarrow> 'a list" where
  "siftup lt pos heap = (let (leaf, h) = siftup_hole lt pos heap in siftdown lt pos (heap ! pos) leaf h)"

definition heappush :: "('a \<Rightarrow> 'a \<Rightarrow> bool) \<Rightarrow> 'a \<Rightarrow> 'a list \<Rightarrow> 'a list" where
  "heappush lt item heap = siftdown lt 0 item (length heap) (heap @ [item])"

definition heappop :: "('a \<Rightarrow> 'a \<Rightarrow> bool) \<Rightarrow> 'a list \<Rightarrow> ('a \<times> 'a list) result" where
  "heappop lt heap =
     (if heap = [] then Inl IndexError
      else let lastelt = last heap; rest = butlast heap in
        if rest \<noteq> [] then Inr (hd rest, siftup lt 0 (rest[0 := lastelt])) else Inr (lastelt, []))"

definition heapify :: "('a \<Rightarrow> 'a \<Rightarrow> bool) \<Rightarrow> 'a list \<Rightarrow> 'a list" where
  "heapify lt x = fold (siftup lt) (rev [0..<length x div 2]) x"

section \<open>Heap order\<close>

definition par :: "nat \<Rightarrow> nat" where
  "par i = (i - 1) div 2"

lemma par_less: "0 < i \<Longrightarrow> par i < i"
  by (auto simp: par_def)

lemma par_iff: "0 < i \<Longrightarrow> par i = p \<longleftrightarrow> i = 2 * p + 1 \<or> i = 2 * p + 2"
  by (auto simp: par_def)

text \<open>\<open>pos\<close> lies in the subtree below \<open>s\<close>.\<close>

inductive below :: "nat \<Rightarrow> nat \<Rightarrow> bool" where
  below_self: "below s s"
| below_child: "0 < i \<Longrightarrow> below s (par i) \<Longrightarrow> below s i"

lemma below_le: "below s i \<Longrightarrow> s \<le> i"
  by (induction rule: below.induct) (auto dest: par_less)

lemma below_par: "below s i \<Longrightarrow> s < i \<Longrightarrow> below s (par i)"
  by (cases rule: below.cases) auto

lemma below_zero: "below 0 i"
proof (induction i rule: less_induct)
  case (less i) then show ?case by (cases "i = 0") (auto intro: below.intros par_less)
qed

definition heap_from :: "('a \<Rightarrow> 'k :: linorder) \<Rightarrow> nat \<Rightarrow> 'a list \<Rightarrow> bool" where
  "heap_from key s h \<longleftrightarrow> (\<forall>i < length h. 0 < i \<longrightarrow> s \<le> par i \<longrightarrow> key (h ! par i) \<le> key (h ! i))"

text \<open>The order holds at every edge away from the hole \<open>p\<close>, and across it.\<close>

definition holed :: "('a \<Rightarrow> 'k :: linorder) \<Rightarrow> nat \<Rightarrow> nat \<Rightarrow> 'a list \<Rightarrow> bool" where
  "holed key s p h \<longleftrightarrow> p < length h \<and> below s p \<and>
     (\<forall>i < length h. 0 < i \<longrightarrow> s \<le> par i \<longrightarrow> i \<noteq> p \<longrightarrow> par i \<noteq> p \<longrightarrow> key (h ! par i) \<le> key (h ! i)) \<and>
     (\<forall>i < length h. 0 < i \<longrightarrow> par i = p \<longrightarrow> s < p \<longrightarrow> key (h ! par p) \<le> key (h ! i))"

lemma holed_fill:
  assumes "holed key s p h" and "\<forall>i < length h. 0 < i \<longrightarrow> par i = p \<longrightarrow> key x \<le> key (h ! i)"
    and "s < p \<Longrightarrow> key (h ! par p) \<le> key x"
  shows "heap_from key s (h[p := x])"
  unfolding heap_from_def
proof (intro allI impI)
  fix i assume i: "i < length (h[p := x])" "0 < i" "s \<le> par i"
  have "par i < i" using par_less[OF i(2)] .
  then show "key (h[p := x] ! par i) \<le> key (h[p := x] ! i)"
    using assms i unfolding holed_def by (cases "i = p"; cases "par i = p") (auto simp: nth_list_update)
qed

text \<open>Moving the parent of the hole down into it.\<close>

lemma holed_up:
  assumes h: "holed key s p h" and p: "s < p" and q: "q = par p"
  shows "holed key s q (h[p := h ! q])"
    and "key x \<le> key (h ! q) \<Longrightarrow> i < length h \<Longrightarrow> 0 < i \<Longrightarrow> par i = q \<Longrightarrow> key x \<le> key (h[p := h ! q] ! i)"
proof -
  have b: "p < length h" "below s p" using h by (auto simp: holed_def)
  have e: "key (h ! par i) \<le> key (h ! i)" if "i < length h" "0 < i" "s \<le> par i" "i \<noteq> p" "par i \<noteq> p" for i
    using h that by (auto simp: holed_def)
  have g: "key (h ! q) \<le> key (h ! i)" if "i < length h" "0 < i" "par i = p" for i
    using h that p q by (auto simp: holed_def)
  have sq: "below s q" using below_par[OF b(2) p] q by simp
  have qp: "q < p" "s \<le> q" "q < length h" using par_less[of p] p q below_le[OF sq] b by linarith+
  have up: "key (h ! par q) \<le> key (h ! q)" "par q < q" if "s < q"
  proof -
    show "par q < q" using par_less[of q] that by linarith
    then show "key (h ! par q) \<le> key (h ! q)" using below_le[OF below_par[OF sq that]] that qp by (intro e) linarith+
  qed
  have sib: "key (h ! q) \<le> key (h[p := h ! q] ! i)" if "i < length h" "0 < i" "par i = q" for i
    using e[of i] that qp by (cases "i = p") simp_all
  show "holed key s q (h[p := h ! q])"
    unfolding holed_def length_list_update
  proof (intro conjI allI impI)
    fix i assume i: "i < length h" "0 < i" "s \<le> par i" "i \<noteq> q" "par i \<noteq> q"
    then have "i \<noteq> p" using q by blast
    then show "key (h[p := h ! q] ! par i) \<le> key (h[p := h ! q] ! i)"
      using e[OF i(1-3)] g[OF i(1,2)] b by (cases "par i = p") simp_all
  next
    fix i assume i: "i < length h" "0 < i" "par i = q" "s < q"
    show "key (h[p := h ! q] ! par q) \<le> key (h[p := h ! q] ! i)"
      using order_trans[OF up(1)[OF i(4)] sib[OF i(1-3)]] up(2)[OF i(4)] qp(1) by simp
  qed (use qp sq in simp_all)
  assume "key x \<le> key (h ! q)" "i < length h" "0 < i" "par i = q"
  then show "key x \<le> key (h[p := h ! q] ! i)" using sib[of i] by (simp add: order_trans)
qed

text \<open>Moving the smaller child of the hole up into it.\<close>

lemma holed_down:
  assumes h: "holed key s p h" and c: "c < length h" "0 < c" "par c = p"
    and least: "\<And>i. i < length h \<Longrightarrow> 0 < i \<Longrightarrow> par i = p \<Longrightarrow> key (h ! c) \<le> key (h ! i)"
  shows "holed key s c (h[p := h ! c])"
proof -
  have b: "p < length h" "below s p" "p < c" using h c par_less[of c] by (auto simp: holed_def)
  have e: "key (h ! par i) \<le> key (h ! i)" if "i < length h" "0 < i" "s \<le> par i" "i \<noteq> p" "par i \<noteq> p" for i
    using h that by (auto simp: holed_def)
  have g: "key (h ! par p) \<le> key (h ! c)" if "s < p" using h that c by (auto simp: holed_def)
  show ?thesis
    unfolding holed_def
  proof (intro conjI allI impI)
    show "c < length (h[p := h ! c])" using c by simp
    show "below s c" using below_child[of c s] c b by simp
  next
    fix i assume i: "i < length (h[p := h ! c])" "0 < i" "s \<le> par i" "i \<noteq> c" "par i \<noteq> c"
    have "s < p" if "i = p" using i that par_less[OF i(2)] by auto
    then show "key (h[p := h ! c] ! par i) \<le> key (h[p := h ! c] ! i)"
      using e[of i] g least[of i] i b par_less[OF i(2)] by (cases "i = p"; cases "par i = p") (auto simp: nth_list_update)
  next
    fix i assume i: "i < length (h[p := h ! c])" "0 < i" "par i = c"
    then show "key (h[p := h ! c] ! par c) \<le> key (h[p := h ! c] ! i)"
      using e[of i] below_le[OF b(2)] b c par_less[OF i(2)] by auto
  qed
qed

lemma siftdown_par:
  "siftdown lt s x p h =
     (if p > s \<and> lt x (h ! par p) then siftdown lt s x (par p) (h[p := h ! par p]) else h[p := x])"
  by (subst siftdown.simps) (simp add: par_def)

section \<open>The module keeps the order and the elements\<close>

locale keyed_order =
  fixes lt :: "'a \<Rightarrow> 'a \<Rightarrow> bool" and key :: "'a \<Rightarrow> 'k :: linorder"
  assumes lt_key: "lt x y \<longleftrightarrow> key x < key y"
begin

lemma siftdown_heap:
  "holed key s p h \<Longrightarrow> (\<forall>i < length h. 0 < i \<longrightarrow> par i = p \<longrightarrow> key x \<le> key (h ! i)) \<Longrightarrow>
     heap_from key s (siftdown lt s x p h)"
proof (induction p arbitrary: h rule: less_induct)
  case (less p)
  show ?case
  proof (cases "s < p \<and> lt x (h ! par p)")
    case True
    then have "key x \<le> key (h ! par p)" by (simp add: lt_key less_imp_le)
    then show ?thesis
      using less.IH[OF par_less holed_up(1)[OF less.prems(1)]] holed_up(2)[OF less.prems(1)] True
      by (subst siftdown_par) simp
  next
    case False
    then have "s < p \<Longrightarrow> key (h ! par p) \<le> key x" by (auto simp: lt_key not_less)
    then show ?thesis using holed_fill[OF less.prems] False
      by (subst siftdown_par) auto
  qed
qed

lemma mset_move: "p < length h \<Longrightarrow> c < length h \<Longrightarrow> c \<noteq> p \<Longrightarrow> mset (h[p := h ! c, c := x]) = mset (h[p := x])"
  using mset_swap[of c "h[p := x]" p] by (simp add: list_update_swap)

lemma mset_siftdown: "p < length h \<Longrightarrow> mset (siftdown lt s x p h) = mset (h[p := x])"
proof (induction p arbitrary: h rule: less_induct)
  case (less p)
  show ?case
  proof (cases "s < p \<and> lt x (h ! par p)")
    case True
    then have q: "par p < p" by (simp add: par_less)
    then have "mset (siftdown lt s x p h) = mset (h[p := h ! par p, par p := x])"
      using less.IH[OF q, of "h[p := h ! par p]"] less.prems True
      by (subst siftdown_par) simp
    then show ?thesis using mset_move[OF less.prems, of "par p" x] q less.prems by simp
  qed (subst siftdown_par, auto)
qed

lemma siftup_hole_leaf:
  assumes "holed key s p h" "siftup_hole lt p h = (leaf, h')"
  shows "holed key s leaf h' \<and> (\<forall>i < length h'. 0 < i \<longrightarrow> par i \<noteq> leaf) \<and> mset (h'[leaf := x]) = mset (h[p := x])"
  using assms
proof (induction "length h - p" arbitrary: p h rule: less_induct)
  case less
  have p: "p < length h" using less.prems(1) by (simp add: holed_def)
  show ?case
  proof (cases "2 * p + 1 < length h")
    case True
    define c where "c = (if 2 * p + 2 < length h \<and> \<not> lt (h ! (2 * p + 1)) (h ! (2 * p + 2)) then 2 * p + 2 else 2 * p + 1)"
    have c: "c < length h" "0 < c" "par c = p" "p < c" using True by (auto simp: c_def par_iff)
    have "key (h ! c) \<le> key (h ! i)" if "i < length h" "0 < i" "par i = p" for i
      using that by (auto simp: c_def par_iff lt_key)
    from holed_down[OF less.prems(1) c(1-3) this] have "holed key s c (h[p := h ! c])" .
    moreover have "siftup_hole lt c (h[p := h ! c]) = (leaf, h')"
      using less.prems(2) True by (subst (asm) siftup_hole.simps) (auto simp: Let_def c_def split: if_splits)
    ultimately show ?thesis using less.hyps[of "h[p := h ! c]" c] c p mset_move[of p h c x] by simp
  next
    case False
    then have "leaf = p" "h' = h" using less.prems(2) by (subst (asm) siftup_hole.simps, simp)+
    then show ?thesis using less.prems(1) False by (auto simp: par_iff)
  qed
qed

lemma siftup_correct:
  assumes "p < length h" "heap_from key (Suc p) h"
  shows "heap_from key p (siftup lt p h) \<and> mset (siftup lt p h) = mset h"
proof -
  obtain leaf h' where l: "siftup_hole lt p h = (leaf, h')" by fastforce
  have "holed key p p h" using assms by (auto simp: holed_def heap_from_def intro: below_self)
  note leaf = siftup_hole_leaf[OF this l, of "h ! p"]
  then have "leaf < length h'" by (simp add: holed_def)
  with leaf show ?thesis
    using siftdown_heap[of p leaf h' "h ! p"] mset_siftdown[of leaf h' p "h ! p"] by (auto simp: siftup_def l)
qed

lemma heappush_correct:
  assumes "heap_from key 0 h"
  shows "heap_from key 0 (heappush lt x h) \<and> mset (heappush lt x h) = add_mset x (mset h)"
proof -
  have leaf: "par i \<noteq> length h" if "i < length (h @ [x])" "0 < i" for i using par_less[OF that(2)] that by auto
  have "holed key 0 (length h) (h @ [x])"
    unfolding holed_def
  proof (intro conjI allI impI)
    fix i assume i: "i < length (h @ [x])" "0 < i" "i \<noteq> length h"
    then have "i < length h" "par i < length h" using par_less[OF i(2)] by simp_all
    then show "key ((h @ [x]) ! par i) \<le> key ((h @ [x]) ! i)" using assms i(2) by (simp add: nth_append heap_from_def)
  qed (use leaf in \<open>auto simp: below_zero\<close>)
  then show ?thesis
    using siftdown_heap[of 0 "length h" "h @ [x]" x] mset_siftdown[of "length h" "h @ [x]" 0 x] leaf by (simp add: heappush_def)
qed

lemma heap_root_least: "heap_from key 0 h \<Longrightarrow> i < length h \<Longrightarrow> key (h ! 0) \<le> key (h ! i)"
proof (induction i rule: less_induct)
  case (less i)
  then show ?case using par_less[of i] by (cases "i = 0") (auto simp: heap_from_def intro: order_trans)
qed

lemma heapify_correct: "heap_from key 0 (heapify lt h) \<and> mset (heapify lt h) = mset h"
proof -
  have "n \<le> length g div 2 \<Longrightarrow> heap_from key n g \<Longrightarrow>
      heap_from key 0 (fold (siftup lt) (rev [0..<n]) g) \<and> mset (fold (siftup lt) (rev [0..<n]) g) = mset g" for n g
  proof (induction n arbitrary: g)
    case (Suc n)
    then have "heap_from key n (siftup lt n g)" "mset (siftup lt n g) = mset g" using siftup_correct[of n g] by auto
    moreover from this(2) have "length (siftup lt n g) = length g" by (metis size_mset)
    ultimately show ?case using Suc.IH[of "siftup lt n g"] Suc.prems by simp
  qed simp
  moreover have "heap_from key (length h div 2) h" by (auto simp: heap_from_def par_def)
  ultimately show ?thesis by (simp add: heapify_def)
qed

lemma heappop_correct:
  assumes "heap_from key 0 h" "h \<noteq> []"
  shows "\<exists>h'. heappop lt h = Inr (h ! 0, h') \<and> heap_from key 0 h' \<and> mset h = add_mset (h ! 0) (mset h')"
proof (cases "butlast h")
  case Nil
  then have "h = [last h]" using append_butlast_last_id[OF assms(2)] by simp
  then show ?thesis using Nil assms(2) by (simp add: heappop_def Let_def heap_from_def) (metis nth_Cons_0 mset.simps)
next
  case (Cons a rest)
  then have h: "h = a # rest @ [last h]" using append_butlast_last_id[OF assms(2)] by simp
  let ?g = "last h # rest"
  have "heap_from key (Suc 0) ?g" unfolding heap_from_def
  proof (intro allI impI)
    fix i assume i: "i < length ?g" "0 < i" "Suc 0 \<le> par i"
    then have "h ! i = ?g ! i" "h ! par i = ?g ! par i"
      using par_less[OF i(2)] by (subst h, auto simp: nth_Cons nth_append split: nat.splits)+
    moreover have "length h = Suc (length ?g)" by (subst h) simp
    ultimately show "key (?g ! par i) \<le> key (?g ! i)" using assms(1) i unfolding heap_from_def by (metis le0 less_SucI)
  qed
  then have g: "heap_from key 0 (siftup lt 0 ?g)" "mset (siftup lt 0 ?g) = mset ?g" using siftup_correct[of 0 ?g] by simp_all
  have "h ! 0 = a" by (subst h) simp
  moreover have "mset h = add_mset a (mset ?g)" by (subst h) simp
  moreover have "heappop lt h = Inr (a, siftup lt 0 ?g)" using assms(2) Cons by (simp add: heappop_def Let_def)
  ultimately show ?thesis using g by simp
qed

end

end
