(* ===== verification/Request_Queue.thy ===== *)
theory Request_Queue
  imports Requests Heapq
begin

text \<open>
  The waiting queues of \<open>vllm/v1/core/sched/request_queue.py\<close>: the deque-based first-come-first-served
  queue, the heap-based priority queue and the choice between them.  Requests are objects: membership
  and removal go by identity (\<open>obj_id\<close>), the heap by \<open>Request.__lt__\<close>.

  The priority queue is shown to behave as a list sorted by priority, arrival time, id and identity;
  both queues satisfy the interface the scheduler relies on.
\<close>

section \<open>The queues\<close>

datatype SchedulingPolicy = FCFS | PRIORITY

datatype RequestQueue = FCFSRequestQueue "Request list" | PriorityRequestQueue "Request list"

definition same_object :: "Request \<Rightarrow> Request \<Rightarrow> bool" where
  "same_object r s \<longleftrightarrow> obj_id r = obj_id s"

text \<open>\<open>remove\<close> of a list or deque: the first occurrence, ValueError when there is none.\<close>

fun remove_object :: "Request \<Rightarrow> Request list \<Rightarrow> Request list result" where
  "remove_object r [] = Inl ValueError"
| "remove_object r (x # xs) = (if same_object x r then Inr xs else map_r (\<lambda>ys. x # ys) (remove_object r xs))"

definition drop_objects :: "Request list \<Rightarrow> Request list \<Rightarrow> Request list" where
  "drop_objects requests q = filter (\<lambda>req. \<not> list_ex (same_object req) requests) q"

text \<open>\<open>FCFSRequestQueue\<close>.\<close>

definition fcfs_add_request :: "Request \<Rightarrow> Request list \<Rightarrow> Request list" where
  "fcfs_add_request request q = q @ [request]"

definition fcfs_pop_request :: "Request list \<Rightarrow> (Request \<times> Request list) result" where
  "fcfs_pop_request q = (case q of [] \<Rightarrow> Inl IndexError | r # q' \<Rightarrow> Inr (r, q'))"

definition fcfs_peek_request :: "Request list \<Rightarrow> Request result" where
  "fcfs_peek_request q = (if q = [] then Inl IndexError else Inr (q ! 0))"

definition fcfs_prepend_request :: "Request \<Rightarrow> Request list \<Rightarrow> Request list" where
  "fcfs_prepend_request request q = request # q"

definition fcfs_prepend_requests :: "Request list \<Rightarrow> Request list \<Rightarrow> Request list" where
  "fcfs_prepend_requests requests q = fold (\<lambda>r q. r # q) requests q"

definition fcfs_remove_request :: "Request \<Rightarrow> Request list \<Rightarrow> Request list result" where
  "fcfs_remove_request request q = remove_object request q"

definition fcfs_remove_requests :: "Request list \<Rightarrow> Request list \<Rightarrow> Request list" where
  "fcfs_remove_requests requests q = drop_objects requests q"

text \<open>\<open>PriorityRequestQueue\<close>.\<close>

definition prio_add_request :: "Request \<Rightarrow> Request list \<Rightarrow> Request list" where
  "prio_add_request request heap = heappush request_lt request heap"

definition prio_pop_request :: "Request list \<Rightarrow> (Request \<times> Request list) result" where
  "prio_pop_request heap = (if heap = [] then Inl IndexError else heappop request_lt heap)"

definition prio_peek_request :: "Request list \<Rightarrow> Request result" where
  "prio_peek_request heap = (if heap = [] then Inl IndexError else Inr (heap ! 0))"

definition prio_prepend_request :: "Request \<Rightarrow> Request list \<Rightarrow> Request list" where
  "prio_prepend_request request heap = prio_add_request request heap"

definition prio_prepend_requests :: "Request list \<Rightarrow> Request list \<Rightarrow> Request list" where
  "prio_prepend_requests requests heap = fold prio_add_request requests heap"

definition prio_remove_request :: "Request \<Rightarrow> Request list \<Rightarrow> Request list result" where
  "prio_remove_request request heap = map_r (heapify request_lt) (remove_object request heap)"

definition prio_remove_requests :: "Request list \<Rightarrow> Request list \<Rightarrow> Request list" where
  "prio_remove_requests requests heap = heapify request_lt (drop_objects requests heap)"

text \<open>\<open>__iter__\<close> pops from a copy until it is empty; the fuel is the number of elements.\<close>

fun prio_drain :: "nat \<Rightarrow> Request list \<Rightarrow> Request list" where
  "prio_drain 0 heap_copy = []"
| "prio_drain (Suc n) heap_copy =
     (case heappop request_lt heap_copy of Inl _ \<Rightarrow> [] | Inr (r, h) \<Rightarrow> r # prio_drain n h)"

definition prio_iter :: "Request list \<Rightarrow> Request list" where
  "prio_iter heap = prio_drain (length heap) heap"

text \<open>The interface \<open>RequestQueue\<close>.\<close>

fun add_request :: "Request \<Rightarrow> RequestQueue \<Rightarrow> RequestQueue" where
  "add_request r (FCFSRequestQueue q) = FCFSRequestQueue (fcfs_add_request r q)"
| "add_request r (PriorityRequestQueue h) = PriorityRequestQueue (prio_add_request r h)"

fun pop_request :: "RequestQueue \<Rightarrow> (Request \<times> RequestQueue) result" where
  "pop_request (FCFSRequestQueue q) = map_r (\<lambda>(r, q'). (r, FCFSRequestQueue q')) (fcfs_pop_request q)"
| "pop_request (PriorityRequestQueue h) = map_r (\<lambda>(r, h'). (r, PriorityRequestQueue h')) (prio_pop_request h)"

fun peek_request :: "RequestQueue \<Rightarrow> Request result" where
  "peek_request (FCFSRequestQueue q) = fcfs_peek_request q"
| "peek_request (PriorityRequestQueue h) = prio_peek_request h"

fun prepend_request :: "Request \<Rightarrow> RequestQueue \<Rightarrow> RequestQueue" where
  "prepend_request r (FCFSRequestQueue q) = FCFSRequestQueue (fcfs_prepend_request r q)"
| "prepend_request r (PriorityRequestQueue h) = PriorityRequestQueue (prio_prepend_request r h)"

fun queue_iter :: "RequestQueue \<Rightarrow> Request list" where
  "queue_iter (FCFSRequestQueue q) = q"
| "queue_iter (PriorityRequestQueue h) = prio_iter h"

fun prepend_requests :: "RequestQueue \<Rightarrow> RequestQueue \<Rightarrow> RequestQueue" where
  "prepend_requests rs (FCFSRequestQueue q) = FCFSRequestQueue (fcfs_prepend_requests (queue_iter rs) q)"
| "prepend_requests rs (PriorityRequestQueue h) = PriorityRequestQueue (prio_prepend_requests (queue_iter rs) h)"

fun remove_request :: "Request \<Rightarrow> RequestQueue \<Rightarrow> RequestQueue result" where
  "remove_request r (FCFSRequestQueue q) = map_r FCFSRequestQueue (fcfs_remove_request r q)"
| "remove_request r (PriorityRequestQueue h) = map_r PriorityRequestQueue (prio_remove_request r h)"

fun remove_requests :: "Request list \<Rightarrow> RequestQueue \<Rightarrow> RequestQueue" where
  "remove_requests rs (FCFSRequestQueue q) = FCFSRequestQueue (fcfs_remove_requests rs q)"
| "remove_requests rs (PriorityRequestQueue h) = PriorityRequestQueue (prio_remove_requests rs h)"

fun queue_len :: "RequestQueue \<Rightarrow> nat" where
  "queue_len (FCFSRequestQueue q) = length q"
| "queue_len (PriorityRequestQueue h) = length h"

fun queue_bool :: "RequestQueue \<Rightarrow> bool" where
  "queue_bool (FCFSRequestQueue q) = (length q > 0)"
| "queue_bool (PriorityRequestQueue h) = (h \<noteq> [])"

definition create_request_queue :: "SchedulingPolicy \<Rightarrow> RequestQueue" where
  "create_request_queue policy = (if policy = PRIORITY then PriorityRequestQueue [] else FCFSRequestQueue [])"

section \<open>The heap of requests\<close>

interpretation rh: keyed_order request_lt request_key
  by unfold_locales (rule request_lt_key)

text \<open>A heap and the sorted list it stands for.\<close>

definition sorted_view :: "Request list \<Rightarrow> Request list \<Rightarrow> bool" where
  "sorted_view h l \<longleftrightarrow> heap_from request_key 0 h \<and> mset l = mset h \<and> sorted (map request_key l) \<and> distinct (map obj_id l)"

lemma same_key_same_object: "request_key r = request_key s \<Longrightarrow> obj_id r = obj_id s"
  by (simp add: request_key_def)

lemma sorted_view_empty: "sorted_view [] []"
  by (simp add: sorted_view_def heap_from_def)

lemma sorted_view_cong: "sorted_view h l \<Longrightarrow> heap_from request_key 0 h' \<Longrightarrow> mset h' = mset h \<Longrightarrow> sorted_view h' l"
  by (simp add: sorted_view_def)

lemma sorted_view_add:
  assumes "sorted_view h l" "obj_id r \<notin> obj_id ` set l"
  shows "sorted_view (prio_add_request r h) (insort_key request_key r l)"
proof -
  have "mset (map obj_id (insort_key request_key r l)) = mset (map obj_id (r # l))" by simp
  then have "distinct (map obj_id (insort_key request_key r l)) = distinct (map obj_id (r # l))"
    by (rule mset_eq_imp_distinct_iff)
  then show ?thesis using assms rh.heappush_correct[of h r]
    by (simp add: sorted_view_def prio_add_request_def sorted_insort_key)
qed

lemma sorted_view_head:
  assumes "sorted_view h (x # l)"
  shows "h \<noteq> [] \<and> h ! 0 = x"
proof -
  have m: "mset h = mset (x # l)" and s: "sorted (map request_key (x # l))" and d: "distinct (map obj_id (x # l))"
    using assms by (simp_all add: sorted_view_def)
  have ne: "h \<noteq> []" using m by auto
  then have "h ! 0 \<in> set (x # l)" using m nth_mem[of 0 h] by (metis length_greater_0_conv mset_eq_setD)
  moreover obtain i where "i < length h" "h ! i = x" using m by (metis in_set_conv_nth list.set_intros(1) mset_eq_setD)
  then have "request_key (h ! 0) \<le> request_key x"
    using rh.heap_root_least[of h i] assms by (simp add: sorted_view_def)
  ultimately have "obj_id (h ! 0) = obj_id x"
    using s by (force intro!: same_key_same_object)
  then show ?thesis using ne \<open>h ! 0 \<in> set (x # l)\<close> d by (auto simp: image_iff)
qed

lemma sorted_view_pop:
  assumes "sorted_view h (x # l)"
  shows "\<exists>h'. heappop request_lt h = Inr (x, h') \<and> sorted_view h' l"
proof -
  have h: "h \<noteq> []" "h ! 0 = x" "heap_from request_key 0 h" using sorted_view_head[OF assms] assms by (auto simp: sorted_view_def)
  then obtain h' where h': "heappop request_lt h = Inr (x, h')" "heap_from request_key 0 h'" "mset h = add_mset x (mset h')"
    using rh.heappop_correct[of h] by auto
  then have "sorted_view h' l" using assms by (simp add: sorted_view_def)
  with h' show ?thesis by blast
qed

lemma length_sorted_view: "sorted_view h l \<Longrightarrow> length h = length l"
  by (metis sorted_view_def size_mset)

lemma prio_iter_sorted: "sorted_view h l \<Longrightarrow> prio_iter h = l"
proof -
  have "sorted_view h l \<Longrightarrow> prio_drain (length l) h = l"
  proof (induction l arbitrary: h)
    case (Cons x l) then show ?case using sorted_view_pop[OF Cons.prems] by auto
  qed simp
  then show "sorted_view h l \<Longrightarrow> prio_iter h = l" by (simp add: prio_iter_def length_sorted_view)
qed

lemma remove_object_spec:
  "distinct (map obj_id h) \<Longrightarrow>
     remove_object r h = (if obj_id r \<in> obj_id ` set h then Inr (filter (\<lambda>x. \<not> same_object x r) h) else Inl ValueError)"
proof (induction h)
  case (Cons x h)
  show ?case
  proof (cases "same_object x r")
    case True
    then have "\<forall>y\<in>set h. \<not> same_object y r" using Cons.prems
      by (auto simp: same_object_def) (metis image_eqI)
    then show ?thesis using True by (simp add: same_object_def filter_id_conv)
  next
    case False
    then show ?thesis using Cons by (auto simp: same_object_def)
  qed
qed simp

lemma sorted_view_filter:
  assumes "sorted_view h l"
  shows "sorted_view (heapify request_lt (filter P h)) (filter P l)"
  using assms rh.heapify_correct[of "filter P h"]
  by (simp add: sorted_view_def sorted_filter distinct_map_filter)

lemma sorted_view_remove:
  assumes "sorted_view h l"
  shows "prio_remove_request r h =
    (if obj_id r \<in> obj_id ` set l then Inr (heapify request_lt (filter (\<lambda>x. \<not> same_object x r) h)) else Inl ValueError)"
proof -
  have m: "mset l = mset h" using assms by (simp add: sorted_view_def)
  then have "distinct (map obj_id h)" using assms mset_eq_imp_distinct_iff[of "map obj_id h" "map obj_id l"]
    by (simp add: sorted_view_def)
  then show ?thesis using mset_eq_setD[OF m] by (simp add: prio_remove_request_def remove_object_spec)
qed

section \<open>The priority queue is a sorted list\<close>

datatype rq_op = Op_add Request | Op_pop | Op_peek | Op_prepend Request | Op_prepend_all RequestQueue
  | Op_remove Request | Op_remove_all "Request list" | Op_iter | Op_len

datatype rq_out = Out_none | Out_request Request | Out_list "Request list" | Out_len nat | Out_error py_error

text \<open>One call: its outcome and the queue after it.  A call that raises leaves the queue as it was.\<close>

fun rq_step :: "rq_op \<Rightarrow> RequestQueue \<Rightarrow> rq_out \<times> RequestQueue" where
  "rq_step (Op_add r) q = (Out_none, add_request r q)"
| "rq_step Op_pop q = (case pop_request q of Inl e \<Rightarrow> (Out_error e, q) | Inr (r, q') \<Rightarrow> (Out_request r, q'))"
| "rq_step Op_peek q = (case peek_request q of Inl e \<Rightarrow> (Out_error e, q) | Inr r \<Rightarrow> (Out_request r, q))"
| "rq_step (Op_prepend r) q = (Out_none, prepend_request r q)"
| "rq_step (Op_prepend_all rs) q = (Out_none, prepend_requests rs q)"
| "rq_step (Op_remove r) q = (case remove_request r q of Inl e \<Rightarrow> (Out_error e, q) | Inr q' \<Rightarrow> (Out_none, q'))"
| "rq_step (Op_remove_all rs) q = (Out_none, remove_requests rs q)"
| "rq_step Op_iter q = (Out_list (queue_iter q), q)"
| "rq_step Op_len q = (Out_len (queue_len q), q)"

fun rq_run :: "rq_op list \<Rightarrow> RequestQueue \<Rightarrow> rq_out list" where
  "rq_run [] q = []"
| "rq_run (p # ps) q = (let (out, q') = rq_step p q in out # rq_run ps q')"

text \<open>The specification: a list in order of the key.\<close>

fun sorted_step :: "rq_op \<Rightarrow> Request list \<Rightarrow> rq_out \<times> Request list" where
  "sorted_step (Op_add r) l = (Out_none, insort_key request_key r l)"
| "sorted_step Op_pop l = (case l of [] \<Rightarrow> (Out_error IndexError, l) | r # l' \<Rightarrow> (Out_request r, l'))"
| "sorted_step Op_peek l = (case l of [] \<Rightarrow> (Out_error IndexError, l) | r # l' \<Rightarrow> (Out_request r, l))"
| "sorted_step (Op_prepend r) l = (Out_none, insort_key request_key r l)"
| "sorted_step (Op_prepend_all rs) l = (Out_none, fold (insort_key request_key) (queue_iter rs) l)"
| "sorted_step (Op_remove r) l =
     (if obj_id r \<in> obj_id ` set l then (Out_none, filter (\<lambda>x. obj_id x \<noteq> obj_id r) l) else (Out_error ValueError, l))"
| "sorted_step (Op_remove_all rs) l = (Out_none, filter (\<lambda>x. obj_id x \<notin> obj_id ` set rs) l)"
| "sorted_step Op_iter l = (Out_list l, l)"
| "sorted_step Op_len l = (Out_len (length l), l)"

fun sorted_run :: "rq_op list \<Rightarrow> Request list \<Rightarrow> rq_out list" where
  "sorted_run [] l = []"
| "sorted_run (p # ps) l = (let (out, l') = sorted_step p l in out # sorted_run ps l')"

text \<open>A request object is in the queue at most once.\<close>

fun fresh_op :: "rq_op \<Rightarrow> Request list \<Rightarrow> bool" where
  "fresh_op (Op_add r) l = (obj_id r \<notin> obj_id ` set l)"
| "fresh_op (Op_prepend r) l = (obj_id r \<notin> obj_id ` set l)"
| "fresh_op (Op_prepend_all rs) l = distinct (map obj_id (queue_iter rs @ l))"
| "fresh_op _ l = True"

fun fresh_ops :: "rq_op list \<Rightarrow> Request list \<Rightarrow> bool" where
  "fresh_ops [] l = True"
| "fresh_ops (p # ps) l = (fresh_op p l \<and> fresh_ops ps (snd (sorted_step p l)))"

lemma sorted_view_prepend:
  "sorted_view h l \<Longrightarrow> distinct (map obj_id (rs @ l)) \<Longrightarrow>
     sorted_view (prio_prepend_requests rs h) (fold (insort_key request_key) rs l)"
proof (induction rs arbitrary: h l)
  case (Cons r rs)
  have "mset (map obj_id (rs @ insort_key request_key r l)) = mset (map obj_id ((r # rs) @ l))" by simp
  then have "distinct (map obj_id (rs @ insort_key request_key r l))"
    using Cons.prems(2) mset_eq_imp_distinct_iff by blast
  then show ?case using Cons.IH[OF sorted_view_add[OF Cons.prems(1)]] Cons.prems(2)
    by (simp add: prio_prepend_requests_def)
qed (simp add: prio_prepend_requests_def)

lemma drop_objects_ids: "drop_objects rs q = filter (\<lambda>x. obj_id x \<notin> obj_id ` set rs) q"
  unfolding drop_objects_def by (intro filter_cong) (auto simp: list_ex_iff same_object_def)

lemma rq_step_sorted:
  assumes "sorted_view h l" "fresh_op p l"
  obtains h' where "rq_step p (PriorityRequestQueue h) = (fst (sorted_step p l), PriorityRequestQueue h')"
    "sorted_view h' (snd (sorted_step p l))"
proof (cases p)
  case Op_pop
  show ?thesis
  proof (cases l)
    case Nil
    then have "h = []" using length_sorted_view[OF assms(1)] by simp
    then show ?thesis using that[of h] assms Op_pop Nil by (simp add: prio_pop_request_def)
  next
    case (Cons x l')
    then obtain h' where "heappop request_lt h = Inr (x, h')" "sorted_view h' l'" using sorted_view_pop assms(1) by blast
    then show ?thesis using that[of h'] sorted_view_head[of h x l'] assms(1) Op_pop Cons by (simp add: prio_pop_request_def)
  qed
next
  case Op_peek
  show ?thesis
  proof (cases l)
    case Nil
    then have "h = []" using length_sorted_view[OF assms(1)] by simp
    then show ?thesis using that[of h] assms Op_peek Nil by (simp add: prio_peek_request_def)
  next
    case (Cons x l')
    then show ?thesis using that[of h] sorted_view_head[of h x l'] assms(1) Op_peek by (simp add: prio_peek_request_def)
  qed
next
  case (Op_remove r)
  have "sorted_view (heapify request_lt (filter (\<lambda>x. \<not> same_object x r) h)) (filter (\<lambda>x. obj_id x \<noteq> obj_id r) l)"
    using sorted_view_filter[OF assms(1), of "\<lambda>x. \<not> same_object x r"] by (simp add: same_object_def)
  then show ?thesis
    using that[of "heapify request_lt (filter (\<lambda>x. \<not> same_object x r) h)"] that[of h] assms(1) Op_remove
      sorted_view_remove[OF assms(1), of r] by (cases "obj_id r \<in> obj_id ` set l") simp_all
qed (use assms that in \<open>auto simp: sorted_view_add prio_prepend_request_def sorted_view_prepend prio_remove_requests_def
      drop_objects_ids sorted_view_filter prio_iter_sorted length_sorted_view\<close>)

text \<open>C11: Any sequence of calls on a priority queue, adding each request object at most once at a time, returns and raises
  what a list sorted by priority, arrival time, request id and identity does: the request popped is
  always the least one, iteration is in order, and removal of an absent request raises ValueError.\<close>

theorem priority_queue_sorted:
  assumes "fresh_ops ps []"
  shows "rq_run ps (create_request_queue PRIORITY) = sorted_run ps []"
proof -
  have "sorted_view h l \<Longrightarrow> fresh_ops ps l \<Longrightarrow> rq_run ps (PriorityRequestQueue h) = sorted_run ps l" for h l
  proof (induction ps arbitrary: h l)
    case (Cons p ps)
    then obtain h' where "rq_step p (PriorityRequestQueue h) = (fst (sorted_step p l), PriorityRequestQueue h')"
      "sorted_view h' (snd (sorted_step p l))" using rq_step_sorted by (metis fresh_ops.simps(2))
    then show ?case using Cons by (simp add: case_prod_unfold Let_def)
  qed simp
  then show ?thesis using assms sorted_view_empty by (simp add: create_request_queue_def)
qed

definition sample_queued :: "int \<Rightarrow> int \<Rightarrow> Request" where
  "sample_queued i prio = (projr (request_init i
     \<lparr>ec_request_id = ''r'', ec_prompt_token_ids = Some [1], ec_prompt_embeds = None, ec_mm_features = None,
      ec_sampling_params = None, ec_pooling_params = Some \<lparr>pp_skip_reading_prefix_cache = None\<rparr>, ec_arrival_time = 0,
      ec_lora_request = None, ec_cache_salt = None, ec_priority = prio, ec_resumable = False\<rparr> None))"

lemma sample_queued_key:
  "request_key (sample_queued i p) = (p, 0, ''r'', i)" "obj_id (sample_queued i p) = i"
  by (simp_all add: sample_queued_def request_init_def length_from_prompt_token_ids_or_embeds_def
      update_block_hashes_def request_key_def)

theorem priority_queue_sorted_witness:
  "rq_run [Op_add (sample_queued 1 5), Op_add (sample_queued 2 0), Op_pop] (create_request_queue PRIORITY)
     = [Out_none, Out_none, Out_request (sample_queued 2 0)]"
  using priority_queue_sorted[of "[Op_add (sample_queued 1 5), Op_add (sample_queued 2 0), Op_pop]"]
  by (simp add: sample_queued_key del: rq_run.simps)

section \<open>What the scheduler relies on\<close>

text \<open>Popping \<open>n\<close> requests.\<close>

fun pop_many :: "('q \<Rightarrow> ('r \<times> 'q) result) \<Rightarrow> nat \<Rightarrow> 'q \<Rightarrow> ('r list \<times> 'q) result" where
  "pop_many pop 0 q = Inr ([], q)"
| "pop_many pop (Suc n) q = bind_r (pop q) (\<lambda>(r, q). map_r (\<lambda>(rs, q). (r # rs, q)) (pop_many pop n q))"

locale waiting_queue =
  fixes add :: "'r \<Rightarrow> 'q \<Rightarrow> 'q" and pop :: "'q \<Rightarrow> ('r \<times> 'q) result" and peek :: "'q \<Rightarrow> 'r result"
    and items :: "'q \<Rightarrow> 'r list" and wf :: "'q \<Rightarrow> bool"
  assumes add_items: "wf q \<Longrightarrow> wf (add r q) \<and> mset (items (add r q)) = add_mset r (mset (items q))"
    and pop_items: "wf q \<Longrightarrow> items q = r # rs \<Longrightarrow> \<exists>q'. pop q = Inr (r, q') \<and> wf q' \<and> items q' = rs"
    and pop_empty: "wf q \<Longrightarrow> items q = [] \<Longrightarrow> pop q = Inl IndexError"
    and peek_pop: "wf q \<Longrightarrow> peek q = map_r fst (pop q)"
begin

lemma pop_many_items:
  "wf q \<Longrightarrow> n \<le> length (items q) \<Longrightarrow>
     \<exists>q'. pop_many pop n q = Inr (take n (items q), q') \<and> wf q' \<and> items q' = drop n (items q)"
proof (induction n arbitrary: q)
  case (Suc n)
  then obtain r rs where rs: "items q = r # rs" by (cases "items q") auto
  then obtain q1 where "pop q = Inr (r, q1)" "wf q1" "items q1 = rs" using pop_items Suc.prems(1) by blast
  then show ?case using Suc.IH[of q1] Suc.prems rs by auto
qed simp

lemma eventually_popped:
  assumes "wf q" "r \<in> set (items q)"
  shows "\<exists>n rs q'. n \<le> length (items q) \<and> pop_many pop n q = Inr (rs, q') \<and> r \<in> set rs"
  using pop_many_items[OF assms(1), of "length (items q)"] assms(2) by auto

lemma added_is_queued: "wf q \<Longrightarrow> r \<in> set (items (add r q))"
  using add_items[of q r] by (metis set_mset_mset union_single_eq_member)

lemma length_add: "wf q \<Longrightarrow> length (items (add r q)) = Suc (length (items q))"
  using add_items[of q r] by (metis size_add_mset size_mset)

end

text \<open>A priority queue whose heap order holds; ties need no care here, since iteration is by popping.\<close>

definition prio_wf :: "Request list \<Rightarrow> bool" where
  "prio_wf h \<longleftrightarrow> heap_from request_key 0 h"

lemma prio_iter_pop:
  assumes "prio_wf h" "h \<noteq> []"
  shows "\<exists>r h'. prio_pop_request h = Inr (r, h') \<and> r = h ! 0 \<and> prio_wf h' \<and> prio_iter h = r # prio_iter h' \<and> mset h = add_mset r (mset h')"
proof -
  obtain h' where h': "heappop request_lt h = Inr (h ! 0, h')" "heap_from request_key 0 h'" "mset h = add_mset (h ! 0) (mset h')"
    using rh.heappop_correct[of h] assms by (auto simp: prio_wf_def)
  then have "length h = Suc (length h')" by (metis size_add_mset size_mset)
  then show ?thesis using h' assms by (auto simp: prio_pop_request_def prio_iter_def prio_wf_def)
qed

lemma mset_prio_iter: "prio_wf h \<Longrightarrow> mset (prio_iter h) = mset h"
proof (induction "length h" arbitrary: h rule: less_induct)
  case less
  show ?case
  proof (cases "h = []")
    case False
    then obtain r h' where h': "prio_wf h'" "prio_iter h = r # prio_iter h'" "mset h = add_mset r (mset h')"
      using prio_iter_pop[OF less.prems] by blast
    then have "length h' < length h" by (metis lessI size_add_mset size_mset)
    then show ?thesis using less.hyps[OF _ h'(1)] h' by simp
  qed (simp add: prio_iter_def)
qed

interpretation fcfs: waiting_queue fcfs_add_request fcfs_pop_request fcfs_peek_request "\<lambda>q. q" "\<lambda>_. True"
  by unfold_locales
    (auto simp: fcfs_add_request_def fcfs_pop_request_def fcfs_peek_request_def split: list.splits)

interpretation prio: waiting_queue prio_add_request prio_pop_request prio_peek_request prio_iter prio_wf
proof
  fix h r assume h: "prio_wf h"
  then show "prio_wf (prio_add_request r h) \<and> mset (prio_iter (prio_add_request r h)) = add_mset r (mset (prio_iter h))"
    using rh.heappush_correct[of h r] mset_prio_iter[of h] mset_prio_iter[of "prio_add_request r h"]
    by (simp add: prio_wf_def prio_add_request_def)
next
  fix h r rs assume "prio_wf h" "prio_iter h = r # rs"
  then show "\<exists>h'. prio_pop_request h = Inr (r, h') \<and> prio_wf h' \<and> prio_iter h' = rs"
    using prio_iter_pop[of h] by (cases "h = []") (auto simp: prio_iter_def)
next
  fix h assume "prio_wf h" "prio_iter h = []"
  then show "prio_pop_request h = Inl IndexError"
    using prio_iter_pop[of h] by (cases "h = []") (auto simp: prio_pop_request_def)
next
  fix h assume "prio_wf h"
  then show "prio_peek_request h = map_r fst (prio_pop_request h)"
    using prio_iter_pop[of h] by (cases "h = []") (auto simp: prio_peek_request_def prio_pop_request_def)
qed

fun queue_wf :: "RequestQueue \<Rightarrow> bool" where
  "queue_wf (FCFSRequestQueue q) = True"
| "queue_wf (PriorityRequestQueue h) = prio_wf h"

interpretation rq: waiting_queue add_request pop_request peek_request queue_iter queue_wf
proof
  fix q r
  show "queue_wf q \<Longrightarrow> queue_wf (add_request r q) \<and> mset (queue_iter (add_request r q)) = add_mset r (mset (queue_iter q))"
    using fcfs.add_items prio.add_items by (cases q) auto
  show "queue_wf q \<Longrightarrow> queue_iter q = [] \<Longrightarrow> pop_request q = Inl IndexError"
    using fcfs.pop_empty prio.pop_empty by (cases q) auto
  show "queue_wf q \<Longrightarrow> peek_request q = map_r fst (pop_request q)"
    using fcfs.peek_pop prio.peek_pop by (cases q) (auto simp: map_r_def split: sum.splits)
  fix rs show "queue_wf q \<Longrightarrow> queue_iter q = r # rs \<Longrightarrow> \<exists>q'. pop_request q = Inr (r, q') \<and> queue_wf q' \<and> queue_iter q' = rs"
    using fcfs.pop_items prio.pop_items[of _ r rs] by (cases q) fastforce+
qed

text \<open>C18: Under both policies a request that was added is returned after at most as many pops as there are requests in the
  queue, and none of these pops raises.\<close>

theorem queued_request_popped:
  assumes "queue_wf q"
  shows "\<exists>n rs q'. n \<le> Suc (length (queue_iter q)) \<and> pop_many pop_request n (add_request r q) = Inr (rs, q') \<and> r \<in> set rs"
proof -
  have "queue_wf (add_request r q)" using rq.add_items[OF assms] by blast
  from rq.eventually_popped[OF this rq.added_is_queued[OF assms]] show ?thesis by (simp add: rq.length_add[OF assms])
qed

theorem queued_request_popped_witness:
  "\<exists>n rs q'. n \<le> 1 \<and> pop_many pop_request n (add_request (sample_queued 1 5) (create_request_queue PRIORITY)) = Inr (rs, q')
     \<and> sample_queued 1 5 \<in> set rs"
  using queued_request_popped[of "create_request_queue PRIORITY" "sample_queued 1 5"]
  by (simp add: create_request_queue_def prio_wf_def heap_from_def prio_iter_def)

end
