(* ===== verification/Sched_Utils.thy ===== *)
theory Sched_Utils
  imports Requests "HOL-Library.Sublist"
begin

text \<open>
  The helpers of \<open>vllm/v1/core/sched/utils.py\<close> (repetition detection, removal from the running list,
  the stop check) and the loop of \<open>Scheduler._update_request_with_output\<close> that calls the stop check
  after every generated token.
\<close>

section \<open>Repetition detection\<close>

definition has_repeating_pattern :: "int list \<Rightarrow> int \<Rightarrow> int \<Rightarrow> bool result" where
  "has_repeating_pattern token_ids pattern_len repetition_min_count =
     all_r (\<lambda>n. bind_r (nth_r token_ids (- n)) (\<lambda>target_token.
        all_r (\<lambda>m. map_r (\<lambda>t. t = target_token) (nth_r token_ids (- (pattern_len * m + n))))
          [1..repetition_min_count - 1])) [1..pattern_len]"

fun repetition_search :: "int list \<Rightarrow> int \<Rightarrow> int list \<Rightarrow> bool result" where
  "repetition_search token_ids cnt [] = Inr False"
| "repetition_search token_ids cnt (pattern_len # pls) =
     (if pattern_len * cnt > int (length token_ids) then Inr False
      else bind_r (has_repeating_pattern token_ids pattern_len cnt) (\<lambda>b.
        if b then Inr True else repetition_search token_ids cnt pls))"

definition check_sequence_repetition :: "int list \<Rightarrow> RepetitionDetectionParams \<Rightarrow> bool result" where
  "check_sequence_repetition token_ids params =
     (let min_size = (if min_pattern_size params \<le> 0 then 1 else min_pattern_size params) in
      if max_pattern_size params \<le> 0 \<or> min_count params < 2 \<or> min_size > max_pattern_size params then Inr False
      else repetition_search token_ids (min_count params) [min_size..max_pattern_size params])"

section \<open>Removal and the stop check\<close>

text \<open>\<open>list.remove\<close> with a suppressed ValueError for one item, which changes the argument in place, and a
  comprehension for more.  The set of items is given by its elements, without repetition; the result is the
  returned list and the list object of the argument after the call.\<close>

definition remove_all :: "'a list \<Rightarrow> 'a list \<Rightarrow> 'a list \<times> 'a list" where
  "remove_all lst items_to_remove =
     (if items_to_remove = [] then (lst, lst)
      else if length items_to_remove = 1 then let lst = remove1 (hd items_to_remove) lst in (lst, lst)
      else (filter (\<lambda>item. item \<notin> set items_to_remove) lst, lst))"

definition check_stop :: "int \<Rightarrow> Request \<Rightarrow> (bool \<times> Request) result" where
  "check_stop max_model_len request =
     bind_r (assert_r (pooling_params request = None)) (\<lambda>_.
     case sampling_params request of None \<Rightarrow> Inl AssertionError
     | Some sp \<Rightarrow>
       if num_output_tokens request < sp_min_tokens sp then Inr (False, request)
       else bind_r (nth_r (output_token_ids request) (-1)) (\<lambda>last_token_id.
         if Some last_token_id = sp_eos_token_id sp
         then Inr (True, request\<lparr>status := FINISHED_STOPPED\<rparr>)
         else if last_token_id \<in> set (case sp_stop_token_ids sp of None \<Rightarrow> [] | Some ids \<Rightarrow> ids)
         then Inr (True, request\<lparr>status := FINISHED_STOPPED, stop_reason := Some (Stop_token last_token_id)\<rparr>)
         else if num_tokens request \<ge> max_model_len \<or> num_output_tokens request \<ge> max_tokens request
         then Inr (True, request\<lparr>status := FINISHED_LENGTH_CAPPED\<rparr>)
         else case sp_repetition_detection sp of None \<Rightarrow> Inr (False, request)
           | Some rd \<Rightarrow> bind_r (check_sequence_repetition (output_token_ids request) rd) (\<lambda>rep.
               if rep then Inr (True, request\<lparr>status := FINISHED_REPETITION, stop_reason := Some (Stop_text ''repetition_detected'')\<rparr>)
               else Inr (False, request))))"

text \<open>\<open>Scheduler._update_request_with_output\<close>: append and check token by token; on a stop the
  remaining tokens are dropped.\<close>

fun update_request_with_output ::
    "block_hasher option \<Rightarrow> int \<Rightarrow> Request \<Rightarrow> int list \<Rightarrow> (int list \<times> bool \<times> Request) result" where
  "update_request_with_output hasher max_model_len request [] = Inr ([], False, request)"
| "update_request_with_output hasher max_model_len request (output_token_id # rest) =
     bind_r (append_output_token_ids hasher [output_token_id] request) (\<lambda>request.
     bind_r (check_stop max_model_len request) (\<lambda>(stopped, request).
       if stopped then Inr ([output_token_id], True, request)
       else map_r (\<lambda>(toks, st, r). (output_token_id # toks, st, r)) (update_request_with_output hasher max_model_len request rest)))"

section \<open>Repetition detection finds exactly the repeated tails\<close>

lemma nth_r_from_end:
  assumes "0 < n" "n \<le> length xs" shows "nth_r xs (- int n) = Inr (xs ! (length xs - n))"
proof -
  have "(- int n) mod int (length xs) = (int (length xs) + - int n) mod int (length xs)" by (rule mod_add_self1[symmetric])
  also have "int (length xs) + - int n = int (length xs - n)" using assms(2) by (simp add: of_nat_diff)
  also have "int (length xs - n) mod int (length xs) = int (length xs - n)"
    by (rule mod_pos_pos_trivial) (use assms in auto)
  finally show ?thesis using assms by (simp add: nth_r_def nat_diff_distrib)
qed

lemma ball_int_range: "(\<forall>n\<in>{1..int L}. P n) \<longleftrightarrow> (\<forall>n\<in>{1..L}. P (int n))"
proof -
  have "{1..int L} = int ` {1..L}" by (simp add: image_int_atLeastAtMost)
  then show ?thesis by simp
qed

lemma has_repeating_pattern_spec:
  assumes "0 < L" "2 \<le> C" "L * C \<le> length toks"
  shows "has_repeating_pattern toks (int L) (int C) =
    Inr (\<forall>n\<in>{1..L}. \<forall>m\<in>{1..C - 1}. toks ! (length toks - (L * m + n)) = toks ! (length toks - n))"
proof -
  have inb: "L * m + n \<le> length toks" if "n \<le> L" "m \<le> C - 1" for m n
  proof -
    have "L * m + n \<le> L * (C - 1) + L" using that by (intro add_mono mult_le_mono) auto
    also have "\<dots> = L * C" using assms(2) by (cases C) auto
    finally show ?thesis using assms(3) by simp
  qed
  have inner: "all_r (\<lambda>m. map_r (\<lambda>t. t = x) (nth_r toks (- (int L * m + int n)))) [1..int C - 1] =
      Inr (\<forall>m\<in>{1..C - 1}. toks ! (length toks - (L * m + n)) = x)" if n: "n \<in> {1..L}" for n x
  proof -
    have "nth_r toks (- (int L * m + int n)) = Inr (toks ! (length toks - (L * nat m + n)))" if "m \<in> {1..int C - 1}" for m
    proof -
      have "nat m \<le> C - 1" using that by auto
      then show ?thesis using nth_r_from_end[of "L * nat m + n" toks] inb[of n "nat m"] n that by simp
    qed
    then show ?thesis
      using assms(2) ball_int_range[of "C - 1" "\<lambda>m. toks ! (length toks - (L * nat m + n)) = x"]
      by (subst all_r_Inr[where P = "\<lambda>m. toks ! (length toks - (L * nat m + n)) = x"]) (auto simp: of_nat_diff)
  qed
  have "bind_r (nth_r toks (- n)) (\<lambda>x. all_r (\<lambda>m. map_r (\<lambda>t. t = x) (nth_r toks (- (int L * m + n)))) [1..int C - 1]) =
      Inr (\<forall>m\<in>{1..C - 1}. toks ! (length toks - (L * m + nat n)) = toks ! (length toks - nat n))" if "n \<in> {1..int L}" for n
  proof -
    have n: "nat n \<in> {1..L}" "int (nat n) = n" "0 < n" using that by auto
    then show ?thesis using inner[OF n(1)] nth_r_from_end[of "nat n" toks] inb[of "nat n" 0] by simp
  qed
  then show ?thesis
    using ball_int_range[of L "\<lambda>n. \<forall>m\<in>{1..C - 1}. toks ! (length toks - (L * m + nat n)) = toks ! (length toks - nat n)"]
    unfolding has_repeating_pattern_def
    by (subst all_r_Inr[where P = "\<lambda>n. \<forall>m\<in>{1..C - 1}. toks ! (length toks - (L * m + nat n)) = toks ! (length toks - nat n)"]) auto
qed

lemma nth_concat_replicate: "i < C * length p \<Longrightarrow> concat (replicate C p) ! i = p ! (i mod length p)"
proof (induction C arbitrary: i)
  case (Suc C)
  then show ?case by (cases "i < length p") (auto simp: nth_append le_mod_geq)
qed simp

lemma suffix_iff_drop: "suffix ys xs \<longleftrightarrow> length ys \<le> length xs \<and> drop (length xs - length ys) xs = ys"
  by (auto simp: suffix_def) (metis append_take_drop_id)

lemma tail_index:
  fixes n L m C N :: nat
  assumes "1 \<le> n" "n \<le> L" "m < C" "L * C \<le> N"
  shows "N - (L * m + n) = N - L * C + (L * (C - 1 - m) + (L - n))" "L * (C - 1 - m) + (L - n) < L * C"
proof -
  obtain k where k: "C = Suc (m + k)" using assms(3) less_iff_Suc_add by auto
  have "L * C = L * m + L * k + L" by (simp add: k algebra_simps)
  moreover have "C - 1 - m = k" by (simp add: k)
  ultimately show "N - (L * m + n) = N - L * C + (L * (C - 1 - m) + (L - n))" "L * (C - 1 - m) + (L - n) < L * C"
    using assms by simp_all
qed

lemma repeated_tail:
  assumes "0 < L" "0 < C" "L * C \<le> length toks"
  shows "(\<forall>n\<in>{1..L}. \<forall>m\<in>{1..C - 1}. toks ! (length toks - (L * m + n)) = toks ! (length toks - n)) \<longleftrightarrow>
    (\<exists>p. length p = L \<and> suffix (concat (replicate C p)) toks)" (is "?A \<longleftrightarrow> ?B")
proof
  assume A: ?A
  let ?N = "length toks" let ?p = "drop (?N - L) toks"
  have LC: "L \<le> L * C" using assms(2) by simp
  then have LN: "L \<le> ?N" using assms(3) by linarith
  then have len: "length ?p = L" by simp
  have "drop (?N - L * C) toks = concat (replicate C ?p)"
  proof (rule nth_equalityI)
    show "length (drop (?N - L * C) toks) = length (concat (replicate C ?p))"
      using assms(3) len by (simp add: length_concat sum_list_replicate mult.commute)
    fix i assume "i < length (drop (?N - L * C) toks)"
    then have i: "i < L * C" using assms(3) by simp
    define n m where "n = L - i mod L" and "m = C - 1 - i div L"
    have q: "i div L < C" using i by (simp add: less_mult_imp_div_less mult.commute)
    have r: "i mod L < L" using assms(1) by simp
    have nm: "1 \<le> n" "n \<le> L" "m < C" "C - 1 - m = i div L" "L - n = i mod L" using q r by (auto simp: n_def m_def)
    have ix: "?N - (L * m + n) = ?N - L * C + i"
      using tail_index(1)[OF nm(1-3) assms(3)] nm(4,5) by simp
    have "toks ! (?N - (L * m + n)) = toks ! (?N - n)"
      using A nm by (cases "m = 0") auto
    moreover have "?N - n = ?N - L + i mod L" using r LN by (simp add: n_def)
    moreover have "concat (replicate C ?p) ! i = ?p ! (i mod L)"
      using nth_concat_replicate[of i C ?p] i unfolding len by (simp add: mult.commute)
    ultimately show "drop (?N - L * C) toks ! i = concat (replicate C ?p) ! i"
      using ix i r LN assms(3) by simp
  qed
  then have "suffix (concat (replicate C ?p)) toks" by (metis suffix_drop)
  with len show ?B by blast
next
  assume ?B
  then obtain p zs where p: "length p = L" "toks = zs @ concat (replicate C p)" by (auto simp: suffix_def)
  have N: "length toks - L * C = length zs"
    using p by (simp add: length_concat sum_list_replicate mult.commute)
  have "toks ! (length toks - (L * m + n)) = p ! ((L - n) mod L)" if "n \<in> {1..L}" "m < C" for m n
  proof -
    define j where "j = L * (C - 1 - m) + (L - n)"
    have ix: "length toks - (L * m + n) = length zs + j" and j: "j < C * length p"
      using tail_index[of n L m C "length toks", folded j_def] that assms(3) N p(1) by (simp_all add: mult.commute)
    have "toks ! (length zs + j) = concat (replicate C p) ! j" by (simp add: p(2) nth_append)
    also have "\<dots> = p ! (j mod L)" using nth_concat_replicate[OF j] p(1) by simp
    also have "j mod L = (L - n) mod L" by (simp add: j_def)
    finally show ?thesis by (simp only: ix)
  qed
  from this[of _ 0] this show ?A using assms(2) by fastforce
qed

lemma repetition_search_spec:
  assumes "\<And>L. L \<in> set Ls \<Longrightarrow> 0 < L" "2 \<le> C" "sorted Ls"
  shows "repetition_search toks (int C) Ls = Inr (\<exists>L\<in>set Ls. \<exists>p. int (length p) = L \<and> suffix (concat (replicate C p)) toks)"
  using assms
proof (induction Ls)
  case (Cons L Ls)
  then have "0 < L" by auto
  then have L: "L = int (nat L)" "0 < nat L" by auto
  have fits: "L' * int C \<le> int (length toks)" if "int (length p) = L'" "suffix (concat (replicate C p)) toks" for p L'
  proof -
    have "length (concat (replicate C p)) \<le> length toks" using that(2) by (rule suffix_length_le)
    then show ?thesis using that(1) by (auto simp: length_concat sum_list_replicate simp flip: of_nat_mult) (simp add: mult.commute)
  qed
  show ?case
  proof (cases "L * int C > int (length toks)")
    case True
    have "L' * int C > int (length toks)" if "L' \<in> set (L # Ls)" for L'
    proof -
      have "L \<le> L'" using Cons.prems(3) that by auto
      then have "L * int C \<le> L' * int C" by (rule mult_right_mono) simp
      then show ?thesis using True by linarith
    qed
    then show ?thesis using True fits by fastforce
  next
    case False
    then have "nat L * C \<le> length toks" using L by (metis not_less of_nat_le_iff of_nat_mult)
    then have "has_repeating_pattern toks L (int C) = Inr (\<exists>p. length p = nat L \<and> suffix (concat (replicate C p)) toks)"
      using has_repeating_pattern_spec[of "nat L" C toks] repeated_tail[of "nat L" C toks] L Cons.prems(2) by simp
    moreover have "length p = nat L \<longleftrightarrow> int (length p) = L" for p :: "int list" using L by auto
    ultimately show ?thesis using False Cons by auto
  qed
qed simp

lemma check_sequence_repetition_eq:
  "check_sequence_repetition toks params =
     Inr (2 \<le> min_count params \<and>
       (\<exists>p. p \<noteq> [] \<and> min_pattern_size params \<le> int (length p) \<and> int (length p) \<le> max_pattern_size params
          \<and> suffix (concat (replicate (nat (min_count params)) p)) toks))"
proof (cases "2 \<le> min_count params")
  case True
  define lo where "lo = (if min_pattern_size params \<le> 0 then 1 else min_pattern_size params)"
  have lo: "0 < lo" by (simp add: lo_def)
  have "check_sequence_repetition toks params = repetition_search toks (int (nat (min_count params))) [lo..max_pattern_size params]"
    using True by (auto simp: check_sequence_repetition_def lo_def Let_def)
  also have "\<dots> = Inr (\<exists>L\<in>{lo..max_pattern_size params}. \<exists>p. int (length p) = L \<and> suffix (concat (replicate (nat (min_count params)) p)) toks)"
    using repetition_search_spec[of "[lo..max_pattern_size params]" "nat (min_count params)" toks] True
    using lo by simp
  also have "(\<exists>L\<in>{lo..max_pattern_size params}. \<exists>p. int (length p) = L \<and> suffix (concat (replicate (nat (min_count params)) p)) toks)
      \<longleftrightarrow> (\<exists>p. lo \<le> int (length p) \<and> int (length p) \<le> max_pattern_size params \<and> suffix (concat (replicate (nat (min_count params)) p)) toks)"
    by auto
  finally have "check_sequence_repetition toks params = Inr (\<exists>p. lo \<le> int (length p) \<and> int (length p) \<le> max_pattern_size params
      \<and> suffix (concat (replicate (nat (min_count params)) p)) toks)" .
  moreover have "lo \<le> int (length p) \<longleftrightarrow> p \<noteq> [] \<and> min_pattern_size params \<le> int (length p)" for p :: "int list"
    by (cases p) (auto simp: lo_def)
  ultimately show ?thesis using True by simp
qed (auto simp: check_sequence_repetition_def Let_def)

text \<open>C20: \<open>check_sequence_repetition\<close> returns, without an index error, whether the tokens end in \<open>min_count\<close> copies of
  some pattern whose length is within the configured bounds.\<close>

theorem check_sequence_repetition_spec:
  "check_sequence_repetition toks params =
     Inr (2 \<le> min_count params \<and>
       (\<exists>p. p \<noteq> [] \<and> min_pattern_size params \<le> int (length p) \<and> int (length p) \<le> max_pattern_size params
          \<and> suffix (concat (replicate (nat (min_count params)) p)) toks))"
  by (rule check_sequence_repetition_eq)

section \<open>The stop check bounds every request\<close>

text \<open>A block hasher that only adds hashes.\<close>

definition hasher_ok :: "block_hasher option \<Rightarrow> bool" where
  "hasher_ok hasher \<longleftrightarrow> (\<forall>f. hasher = Some f \<longrightarrow> (\<forall>r. \<exists>hs eh. f r = Inr (hs, r\<lparr>embeds_hashes := eh\<rparr>)))"

lemma status_only:
  "r\<lparr>status := st\<rparr> = r\<lparr>status := st, stop_reason := stop_reason r\<rparr>"
  "r = r\<lparr>status := status r, stop_reason := stop_reason r\<rparr>"
  by (cases r; simp)+

lemma finished_codes:
  "is_finished_status FINISHED_STOPPED" "is_finished_status FINISHED_LENGTH_CAPPED" "is_finished_status FINISHED_REPETITION"
  by (simp_all add: is_finished_status_def less_RequestStatus_def)

lemma append_one:
  assumes "hasher_ok hasher"
  obtains r' where "append_output_token_ids hasher [t] r = Inr r'" "output_token_ids r' = output_token_ids r @ [t]"
    "all_token_ids r' = all_token_ids r @ [t]" "sampling_params r' = sampling_params r" "pooling_params r' = pooling_params r"
    "max_tokens r' = max_tokens r" "status r' = status r"
proof (cases hasher)
  case (Some f)
  obtain hs eh where "f (r\<lparr>output_token_ids := output_token_ids r @ [t], all_token_ids := all_token_ids r @ [t]\<rparr>)
      = Inr (hs, r\<lparr>output_token_ids := output_token_ids r @ [t], all_token_ids := all_token_ids r @ [t], embeds_hashes := eh\<rparr>)"
    using assms Some unfolding hasher_ok_def by (metis)
  then show ?thesis using that Some by (simp add: append_output_token_ids_def update_block_hashes_def)
qed (use that in \<open>simp add: append_output_token_ids_def update_block_hashes_def\<close>)

lemma check_stop_returns:
  assumes "pooling_params r = None" "sampling_params r = Some sp" "output_token_ids r \<noteq> []"
  obtains b st sr where "check_stop mml r = Inr (b, r\<lparr>status := st, stop_reason := sr\<rparr>)"
    "b \<Longrightarrow> is_finished_status st" "\<not> b \<Longrightarrow> st = status r \<and> sr = stop_reason r"
    "\<not> b \<Longrightarrow> sp_min_tokens sp \<le> num_output_tokens r \<Longrightarrow> num_tokens r < mml \<and> num_output_tokens r < max_tokens r"
proof -
  have "\<exists>b st sr. check_stop mml r = Inr (b, r\<lparr>status := st, stop_reason := sr\<rparr>) \<and> (b \<longrightarrow> is_finished_status st) \<and>
      (\<not> b \<longrightarrow> st = status r \<and> sr = stop_reason r) \<and>
      (\<not> b \<longrightarrow> sp_min_tokens sp \<le> num_output_tokens r \<longrightarrow> num_tokens r < mml \<and> num_output_tokens r < max_tokens r)"
  proof (cases "num_output_tokens r < sp_min_tokens sp")
    case True
    then show ?thesis using assms
      by (intro exI[of _ False] exI[of _ "status r"] exI[of _ "stop_reason r"]) (simp add: check_stop_def)
  next
    case False
    let ?t = "last (output_token_ids r)"
    let ?ids = "case sp_stop_token_ids sp of None \<Rightarrow> [] | Some ids \<Rightarrow> ids"
    obtain R where R: "\<And>rd. check_sequence_repetition (output_token_ids r) rd = Inr (R rd)"
      by (rule that[OF check_sequence_repetition_eq])
    let ?rep = "case sp_repetition_detection sp of None \<Rightarrow> False | Some rd \<Rightarrow> R rd"
    have eq: "check_stop mml r =
       (if Some ?t = sp_eos_token_id sp then Inr (True, r\<lparr>status := FINISHED_STOPPED\<rparr>)
        else if ?t \<in> set ?ids then Inr (True, r\<lparr>status := FINISHED_STOPPED, stop_reason := Some (Stop_token ?t)\<rparr>)
        else if num_tokens r \<ge> mml \<or> num_output_tokens r \<ge> max_tokens r then Inr (True, r\<lparr>status := FINISHED_LENGTH_CAPPED\<rparr>)
        else if ?rep then Inr (True, r\<lparr>status := FINISHED_REPETITION, stop_reason := Some (Stop_text ''repetition_detected'')\<rparr>)
        else Inr (False, r))"
      using assms False by (cases "sp_repetition_detection sp")
        (simp_all add: check_stop_def nth_r_last R del: if_split cong: if_cong)
    have fin: ?thesis if "check_stop mml r = Inr (True, r\<lparr>status := st, stop_reason := sr\<rparr>)" "is_finished_status st" for st sr
      using that by blast
    show ?thesis
    proof (cases "Some ?t = sp_eos_token_id sp")
      case True
      then have "check_stop mml r = Inr (True, r\<lparr>status := FINISHED_STOPPED\<rparr>)" unfolding eq by (rule if_P)
      then show ?thesis by (intro fin[of "stop_reason r", OF _ finished_codes(1)]) (simp only: status_only(1)[symmetric])
    next
      case e: False
      show ?thesis
      proof (cases "?t \<in> set ?ids")
        case True
        then show ?thesis using fin[of "Some (Stop_token ?t)" FINISHED_STOPPED] eq e by (simp only: finished_codes if_True if_False)
      next
        case i: False
        show ?thesis
        proof (cases "num_tokens r \<ge> mml \<or> num_output_tokens r \<ge> max_tokens r")
          case True
          then show ?thesis using fin[of "stop_reason r" FINISHED_LENGTH_CAPPED] eq e i
            by (simp only: finished_codes status_only(1)[symmetric] if_True if_False)
        next
          case l: False
          show ?thesis
          proof (cases ?rep)
            case True
            then show ?thesis using fin[of "Some (Stop_text ''repetition_detected'')" FINISHED_REPETITION] eq e i l
              by (simp only: finished_codes if_True if_False)
          next
            case False
            then have "check_stop mml r = Inr (False, r\<lparr>status := status r, stop_reason := stop_reason r\<rparr>)"
              using eq e i l by (simp only: status_only(2)[symmetric] if_False)
            moreover have "num_tokens r < mml" "num_output_tokens r < max_tokens r" using l by linarith+
            ultimately show ?thesis by blast
          qed
        qed
      qed
    qed
  qed
  then show thesis using that by blast
qed

text \<open>What bounds a request: the configured limits, or the required minimum of output tokens where that is
  larger, since the stop check looks at nothing else before the minimum is reached.\<close>

definition output_limit :: "SamplingParams \<Rightarrow> Request \<Rightarrow> int" where
  "output_limit sp r = max (max_tokens r) (sp_min_tokens sp)"

definition length_limit :: "int \<Rightarrow> SamplingParams \<Rightarrow> Request \<Rightarrow> int" where
  "length_limit mml sp r = max mml (num_tokens r - num_output_tokens r + sp_min_tokens sp)"

definition has_room :: "int \<Rightarrow> SamplingParams \<Rightarrow> Request \<Rightarrow> bool" where
  "has_room mml sp r \<longleftrightarrow> num_output_tokens r < output_limit sp r \<and> num_tokens r < length_limit mml sp r"

lemmas limit_defs = has_room_def output_limit_def length_limit_def

lemma update_step:
  assumes "hasher_ok hasher" "pooling_params r = None" "sampling_params r = Some sp" "has_room mml sp r"
  obtains r1 b r2 where "append_output_token_ids hasher [t] r = Inr r1" "check_stop mml r1 = Inr (b, r2)"
    "output_token_ids r2 = output_token_ids r @ [t]" "num_tokens r2 = num_tokens r + 1" "max_tokens r2 = max_tokens r"
    "pooling_params r2 = None" "sampling_params r2 = Some sp" "b \<Longrightarrow> is_finished r2"
    "\<not> b \<Longrightarrow> status r2 = status r \<and> has_room mml sp r2"
proof -
  obtain r1 where r1: "append_output_token_ids hasher [t] r = Inr r1" "output_token_ids r1 = output_token_ids r @ [t]"
    "all_token_ids r1 = all_token_ids r @ [t]" "sampling_params r1 = Some sp" "pooling_params r1 = None"
    "max_tokens r1 = max_tokens r" "status r1 = status r"
    using append_one[OF assms(1), of t r] assms(2,3) by metis
  obtain b st sr where c: "check_stop mml r1 = Inr (b, r1\<lparr>status := st, stop_reason := sr\<rparr>)"
    "b \<Longrightarrow> is_finished_status st" "\<not> b \<Longrightarrow> st = status r1"
    "\<not> b \<Longrightarrow> sp_min_tokens sp \<le> num_output_tokens r1 \<Longrightarrow> num_tokens r1 < mml \<and> num_output_tokens r1 < max_tokens r1"
    using check_stop_returns[OF r1(5,4), of mml] r1(2) by (metis append_is_Nil_conv list.discI)
  have n: "num_tokens r1 = num_tokens r + 1" "num_output_tokens r1 = num_output_tokens r + 1"
    using r1(2,3) by (simp_all add: num_tokens_def num_output_tokens_def)
  have "has_room mml sp r1" if "\<not> b"
    using c(4)[OF that] assms(4) n r1(6) by (cases "sp_min_tokens sp \<le> num_output_tokens r1") (auto simp: limit_defs)
  then have "\<not> b \<Longrightarrow> has_room mml sp (r1\<lparr>status := st, stop_reason := sr\<rparr>)"
    by (simp add: limit_defs num_tokens_def num_output_tokens_def)
  then show thesis using that[of r1 b "r1\<lparr>status := st, stop_reason := sr\<rparr>"] c r1 n
    by (simp add: num_tokens_def is_finished_def)
qed

text \<open>C19: However many tokens a step delivers, \<open>_update_request_with_output\<close> returns a prefix of them, appended to the
  request, and a stop leaves a finished status.  The number of output tokens stays within the larger of
  \<open>max_tokens\<close> and \<open>min_tokens\<close>, the length within the larger of \<open>max_model_len\<close> and the prompt with \<open>min_tokens\<close>: so within
  the configured limits whenever the minimum fits them.  Without a stop every token is kept and the request
  still has room.\<close>

theorem update_request_with_output_bounds:
  assumes "hasher_ok hasher" "pooling_params r = None" "sampling_params r = Some sp" "has_room mml sp r"
  shows "\<exists>toks stopped r'. update_request_with_output hasher mml r new = Inr (toks, stopped, r') \<and> prefix toks new
    \<and> output_token_ids r' = output_token_ids r @ toks
    \<and> num_output_tokens r' \<le> output_limit sp r \<and> num_tokens r' \<le> length_limit mml sp r
    \<and> (if stopped then is_finished r' else toks = new \<and> status r' = status r \<and> has_room mml sp r')"
  using assms(2-4)
proof (induction new arbitrary: r)
  case Nil
  then show ?case by (intro exI[of _ "[]"] exI[of _ False] exI[of _ r]) (simp add: has_room_def)
next
  case (Cons t ts)
  obtain r1 b r2 where s: "append_output_token_ids hasher [t] r = Inr r1" "check_stop mml r1 = Inr (b, r2)"
    "output_token_ids r2 = output_token_ids r @ [t]" "num_tokens r2 = num_tokens r + 1" "max_tokens r2 = max_tokens r"
    "pooling_params r2 = None" "sampling_params r2 = Some sp" "b \<Longrightarrow> is_finished r2"
    "\<not> b \<Longrightarrow> status r2 = status r \<and> has_room mml sp r2"
    using update_step[OF assms(1) Cons.prems] by metis
  have out: "num_output_tokens r2 = num_output_tokens r + 1" using s(3) by (simp add: num_output_tokens_def)
  then have lim: "output_limit sp r2 = output_limit sp r" "length_limit mml sp r2 = length_limit mml sp r"
    using s(4,5) by (simp_all add: output_limit_def length_limit_def)
  show ?case
  proof (cases b)
    case True
    then show ?thesis using s out Cons.prems(3)
      by (intro exI[of _ "[t]"] exI[of _ True] exI[of _ r2]) (simp add: has_room_def)
  next
    case False
    then obtain toks st r' where "update_request_with_output hasher mml r2 ts = Inr (toks, st, r')" "prefix toks ts"
      "output_token_ids r' = output_token_ids r2 @ toks" "num_output_tokens r' \<le> output_limit sp r" "num_tokens r' \<le> length_limit mml sp r"
      "if st then is_finished r' else toks = ts \<and> status r' = status r2 \<and> has_room mml sp r'"
      using Cons.IH[OF s(6,7)] s(9) unfolding lim by blast
    then show ?thesis using s False by (simp split: if_splits)
  qed
qed

definition sample_sampling :: SamplingParams where
  "sample_sampling = \<lparr>sp_max_tokens = Some 2, sp_structured_outputs = False, sp_skip_reading_prefix_cache = None,
     sp_min_tokens = 1, sp_eos_token_id = Some 7, sp_stop_token_ids = None, sp_repetition_detection = None\<rparr>"

definition sample_running :: Request where
  "sample_running = (projr (request_init 1
     \<lparr>ec_request_id = ''r'', ec_prompt_token_ids = Some [1], ec_prompt_embeds = None, ec_mm_features = None,
      ec_sampling_params = Some sample_sampling, ec_pooling_params = None, ec_arrival_time = 0,
      ec_lora_request = None, ec_cache_salt = None, ec_priority = 0, ec_resumable = False\<rparr> None))"

lemma sample_running_fields:
  "pooling_params sample_running = None" "sampling_params sample_running = Some sample_sampling"
  "num_tokens sample_running = 1" "num_output_tokens sample_running = 0" "max_tokens sample_running = 2"
  by (simp_all add: sample_running_def request_init_def sample_sampling_def length_from_prompt_token_ids_or_embeds_def
      update_block_hashes_def num_tokens_def num_output_tokens_def)

theorem update_request_with_output_bounds_witness:
  "\<exists>toks stopped r'. update_request_with_output None 8 sample_running [3, 7, 5] = Inr (toks, stopped, r') \<and> prefix toks [3, 7, 5]
    \<and> num_output_tokens r' \<le> 2 \<and> num_tokens r' \<le> 8"
  using update_request_with_output_bounds[of None sample_running sample_sampling 8 "[3, 7, 5]"]
  by (fastforce simp: hasher_ok_def limit_defs sample_running_fields sample_sampling_def)

text \<open>C34: While a request has fewer output tokens than \<open>min_tokens\<close>, \<open>_update_request_with_output\<close> keeps every token and reports
  no stop, whatever \<open>max_model_len\<close>, \<open>max_tokens\<close>, the end-of-sequence token and the stop tokens are.  A request
  whose prompt and minimum together exceed the model length therefore runs past it.\<close>

theorem min_tokens_overrides_limits:
  assumes "hasher_ok hasher" "pooling_params r = None" "sampling_params r = Some sp"
    "num_output_tokens r + int (length new) < sp_min_tokens sp"
  shows "\<exists>r'. update_request_with_output hasher mml r new = Inr (new, False, r')
    \<and> num_tokens r' = num_tokens r + int (length new) \<and> status r' = status r"
  using assms(2-4)
proof (induction new arbitrary: r)
  case (Cons t ts)
  obtain r1 where r1: "append_output_token_ids hasher [t] r = Inr r1" "output_token_ids r1 = output_token_ids r @ [t]"
    "all_token_ids r1 = all_token_ids r @ [t]" "sampling_params r1 = Some sp" "pooling_params r1 = None" "status r1 = status r"
    using append_one[OF assms(1), of t r] Cons.prems(1,2) by metis
  have n: "num_output_tokens r1 = num_output_tokens r + 1" "num_tokens r1 = num_tokens r + 1"
    using r1(2,3) by (simp_all add: num_output_tokens_def num_tokens_def)
  then have "check_stop mml r1 = Inr (False, r1)" using Cons.prems(3) r1(4,5) by (simp add: check_stop_def)
  with Cons.IH[OF r1(5,4)] n r1(1,6) Cons.prems(3) show ?case by fastforce
qed simp

definition sample_minimum :: Request where
  "sample_minimum = sample_running\<lparr>sampling_params := Some (sample_sampling\<lparr>sp_max_tokens := Some 9, sp_min_tokens := 9\<rparr>), max_tokens := 9\<rparr>"

theorem min_tokens_overrides_limits_witness:
  "\<exists>r'. update_request_with_output None 3 sample_minimum [3, 7, 5, 5] = Inr ([3, 7, 5, 5], False, r') \<and> num_tokens r' = 5"
proof -
  have "pooling_params sample_minimum = None" "num_tokens sample_minimum = 1" "num_output_tokens sample_minimum = 0"
    "sampling_params sample_minimum = Some (sample_sampling\<lparr>sp_max_tokens := Some 9, sp_min_tokens := 9\<rparr>)"
    using sample_running_fields by (simp_all add: sample_minimum_def num_tokens_def num_output_tokens_def)
  with min_tokens_overrides_limits[of None sample_minimum _ "[3, 7, 5, 5]" 3] show ?thesis
    by (simp add: hasher_ok_def del: update_request_with_output.simps) blast
qed

end
