(* ===== verification/Encoder_Cache.thy ===== *)
theory Encoder_Cache
  imports Requests "HOL-Library.AList"
begin

text \<open>
  The encoder cache managers of \<open>vllm/v1/core/encoder_cache_manager.py\<close>: bookkeeping of the encoder
  outputs of multi-modal inputs, with references by request id, lazy eviction in order of release, and
  the simpler accounting for encoder-decoder models.  A method that raises returns the exception; the
  iteration order of a Python set is an argument where it is visible.
\<close>

section \<open>EncoderCacheManager\<close>

record EncoderCacheManager =
  cache_size :: int
  num_free_slots :: int
  num_freeable_slots :: int
  cached :: "string \<Rightarrow> string set option"
  freeable :: "(string \<times> int) list"
  freed :: "string list"

definition ecm_init :: "int \<Rightarrow> EncoderCacheManager" where
  "ecm_init c_size = \<lparr>cache_size = c_size, num_free_slots = c_size, num_freeable_slots = c_size,
     cached = (\<lambda>_. None), freeable = [], freed = []\<rparr>"

definition ecm_reset :: "EncoderCacheManager \<Rightarrow> EncoderCacheManager" where
  "ecm_reset m = m\<lparr>cached := (\<lambda>_. None), freeable := [], freed := [],
     num_free_slots := cache_size m, num_freeable_slots := cache_size m\<rparr>"

definition input_hash :: "Request \<Rightarrow> int \<Rightarrow> string result" where
  "input_hash request input_id = map_r mm_identifier (nth_r (mm_features request) input_id)"

definition check_and_update_cache :: "Request \<Rightarrow> int \<Rightarrow> EncoderCacheManager \<Rightarrow> (bool \<times> EncoderCacheManager) result" where
  "check_and_update_cache request input_id m =
     bind_r (input_hash request input_id) (\<lambda>mmh.
     case cached m mmh of
       None \<Rightarrow> Inr (False, m)
     | Some refs \<Rightarrow>
         bind_r
           (if refs = {}
            then case map_of (freeable m) mmh of
                   None \<Rightarrow> Inl KeyError
                 | Some num_encoder_embeds \<Rightarrow>
                     Inr (m\<lparr>freeable := AList.delete mmh (freeable m),
                            num_freeable_slots := num_freeable_slots m - num_encoder_embeds\<rparr>)
            else Inr m)
           (\<lambda>m. Inr (True, m\<lparr>cached := (cached m)(mmh \<mapsto> insert (request_id request) refs)\<rparr>)))"

text \<open>The eviction loop: \<open>popitem(last=False)\<close> takes the oldest freeable entry.\<close>

function evict_until :: "int \<Rightarrow> EncoderCacheManager \<Rightarrow> EncoderCacheManager result" where
  "evict_until num_embeds m =
     (if num_embeds > num_free_slots m
      then case freeable m of
             [] \<Rightarrow> Inl KeyError
           | (mmh, num_free_embeds) # rest \<Rightarrow>
               (if cached m mmh = None then Inl KeyError
                else evict_until num_embeds
                  (m\<lparr>freeable := rest, cached := (cached m)(mmh := None), freed := freed m @ [mmh],
                     num_free_slots := num_free_slots m + num_free_embeds\<rparr>))
      else Inr m)"
  by pat_completeness auto
termination
  by (relation "measure (\<lambda>(_, m). length (freeable m))") auto

declare evict_until.simps [simp del]

definition can_allocate :: "Request \<Rightarrow> int \<Rightarrow> int \<Rightarrow> int \<Rightarrow> EncoderCacheManager \<Rightarrow> (bool \<times> EncoderCacheManager) result" where
  "can_allocate request input_id encoder_compute_budget num_embeds_to_schedule m =
     bind_r (get_num_encoder_embeds request input_id) (\<lambda>num_embeds.
     if num_embeds > encoder_compute_budget then Inr (False, m)
     else let num_embeds = num_embeds + num_embeds_to_schedule in
       if num_embeds \<le> num_free_slots m then Inr (True, m)
       else if num_embeds > num_freeable_slots m then Inr (False, m)
       else map_r (\<lambda>m. (True, m)) (evict_until num_embeds m))"

definition ecm_allocate :: "Request \<Rightarrow> int \<Rightarrow> EncoderCacheManager \<Rightarrow> EncoderCacheManager result" where
  "ecm_allocate request input_id m =
     bind_r (input_hash request input_id) (\<lambda>mmh.
     let m = (if cached m mmh = None then m\<lparr>cached := (cached m)(mmh \<mapsto> {})\<rparr> else m) in
     bind_r (get_num_encoder_embeds request input_id) (\<lambda>num_encoder_embeds.
     bind_r (assert_r (num_free_slots m \<ge> num_encoder_embeds)) (\<lambda>_.
     bind_r (assert_r (num_freeable_slots m \<ge> num_encoder_embeds)) (\<lambda>_.
       Inr (m\<lparr>cached := (cached m)(mmh \<mapsto> insert (request_id request) (the (cached m mmh))),
              num_free_slots := num_free_slots m - num_encoder_embeds,
              num_freeable_slots := num_freeable_slots m - num_encoder_embeds\<rparr>)))))"

definition get_cached_input_ids :: "Request \<Rightarrow> EncoderCacheManager \<Rightarrow> int set" where
  "get_cached_input_ids request m =
     set (filter (\<lambda>input_id. cached m (mm_identifier (mm_features request ! nat input_id)) \<noteq> None)
       (map int [0..<length (mm_features request)]))"

definition free_encoder_input :: "Request \<Rightarrow> int \<Rightarrow> EncoderCacheManager \<Rightarrow> EncoderCacheManager result" where
  "free_encoder_input request input_id m =
     bind_r (input_hash request input_id) (\<lambda>mmh.
     case cached m mmh of
       None \<Rightarrow> Inr m
     | Some refs \<Rightarrow>
         if refs = {} then Inr m
         else let refs = refs - {request_id request}; m = m\<lparr>cached := (cached m)(mmh \<mapsto> refs)\<rparr> in
           if refs = {}
           then bind_r (get_num_encoder_embeds request input_id) (\<lambda>num_encoder_embeds.
                  Inr (m\<lparr>freeable := AList.update mmh num_encoder_embeds (freeable m),
                         num_freeable_slots := num_freeable_slots m + num_encoder_embeds\<rparr>))
           else Inr m)"

text \<open>\<open>iter\<close> is the order in which Python enumerates a set of integers.\<close>

definition ecm_free :: "(int set \<Rightarrow> int list) \<Rightarrow> Request \<Rightarrow> EncoderCacheManager \<Rightarrow> EncoderCacheManager result" where
  "ecm_free iter request m = fold_r (free_encoder_input request) (iter (get_cached_input_ids request m)) m"

definition get_freed_mm_hashes :: "EncoderCacheManager \<Rightarrow> string list \<times> EncoderCacheManager" where
  "get_freed_mm_hashes m = (freed m, m\<lparr>freed := []\<rparr>)"

section \<open>The encoder budget\<close>

record mm_scheduler_config =
  disable_chunked_mm_input :: bool
  mm_max_num_batched_tokens :: int
  max_num_encoder_input_tokens :: int
  sc_encoder_cache_size :: int

definition compute_mm_encoder_budget :: "mm_scheduler_config \<Rightarrow> (string \<times> int) list \<Rightarrow> (int \<times> int) result" where
  "compute_mm_encoder_budget scheduler_config mm_max_toks_per_item =
     (if mm_max_toks_per_item = [] then Inr (0, 0)
      else let max_tokens_per_mm_item = Max (set (map snd mm_max_toks_per_item)) in
        if disable_chunked_mm_input scheduler_config \<and> max_tokens_per_mm_item > mm_max_num_batched_tokens scheduler_config
        then Inl ValueError
        else Inr (max (max_num_encoder_input_tokens scheduler_config) max_tokens_per_mm_item,
                  max (sc_encoder_cache_size scheduler_config) max_tokens_per_mm_item))"

section \<open>EncoderDecoderCacheManager\<close>

record EncoderDecoderCacheManager =
  ed_cache_size :: int
  ed_num_free_slots :: int
  ed_allocated :: "string list"
  ed_to_free :: "string list"

definition ed_init :: "int \<Rightarrow> EncoderDecoderCacheManager" where
  "ed_init c_size = \<lparr>ed_cache_size = c_size, ed_num_free_slots = c_size, ed_allocated = [], ed_to_free = []\<rparr>"

definition ed_reset :: "EncoderDecoderCacheManager \<Rightarrow> EncoderDecoderCacheManager" where
  "ed_reset m = m\<lparr>ed_num_free_slots := ed_cache_size m, ed_allocated := [], ed_to_free := []\<rparr>"

definition ed_check_and_update_cache :: "Request \<Rightarrow> int \<Rightarrow> EncoderDecoderCacheManager \<Rightarrow> bool" where
  "ed_check_and_update_cache request input_id m = False"

definition ed_can_allocate :: "Request \<Rightarrow> int \<Rightarrow> int \<Rightarrow> int \<Rightarrow> EncoderDecoderCacheManager \<Rightarrow> bool result" where
  "ed_can_allocate request input_id encoder_compute_budget num_embeds_to_schedule m =
     bind_r (get_num_encoder_embeds request input_id) (\<lambda>n.
       if n > encoder_compute_budget then Inr False else Inr (n + num_embeds_to_schedule \<le> ed_num_free_slots m))"

definition ed_allocate :: "Request \<Rightarrow> int \<Rightarrow> EncoderDecoderCacheManager \<Rightarrow> EncoderDecoderCacheManager result" where
  "ed_allocate request input_id m =
     bind_r (get_num_encoder_embeds request input_id) (\<lambda>n.
     bind_r (input_hash request input_id) (\<lambda>mmh.
       Inr (m\<lparr>ed_num_free_slots := ed_num_free_slots m - n, ed_allocated := ed_allocated m @ [mmh]\<rparr>)))"

definition ed_free_encoder_input :: "Request \<Rightarrow> int \<Rightarrow> EncoderDecoderCacheManager \<Rightarrow> EncoderDecoderCacheManager result" where
  "ed_free_encoder_input request input_id m =
     bind_r (get_num_encoder_embeds request input_id) (\<lambda>n.
       Inr (m\<lparr>ed_num_free_slots := ed_num_free_slots m + n\<rparr>))"

definition ed_free :: "Request \<Rightarrow> EncoderDecoderCacheManager \<Rightarrow> EncoderDecoderCacheManager result" where
  "ed_free request m = fold_r (ed_free_encoder_input request) (map int [0..<length (mm_features request)]) m"

definition ed_get_cached_input_ids :: "Request \<Rightarrow> int set" where
  "ed_get_cached_input_ids request = set (map int [0..<length (mm_features request)])"

definition ed_get_freed_mm_hashes :: "EncoderDecoderCacheManager \<Rightarrow> string list \<times> EncoderDecoderCacheManager" where
  "ed_get_freed_mm_hashes m = (ed_to_free m, m\<lparr>ed_to_free := ed_allocated m, ed_allocated := []\<rparr>)"

text \<open>\<open>Scheduler._free_encoder_inputs\<close>, which \<open>update_from_output\<close> calls for every scheduled request with
  encoder inputs, for both managers.\<close>

definition input_done :: "Request \<Rightarrow> int \<Rightarrow> bool" where
  "input_done request input_id =
     (let pos = mm_position (mm_features request ! nat input_id)
      in mm_offset pos + mm_length pos \<le> num_computed_tokens request)"

definition free_encoder_inputs :: "(int set \<Rightarrow> int list) \<Rightarrow> Request \<Rightarrow> EncoderCacheManager \<Rightarrow> EncoderCacheManager result" where
  "free_encoder_inputs iter request m =
     fold_r (\<lambda>input_id m. if input_done request input_id then free_encoder_input request input_id m else Inr m)
       (iter (get_cached_input_ids request m)) m"

definition ed_free_encoder_inputs :: "(int set \<Rightarrow> int list) \<Rightarrow> Request \<Rightarrow> EncoderDecoderCacheManager \<Rightarrow> EncoderDecoderCacheManager result" where
  "ed_free_encoder_inputs iter request m =
     fold_r (\<lambda>input_id m. if num_computed_tokens request > 0 \<or> input_done request input_id
         then ed_free_encoder_input request input_id m else Inr m)
       (iter (ed_get_cached_input_ids request)) m"

section \<open>The accounting invariant\<close>

text \<open>\<open>sz\<close> gives the number of embeddings of each item; items are identified by a hash of their content,
  so the same identifier always has the same size.\<close>

definition ec_inv :: "(string \<Rightarrow> int) \<Rightarrow> EncoderCacheManager \<Rightarrow> bool" where
  "ec_inv sz m \<longleftrightarrow>
     finite (dom (cached m)) \<and> distinct (map fst (freeable m)) \<and>
     (\<forall>h. h \<in> fst ` set (freeable m) \<longleftrightarrow> cached m h = Some {}) \<and>
     (\<forall>(h, n) \<in> set (freeable m). n = sz h) \<and>
     num_free_slots m = cache_size m - (\<Sum>h\<in>dom (cached m). sz h) \<and>
     num_freeable_slots m = num_free_slots m + sum_list (map snd (freeable m)) \<and>
     0 \<le> num_free_slots m \<and> (\<forall>h. 0 \<le> sz h)"

definition sized :: "(string \<Rightarrow> int) \<Rightarrow> Request \<Rightarrow> bool" where
  "sized sz r \<longleftrightarrow> (\<forall>f\<in>set (mm_features r). get_num_embeds (mm_position f) = sz (mm_identifier f))"

lemma input_access:
  assumes "sized sz r" "0 \<le> i" "i < int (length (mm_features r))"
  obtains h where "input_hash r i = Inr h" "get_num_encoder_embeds r i = Inr (sz h)"
    "h = mm_identifier (mm_features r ! nat i)"
proof -
  let ?f = "mm_features r ! nat i"
  have "nth_r (mm_features r) i = Inr ?f" using assms(2,3) by (simp add: nth_r_eq_Inr)
  moreover have "?f \<in> set (mm_features r)" using assms(2,3) by simp
  ultimately show thesis using that[of "mm_identifier ?f"] assms
    by (simp add: input_hash_def get_num_encoder_embeds_def sized_def)
qed

lemma ec_inv_init: "0 \<le> c \<Longrightarrow> (\<And>h. 0 \<le> sz h) \<Longrightarrow> ec_inv sz (ecm_init c)"
  by (simp add: ec_inv_def ecm_init_def)

lemma ec_inv_reset: "ec_inv sz m \<Longrightarrow> ec_inv sz (ecm_reset m)"
  using sum_nonneg[of "dom (cached m)" sz] by (simp add: ec_inv_def ecm_reset_def)

lemma freeable_nonneg: "ec_inv sz m \<Longrightarrow> 0 \<le> sum_list (map snd (freeable m))"
  by (intro sum_list_nonneg) (auto simp: ec_inv_def)

lemma ec_inv_bounds:
  assumes "ec_inv sz m"
  shows "0 \<le> num_free_slots m \<and> num_free_slots m \<le> num_freeable_slots m \<and> num_freeable_slots m \<le> cache_size m"
proof -
  have fr: "sum_list (map snd (freeable m)) = (\<Sum>h\<in>fst ` set (freeable m). sz h)"
  proof -
    have "sum_list (map snd (freeable m)) = sum_list (map (\<lambda>p. sz (fst p)) (freeable m))"
      using assms by (intro arg_cong[of _ _ sum_list] map_cong) (auto simp: ec_inv_def)
    also have "\<dots> = (\<Sum>h\<in>set (map fst (freeable m)). sz h)"
      using assms sum_list_distinct_conv_sum_set[of "map fst (freeable m)" sz] by (simp add: ec_inv_def o_def)
    finally show ?thesis by simp
  qed
  have "(\<Sum>h\<in>fst ` set (freeable m). sz h) \<le> (\<Sum>h\<in>dom (cached m). sz h)"
    using assms by (intro sum_mono2) (auto simp: ec_inv_def dom_def)
  then show ?thesis using assms fr freeable_nonneg[OF assms] by (simp add: ec_inv_def)
qed

section \<open>Every operation keeps it\<close>

lemma sum_list_delete:
  "distinct (map fst xs) \<Longrightarrow> map_of xs k = Some v \<Longrightarrow> sum_list (map snd (AList.delete k xs)) = sum_list (map snd xs) - (v :: int)"
proof (induction xs)
  case (Cons p xs)
  show ?case
  proof (cases "fst p = k")
    case True
    then have "AList.delete k xs = xs" using Cons.prems(1) by (auto simp: delete_id)
    then show ?thesis using True Cons.prems by (cases p) (simp add: delete_simps)
  next
    case False
    then show ?thesis using Cons by (cases p) (simp add: delete_simps)
  qed
qed simp

lemma keys_delete: "fst ` set (AList.delete k xs) = fst ` set xs - {k}"
  by (auto simp: AList.delete_eq image_iff)

lemma freeable_size: "ec_inv sz m \<Longrightarrow> cached m h = Some {} \<Longrightarrow> map_of (freeable m) h = Some (sz h)"
proof -
  assume inv: "ec_inv sz m" and h: "cached m h = Some {}"
  then obtain n where "(h, n) \<in> set (freeable m)" by (fastforce simp: ec_inv_def)
  then show ?thesis using inv by (fastforce simp: ec_inv_def intro!: map_of_is_SomeI)
qed

lemma ec_inv_rereference:
  assumes inv: "ec_inv sz m" and h: "cached m h = Some {}"
  shows "ec_inv sz (m\<lparr>freeable := AList.delete h (freeable m), num_freeable_slots := num_freeable_slots m - sz h,
    cached := (cached m)(h \<mapsto> {x})\<rparr>)"
proof -
  have "dom ((cached m)(h \<mapsto> {x})) = dom (cached m)" using h by auto
  moreover have "set (AList.delete h (freeable m)) \<subseteq> set (freeable m)" by (auto simp: AList.delete_eq)
  ultimately show ?thesis
    using inv sum_list_delete[of "freeable m" h "sz h"] freeable_size[OF inv h]
    by (auto simp: ec_inv_def keys_delete distinct_delete)
qed

lemma ec_inv_add_reference:
  assumes inv: "ec_inv sz m" and h: "cached m h = Some S" "S \<noteq> {}" "S' \<noteq> {}"
  shows "ec_inv sz (m\<lparr>cached := (cached m)(h \<mapsto> S')\<rparr>)"
proof -
  have "dom ((cached m)(h \<mapsto> S')) = dom (cached m)" using h by auto
  then show ?thesis using inv h by (auto simp: ec_inv_def)
qed

lemma update_new: "k \<notin> fst ` set xs \<Longrightarrow> AList.update k v xs = xs @ [(k, v)]"
  by (induction xs) auto

lemma ec_inv_release:
  assumes inv: "ec_inv sz m" and h: "cached m h = Some S" "S \<noteq> {}"
  shows "ec_inv sz (m\<lparr>cached := (cached m)(h \<mapsto> {}), freeable := AList.update h (sz h) (freeable m),
    num_freeable_slots := num_freeable_slots m + sz h\<rparr>)"
proof -
  have new: "h \<notin> fst ` set (freeable m)" using inv h by (auto simp: ec_inv_def)
  then have "AList.update h (sz h) (freeable m) = freeable m @ [(h, sz h)]" by (rule update_new)
  moreover have "dom ((cached m)(h \<mapsto> {})) = dom (cached m)" using h by auto
  ultimately show ?thesis using inv new by (auto simp: ec_inv_def)
qed

lemma ec_inv_evict:
  assumes inv: "ec_inv sz m" and f: "freeable m = (h, n) # rest"
  shows "cached m h = Some {}" "n = sz h"
    "ec_inv sz (m\<lparr>freeable := rest, cached := (cached m)(h := None), freed := fr, num_free_slots := num_free_slots m + n\<rparr>)"
proof -
  show h: "cached m h = Some {}" and n: "n = sz h" using inv f by (auto simp: ec_inv_def)
  have "(\<Sum>x\<in>dom (cached m). sz x) = sz h + (\<Sum>x\<in>dom (cached m) - {h}. sz x)"
    using h inv by (intro sum.remove) (auto simp: ec_inv_def)
  moreover have "dom ((cached m)(h := None)) = dom (cached m) - {h}" by auto
  moreover have "0 \<le> num_free_slots m + n" using inv n by (simp add: ec_inv_def)
  ultimately show "ec_inv sz (m\<lparr>freeable := rest, cached := (cached m)(h := None), freed := fr, num_free_slots := num_free_slots m + n\<rparr>)"
    using inv f n by (auto simp: ec_inv_def)
qed

lemma ec_inv_allocate:
  assumes inv: "ec_inv sz m" and h: "cached m h = None" "sz h \<le> num_free_slots m"
  shows "ec_inv sz (m\<lparr>cached := (cached m)(h \<mapsto> {x}), num_free_slots := num_free_slots m - sz h,
    num_freeable_slots := num_freeable_slots m - sz h\<rparr>)"
proof -
  have "dom ((cached m)(h \<mapsto> {x})) = insert h (dom (cached m))" "h \<notin> dom (cached m)" using h by auto
  then show ?thesis using inv h by (auto simp: ec_inv_def)
qed

lemma check_and_update_cache_spec:
  assumes inv: "ec_inv sz m" and r: "sized sz r" "0 \<le> i" "i < int (length (mm_features r))"
  obtains b m' where "check_and_update_cache r i m = Inr (b, m')" "ec_inv sz m'"
    "b \<longleftrightarrow> cached m (mm_identifier (mm_features r ! nat i)) \<noteq> None"
    "freed m' = freed m" "num_free_slots m' = num_free_slots m" "cache_size m' = cache_size m"
proof -
  obtain h where h: "input_hash r i = Inr h" "h = mm_identifier (mm_features r ! nat i)" using input_access[OF r] by metis
  show thesis
  proof (cases "cached m h")
    case None
    then show ?thesis using that[of False m] h inv by (simp add: check_and_update_cache_def)
  next
    case (Some S)
    show ?thesis
    proof (cases "S = {}")
      case True
      with Some show ?thesis
        using that[OF _ ec_inv_rereference[OF inv, of h "request_id r"], of True] h freeable_size[OF inv, of h]
        by (simp add: check_and_update_cache_def)
    next
      case False
      then show ?thesis
        using that[OF _ ec_inv_add_reference[OF inv Some False, of "insert (request_id r) S"], of True] h Some
        by (simp add: check_and_update_cache_def)
    qed
  qed
qed

text \<open>Eviction drops the shortest prefix of the freeable entries that makes enough room.\<close>

lemma evict_until_spec:
  "ec_inv sz m \<Longrightarrow> need \<le> num_freeable_slots m \<Longrightarrow>
     \<exists>m' k. evict_until need m = Inr m' \<and> ec_inv sz m' \<and> need \<le> num_free_slots m' \<and> k \<le> length (freeable m) \<and>
       freeable m' = drop k (freeable m) \<and> freed m' = freed m @ map fst (take k (freeable m)) \<and>
       (\<forall>j<k. num_free_slots m + sum_list (map snd (take j (freeable m))) < need) \<and>
       (\<forall>h. cached m' h = (if h \<in> fst ` set (take k (freeable m)) then None else cached m h)) \<and>
       num_freeable_slots m' = num_freeable_slots m \<and> cache_size m' = cache_size m"
proof (induction "length (freeable m)" arbitrary: m)
  case 0
  then have "num_freeable_slots m = num_free_slots m" by (simp add: ec_inv_def)
  then show ?case using 0 by (intro exI[of _ m] exI[of _ 0]) (subst evict_until.simps, auto)
next
  case (Suc l)
  show ?case
  proof (cases "need \<le> num_free_slots m")
    case True
    then show ?thesis using Suc.prems by (intro exI[of _ m] exI[of _ 0]) (subst evict_until.simps, auto)
  next
    case False
    obtain h n rest where f: "freeable m = (h, n) # rest" using Suc.hyps(2) by (cases "freeable m") auto
    let ?m = "m\<lparr>freeable := rest, cached := (cached m)(h := None), freed := freed m @ [h], num_free_slots := num_free_slots m + n\<rparr>"
    note ev = ec_inv_evict[OF Suc.prems(1) f]
    obtain m' k where IH: "evict_until need ?m = Inr m'" "ec_inv sz m'" "need \<le> num_free_slots m'" "k \<le> length rest"
      "freeable m' = drop k rest" "freed m' = freed m @ [h] @ map fst (take k rest)"
      "\<forall>j<k. num_free_slots m + n + sum_list (map snd (take j rest)) < need"
      "\<forall>x. cached m' x = (if x \<in> fst ` set (take k rest) then None else ((cached m)(h := None)) x)"
      "num_freeable_slots m' = num_freeable_slots m" "cache_size m' = cache_size m"
      using Suc.hyps(1)[OF _ ev(3)[of "freed m @ [h]"]] Suc.hyps(2) Suc.prems(2) f by auto
    have "evict_until need m = Inr m'" using IH(1) False f ev(1) by (subst evict_until.simps) simp
    moreover have "\<forall>j<Suc k. num_free_slots m + sum_list (map snd (take j (freeable m))) < need"
      using IH(7) False f by (auto simp: less_Suc_eq_0_disj)
    moreover have "\<forall>x. cached m' x = (if x \<in> fst ` set (take (Suc k) (freeable m)) then None else cached m x)"
      using IH(8) f by auto
    ultimately show ?thesis using IH f by (intro exI[of _ m'] exI[of _ "Suc k"]) simp
  qed
qed

lemma can_allocate_spec:
  assumes inv: "ec_inv sz m" and r: "sized sz r" "0 \<le> i" "i < int (length (mm_features r))"
    and h: "h = mm_identifier (mm_features r ! nat i)"
  shows "\<exists>m' k. can_allocate r i budget sched m = Inr (sz h \<le> budget \<and> sz h + sched \<le> num_freeable_slots m, m') \<and> ec_inv sz m' \<and>
      (sz h \<le> budget \<and> sz h + sched \<le> num_freeable_slots m \<longrightarrow> sz h + sched \<le> num_free_slots m') \<and>
      k \<le> length (freeable m) \<and> freeable m' = drop k (freeable m) \<and> freed m' = freed m @ map fst (take k (freeable m)) \<and>
      (\<forall>j<k. num_free_slots m + sum_list (map snd (take j (freeable m))) < sz h + sched) \<and>
      (\<forall>x. cached m' x = (if x \<in> fst ` set (take k (freeable m)) then None else cached m x)) \<and>
      num_freeable_slots m' = num_freeable_slots m \<and> cache_size m' = cache_size m"
proof -
  have e: "get_num_encoder_embeds r i = Inr (sz h)" using input_access[OF r] h by metis
  have le: "num_free_slots m \<le> num_freeable_slots m" using ec_inv_bounds[OF inv] by simp
  show ?thesis
  proof (cases "sz h \<le> budget \<and> num_free_slots m < sz h + sched \<and> sz h + sched \<le> num_freeable_slots m")
    case True
    then obtain m' k where ev: "evict_until (sz h + sched) m = Inr m'" "ec_inv sz m' \<and> sz h + sched \<le> num_free_slots m' \<and> k \<le> length (freeable m) \<and>
       freeable m' = drop k (freeable m) \<and> freed m' = freed m @ map fst (take k (freeable m)) \<and>
       (\<forall>j<k. num_free_slots m + sum_list (map snd (take j (freeable m))) < sz h + sched) \<and>
       (\<forall>h. cached m' h = (if h \<in> fst ` set (take k (freeable m)) then None else cached m h)) \<and>
       num_freeable_slots m' = num_freeable_slots m \<and> cache_size m' = cache_size m"
      using evict_until_spec[OF inv, of "sz h + sched"] by blast
    have "can_allocate r i budget sched m = Inr (sz h \<le> budget \<and> sz h + sched \<le> num_freeable_slots m, m')"
      using True ev(1) e by (simp add: can_allocate_def)
    then show ?thesis using ev(2) by blast
  next
    case False
    then have "can_allocate r i budget sched m = Inr (sz h \<le> budget \<and> sz h + sched \<le> num_freeable_slots m, m)"
      using e le by (auto simp: can_allocate_def)
    then show ?thesis using inv False by (intro exI[of _ m] exI[of _ 0]) auto
  qed
qed

lemma ecm_allocate_spec:
  assumes inv: "ec_inv sz m" and r: "sized sz r" "0 \<le> i" "i < int (length (mm_features r))"
    and h: "h = mm_identifier (mm_features r ! nat i)" "cached m h = None" "sz h \<le> num_free_slots m"
  obtains m' where "ecm_allocate r i m = Inr m'" "ec_inv sz m'" "cached m' = (cached m)(h \<mapsto> {request_id r})"
    "num_free_slots m' = num_free_slots m - sz h" "cache_size m' = cache_size m" "freed m' = freed m"
proof -
  have "input_hash r i = Inr h" "get_num_encoder_embeds r i = Inr (sz h)" using input_access[OF r] h(1) by metis+
  moreover have "num_free_slots m \<le> num_freeable_slots m" using ec_inv_bounds[OF inv] by simp
  ultimately show thesis using that[OF _ ec_inv_allocate[OF inv h(2,3), of "request_id r"]] h
    by (simp add: ecm_allocate_def assert_r_def)
qed

lemma free_encoder_input_spec:
  assumes inv: "ec_inv sz m" and r: "sized sz r" "0 \<le> i" "i < int (length (mm_features r))"
  shows "\<exists>m'. free_encoder_input r i m = Inr m' \<and> ec_inv sz m' \<and> cache_size m' = cache_size m \<and>
    (\<forall>x. cached m' x = (if x = mm_identifier (mm_features r ! nat i)
        then map_option (\<lambda>S. S - {request_id r}) (cached m x) else cached m x))"
proof -
  obtain h where h: "input_hash r i = Inr h" "get_num_encoder_embeds r i = Inr (sz h)" "mm_identifier (mm_features r ! nat i) = h"
    using input_access[OF r] by metis
  show ?thesis
  proof (cases "cached m h")
    case None
    then show ?thesis using h inv by (intro exI[of _ m]) (simp add: free_encoder_input_def)
  next
    case (Some S)
    consider "S = {}" | "S \<noteq> {}" "S - {request_id r} = {}" | "S - {request_id r} \<noteq> {}" by blast
    then show ?thesis
    proof cases
      case 1
      then show ?thesis using h inv Some by (intro exI[of _ m]) (simp add: free_encoder_input_def)
    next
      case 2
      then have "S = {request_id r}" by auto
      then show ?thesis using ec_inv_release[OF inv Some 2(1)] h Some
        by (simp add: free_encoder_input_def Let_def)
    next
      case 3
      then have "S \<noteq> {}" by blast
      then show ?thesis using ec_inv_add_reference[OF inv Some _ 3] h Some 3
        by (simp add: free_encoder_input_def Let_def)
    qed
  qed
qed

definition set_order :: "(int set \<Rightarrow> int list) \<Rightarrow> bool" where
  "set_order iter \<longleftrightarrow> (\<forall>S. finite S \<longrightarrow> set (iter S) = S \<and> distinct (iter S))"

lemma fold_free_spec:
  assumes "ec_inv sz m" "sized sz r" "\<forall>i\<in>set is. 0 \<le> i \<and> i < int (length (mm_features r))"
  shows "\<exists>m'. fold_r (free_encoder_input r) is m = Inr m' \<and> ec_inv sz m' \<and> cache_size m' = cache_size m \<and>
    (\<forall>h. cached m' h = (if \<exists>i\<in>set is. h = mm_identifier (mm_features r ! nat i)
        then map_option (\<lambda>S. S - {request_id r}) (cached m h) else cached m h))"
  using assms
proof (induction "is" arbitrary: m)
  case (Cons i "is")
  have i: "0 \<le> i" "i < int (length (mm_features r))" using Cons.prems(3) by auto
  obtain m1 where m1: "free_encoder_input r i m = Inr m1" "ec_inv sz m1" "cache_size m1 = cache_size m"
    and step: "\<And>x. cached m1 x = (if x = mm_identifier (mm_features r ! nat i)
        then map_option (\<lambda>S. S - {request_id r}) (cached m x) else cached m x)"
    using free_encoder_input_spec[OF Cons.prems(1,2) i] by blast
  obtain m' where m': "fold_r (free_encoder_input r) is m1 = Inr m'" "ec_inv sz m'" "cache_size m' = cache_size m1"
    "\<And>h. cached m' h = (if \<exists>i\<in>set is. h = mm_identifier (mm_features r ! nat i)
        then map_option (\<lambda>S. S - {request_id r}) (cached m1 h) else cached m1 h)"
    using Cons.IH[OF m1(2) Cons.prems(2)] Cons.prems(3) by (meson list.set_intros(2))
  have "cached m' h = (if \<exists>i\<in>set (i # is). h = mm_identifier (mm_features r ! nat i)
        then map_option (\<lambda>S. S - {request_id r}) (cached m h) else cached m h)" for h
    unfolding m'(4) step by (cases "cached m h") auto
  then show ?case using m'(1-3) m1(1,3) by (intro exI[of _ m']) simp
qed simp

inductive ec_reach :: "(string \<Rightarrow> int) \<Rightarrow> int \<Rightarrow> EncoderCacheManager \<Rightarrow> bool" for sz :: "string \<Rightarrow> int" and c :: int where
  reach_init: "ec_reach sz c (ecm_init c)"
| reach_reset: "ec_reach sz c m \<Longrightarrow> ec_reach sz c (ecm_reset m)"
| reach_check: "ec_reach sz c m \<Longrightarrow> sized sz r \<Longrightarrow> 0 \<le> i \<Longrightarrow> i < int (length (mm_features r)) \<Longrightarrow>
    check_and_update_cache r i m = Inr (b, m') \<Longrightarrow> ec_reach sz c m'"
| reach_can: "ec_reach sz c m \<Longrightarrow> sized sz r \<Longrightarrow> 0 \<le> i \<Longrightarrow> i < int (length (mm_features r)) \<Longrightarrow>
    can_allocate r i budget sched m = Inr (b, m') \<Longrightarrow> ec_reach sz c m'"
| reach_allocate: "ec_reach sz c m \<Longrightarrow> sized sz r \<Longrightarrow> 0 \<le> i \<Longrightarrow> i < int (length (mm_features r)) \<Longrightarrow>
    cached m (mm_identifier (mm_features r ! nat i)) = None \<Longrightarrow> ecm_allocate r i m = Inr m' \<Longrightarrow> ec_reach sz c m'"
| reach_free_input: "ec_reach sz c m \<Longrightarrow> sized sz r \<Longrightarrow> 0 \<le> i \<Longrightarrow> i < int (length (mm_features r)) \<Longrightarrow>
    free_encoder_input r i m = Inr m' \<Longrightarrow> ec_reach sz c m'"
| reach_free: "ec_reach sz c m \<Longrightarrow> sized sz r \<Longrightarrow> set_order iter \<Longrightarrow> ecm_free iter r m = Inr m' \<Longrightarrow> ec_reach sz c m'"
| reach_freed: "ec_reach sz c m \<Longrightarrow> ec_reach sz c (snd (get_freed_mm_hashes m))"

lemma ecm_free_spec:
  assumes "ec_inv sz m" "sized sz r" "set_order iter"
  shows "\<exists>m'. ecm_free iter r m = Inr m' \<and> ec_inv sz m' \<and> cache_size m' = cache_size m \<and>
    (\<forall>h. cached m' h = (if h \<in> mm_identifier ` set (mm_features r)
        then map_option (\<lambda>S. S - {request_id r}) (cached m h) else cached m h))"
proof -
  let ?ids = "get_cached_input_ids r m"
  have fin: "set (iter ?ids) = ?ids" using assms(3) by (simp add: set_order_def get_cached_input_ids_def)
  have ids: "(\<exists>i\<in>?ids. h = mm_identifier (mm_features r ! nat i)) \<longleftrightarrow> h \<in> mm_identifier ` set (mm_features r)" if "cached m h \<noteq> None" for h
  proof -
    have "?ids = int ` {k. k < length (mm_features r) \<and> cached m (mm_identifier (mm_features r ! k)) \<noteq> None}"
      by (auto simp: get_cached_input_ids_def)
    then have "(\<exists>i\<in>?ids. h = mm_identifier (mm_features r ! nat i)) \<longleftrightarrow> (\<exists>k<length (mm_features r). h = mm_identifier (mm_features r ! k))"
      using that by auto
    then show ?thesis by (metis (no_types, lifting) image_iff in_set_conv_nth)
  qed
  have "\<forall>i\<in>set (iter ?ids). 0 \<le> i \<and> i < int (length (mm_features r))" unfolding fin by (auto simp: get_cached_input_ids_def)
  from fold_free_spec[OF assms(1,2) this] obtain m' where m': "ecm_free iter r m = Inr m'" "ec_inv sz m'" "cache_size m' = cache_size m"
    "\<And>h. cached m' h = (if \<exists>i\<in>?ids. h = mm_identifier (mm_features r ! nat i)
        then map_option (\<lambda>S. S - {request_id r}) (cached m h) else cached m h)"
    unfolding fin ecm_free_def by blast
  have "cached m' h = (if h \<in> mm_identifier ` set (mm_features r)
        then map_option (\<lambda>S. S - {request_id r}) (cached m h) else cached m h)" for h
    using m'(4)[of h] ids[of h] by (cases "cached m h") auto
  with m' show ?thesis by blast
qed

lemma ec_reach_inv: "ec_reach sz c m \<Longrightarrow> 0 \<le> c \<Longrightarrow> (\<And>h. 0 \<le> sz h) \<Longrightarrow> ec_inv sz m \<and> cache_size m = c"
proof (induction rule: ec_reach.induct)
  case reach_init
  then show ?case by (simp add: ec_inv_init) (simp add: ecm_init_def)
next
  case (reach_reset m)
  then show ?case by (simp add: ec_inv_reset) (simp add: ecm_reset_def)
next
  case (reach_check m r i b m')
  then show ?case using check_and_update_cache_spec[of sz m r i] by (metis prod.inject sum.inject(2))
next
  case (reach_can m r i budget sched b m')
  then show ?case using can_allocate_spec[of sz m r i _ budget sched] by fastforce
next
  case (reach_allocate m r i m')
  let ?h = "mm_identifier (mm_features r ! nat i)"
  have inv: "ec_inv sz m" and cs: "cache_size m = c" using reach_allocate by auto
  have "get_num_encoder_embeds r i = Inr (sz ?h)" using input_access[OF reach_allocate(2-4)] by metis
  then have "sz ?h \<le> num_free_slots m"
    using reach_allocate(6) by (auto simp: ecm_allocate_def result_simps Let_def split: if_splits)
  from ecm_allocate_spec[OF inv reach_allocate(2-4) refl reach_allocate(5) this] show ?case
    using reach_allocate(6) cs by (metis sum.inject(2))
next
  case (reach_free_input m r i m')
  then show ?case using free_encoder_input_spec[of sz m r i] by auto
next
  case (reach_free m r iter m')
  then show ?case using ecm_free_spec[of sz m r iter] by auto
next
  case (reach_freed m)
  then show ?case by (simp add: get_freed_mm_hashes_def ec_inv_def)
qed

section \<open>What the manager guarantees\<close>

definition sample_feature :: MultiModalFeatureSpec where
  "sample_feature = \<lparr>modality = ''image'', mm_identifier = ''img'',
     mm_position = \<lparr>mm_offset = 0, mm_length = 4, is_embed = None\<rparr>, mm_hash = None\<rparr>"

definition sample_mm_request :: Request where
  "sample_mm_request = (projr (request_init 1
     \<lparr>ec_request_id = ''r'', ec_prompt_token_ids = Some [0, 0, 0, 0], ec_prompt_embeds = None, ec_mm_features = Some [sample_feature],
      ec_sampling_params = None, ec_pooling_params = Some \<lparr>pp_skip_reading_prefix_cache = None\<rparr>, ec_arrival_time = 0,
      ec_lora_request = None, ec_cache_salt = None, ec_priority = 0, ec_resumable = False\<rparr> None))"

lemma sample_mm_request_fields: "mm_features sample_mm_request = [sample_feature]" "request_id sample_mm_request = ''r''"
  by (simp_all add: sample_mm_request_def request_init_def length_from_prompt_token_ids_or_embeds_def update_block_hashes_def)

lemma sample_mm_request_sized: "sized (\<lambda>_. 4) sample_mm_request"
  by (simp add: sized_def sample_mm_request_fields sample_feature_def get_num_embeds_def embeds_cumsum_def)

lemma sample_filled:
  "\<exists>m. ecm_allocate sample_mm_request 0 (ecm_init 8) = Inr m \<and> ec_reach (\<lambda>_. 4) 8 m
     \<and> cached m = [''img'' \<mapsto> {request_id sample_mm_request}]"
proof -
  obtain m where m: "ecm_allocate sample_mm_request 0 (ecm_init 8) = Inr m" "cached m = [''img'' \<mapsto> {request_id sample_mm_request}]"
    by (simp add: ecm_allocate_def ecm_init_def input_hash_def nth_r_def sample_mm_request_fields sample_feature_def
        get_num_encoder_embeds_def assert_r_def get_num_embeds_def embeds_cumsum_def)
  have "ec_reach (\<lambda>_. 4) 8 m"
    by (rule reach_allocate[OF reach_init sample_mm_request_sized _ _ _ m(1)]) (simp_all add: sample_mm_request_fields ecm_init_def)
  with m show ?thesis by blast
qed

text \<open>C12: In every reachable state the free capacity, the capacity that can be reclaimed and the cache size are ordered, the
  entries in the cache account for exactly the used capacity, and the reclaimable entries are exactly
  those no request refers to.\<close>

theorem encoder_cache_accounting:
  assumes "ec_reach sz c m" "0 \<le> c" "\<And>h. 0 \<le> sz h"
  shows "0 \<le> num_free_slots m \<and> num_free_slots m \<le> num_freeable_slots m \<and> num_freeable_slots m \<le> c
    \<and> num_free_slots m + (\<Sum>h\<in>dom (cached m). sz h) = c
    \<and> num_freeable_slots m = num_free_slots m + sum_list (map snd (freeable m))
    \<and> fst ` set (freeable m) = {h. cached m h = Some {}} \<and> distinct (map fst (freeable m))"
proof -
  have inv: "ec_inv sz m" "cache_size m = c" using ec_reach_inv[OF assms] by auto
  then show ?thesis using ec_inv_bounds[OF inv(1)] by (auto simp: ec_inv_def)
qed

theorem encoder_cache_accounting_witness:
  "\<exists>m. ecm_allocate sample_mm_request 0 (ecm_init 8) = Inr m \<and> num_free_slots m = 4 \<and> num_freeable_slots m \<le> 8
     \<and> fst ` set (freeable m) = {}"
proof -
  obtain m where m: "ecm_allocate sample_mm_request 0 (ecm_init 8) = Inr m" "ec_reach (\<lambda>_. 4) 8 m"
    "cached m = [''img'' \<mapsto> {request_id sample_mm_request}]"
    using sample_filled by blast
  from encoder_cache_accounting[OF m(2)] m(1,3) show ?thesis by (intro exI[of _ m]) (simp split: if_splits)
qed

text \<open>C13: When \<open>can_allocate\<close> returns True for an item that is not cached, it has evicted the shortest run of the oldest
  unreferenced entries, every referenced entry is still cached with its references, and \<open>allocate\<close>
  then succeeds and caches the item for the request.  It returns True exactly if the item fits the
  compute budget and, with the embeddings already scheduled, the reclaimable capacity; the documentation of
  \<open>can_allocate\<close> mentions the second reason for False only.\<close>

theorem can_allocate_then_allocate:
  assumes reach: "ec_reach sz c m" "0 \<le> c" "\<And>h. 0 \<le> sz h" and r: "sized sz r" "0 \<le> i" "i < int (length (mm_features r))"
    and h: "h = mm_identifier (mm_features r ! nat i)" "cached m h = None" and sched: "0 \<le> sched"
  shows "\<exists>m1 k. can_allocate r i budget sched m = Inr (sz h \<le> budget \<and> sz h + sched \<le> num_freeable_slots m, m1)
    \<and> freed m1 = freed m @ map fst (take k (freeable m))
    \<and> (\<forall>j<k. num_free_slots m + sum_list (map snd (take j (freeable m))) < sz h + sched)
    \<and> (\<forall>x S. cached m x = Some S \<and> S \<noteq> {} \<longrightarrow> cached m1 x = Some S)
    \<and> (sz h \<le> budget \<and> sz h + sched \<le> num_freeable_slots m \<longrightarrow>
         (\<exists>m2. ecm_allocate r i m1 = Inr m2 \<and> cached m2 = (cached m1)(h \<mapsto> {request_id r})
            \<and> num_free_slots m2 = num_free_slots m1 - sz h \<and> sched \<le> num_free_slots m2))"
proof -
  have inv: "ec_inv sz m" using ec_reach_inv[OF reach] by simp
  from can_allocate_spec[OF inv r h(1)] obtain m1 k where
    can: "can_allocate r i budget sched m = Inr (sz h \<le> budget \<and> sz h + sched \<le> num_freeable_slots m, m1)" "ec_inv sz m1"
      "sz h \<le> budget \<and> sz h + sched \<le> num_freeable_slots m \<longrightarrow> sz h + sched \<le> num_free_slots m1"
      "freed m1 = freed m @ map fst (take k (freeable m))"
      "\<forall>j<k. num_free_slots m + sum_list (map snd (take j (freeable m))) < sz h + sched"
      "\<forall>x. cached m1 x = (if x \<in> fst ` set (take k (freeable m)) then None else cached m x)" by blast
  have "\<forall>x S. cached m x = Some S \<and> S \<noteq> {} \<longrightarrow> cached m1 x = Some S"
  proof (intro allI impI)
    fix x S assume x: "cached m x = Some S \<and> S \<noteq> {}"
    then have "x \<notin> fst ` set (freeable m)" using inv by (auto simp: ec_inv_def)
    then have "x \<notin> fst ` set (take k (freeable m))" using set_take_subset by fastforce
    then show "cached m1 x = Some S" using can(6) x by simp
  qed
  moreover have "cached m1 h = None" using can(6) h(2) by simp
  then have "\<exists>m2. ecm_allocate r i m1 = Inr m2 \<and> cached m2 = (cached m1)(h \<mapsto> {request_id r})
            \<and> num_free_slots m2 = num_free_slots m1 - sz h \<and> sched \<le> num_free_slots m2"
    if "sz h \<le> budget \<and> sz h + sched \<le> num_freeable_slots m"
  proof -
    have free: "sz h + sched \<le> num_free_slots m1" using can(3) that by blast
    then have "sz h \<le> num_free_slots m1" using sched by linarith
    from ecm_allocate_spec[OF can(2) r h(1) \<open>cached m1 h = None\<close> this] show ?thesis using free by (metis add_le_imp_le_diff add.commute)
  qed
  ultimately show ?thesis using can(1,4,5) by blast
qed

theorem can_allocate_then_allocate_witness:
  "\<exists>m1. can_allocate sample_mm_request 0 16 0 (ecm_init 8) = Inr (True, m1) \<and>
     (\<exists>m2. ecm_allocate sample_mm_request 0 m1 = Inr m2 \<and> num_free_slots m2 = num_free_slots m1 - 4)"
  using can_allocate_then_allocate[OF reach_init, of 8 "\<lambda>_. 4" sample_mm_request 0 "''img''" 0 16]
  by (fastforce simp: sample_mm_request_sized sample_mm_request_fields sample_feature_def ecm_init_def)

text \<open>C21: Freeing a request returns without an error and removes its references: afterwards none of its inputs is referenced by
  it, the references of other requests and all other entries are unchanged.\<close>

theorem free_removes_references:
  assumes "ec_reach sz c m" "0 \<le> c" "\<And>h. 0 \<le> sz h" "sized sz r" "set_order iter"
  shows "\<exists>m'. ecm_free iter r m = Inr m' \<and> (\<forall>h. cached m' h = (if h \<in> mm_identifier ` set (mm_features r)
        then map_option (\<lambda>S. S - {request_id r}) (cached m h) else cached m h))"
  using ecm_free_spec[OF _ assms(4,5)] ec_reach_inv[OF assms(1-3)] by blast

theorem free_removes_references_witness:
  "\<exists>m m'. ecm_allocate sample_mm_request 0 (ecm_init 8) = Inr m \<and> cached m ''img'' \<noteq> Some {}
     \<and> ecm_free sorted_list_of_set sample_mm_request m = Inr m' \<and> cached m' ''img'' = Some {}"
proof -
  obtain m where m: "ecm_allocate sample_mm_request 0 (ecm_init 8) = Inr m" "ec_reach (\<lambda>_. 4) 8 m"
    "cached m = [''img'' \<mapsto> {request_id sample_mm_request}]"
    using sample_filled by blast
  from free_removes_references[OF m(2) _ _ sample_mm_request_sized, of sorted_list_of_set] obtain m' where
    "ecm_free sorted_list_of_set sample_mm_request m = Inr m'" "cached m' ''img'' = Some {}"
    using m(3) by (fastforce simp: set_order_def sample_mm_request_fields sample_feature_def)
  with m(1,3) show ?thesis by (intro exI[of _ m] exI[of _ m']) simp
qed

lemma ed_fold_free:
  "set is \<subseteq> {0..<int (length (mm_features r))} \<Longrightarrow> 0 < num_computed_tokens r \<Longrightarrow>
     fold_r (\<lambda>i m. if 0 < num_computed_tokens r \<or> input_done r i then ed_free_encoder_input r i m else Inr m) is m =
       Inr (m\<lparr>ed_num_free_slots := ed_num_free_slots m + (\<Sum>i\<leftarrow>is. get_num_embeds (mm_position (mm_features r ! nat i)))\<rparr>)"
proof (induction "is" arbitrary: m)
  case (Cons i "is")
  then have "nth_r (mm_features r) i = Inr (mm_features r ! nat i)" "i < int (length (mm_features r))"
    by (simp_all add: nth_r_eq_Inr)
  then have "get_num_encoder_embeds r i = Inr (get_num_embeds (mm_position (mm_features r ! nat i)))"
    by (simp add: get_num_encoder_embeds_def assert_r_def)
  then show ?case using Cons by (simp add: ed_free_encoder_input_def add.assoc)
qed simp

lemma ed_free_encoder_inputs_adds:
  assumes "set_order iter" "0 < num_computed_tokens r"
  shows "ed_free_encoder_inputs iter r m =
    Inr (m\<lparr>ed_num_free_slots := ed_num_free_slots m + (\<Sum>f\<leftarrow>mm_features r. get_num_embeds (mm_position f))\<rparr>)"
proof -
  let ?n = "length (mm_features r)" let ?g = "\<lambda>i. get_num_embeds (mm_position (mm_features r ! nat i))"
  let ?is = "iter (ed_get_cached_input_ids r)"
  have it: "set ?is = int ` {0..<?n}" "distinct ?is"
    using assms(1) by (simp_all add: set_order_def ed_get_cached_input_ids_def)
  have "(\<Sum>i\<leftarrow>?is. ?g i) = (\<Sum>k\<in>{0..<?n}. get_num_embeds (mm_position (mm_features r ! k)))"
    using it by (simp add: sum_list_distinct_conv_sum_set sum.reindex)
  also have "\<dots> = (\<Sum>f\<leftarrow>mm_features r. get_num_embeds (mm_position f))"
    by (simp add: sum_list_sum_nth)
  finally have total: "(\<Sum>i\<leftarrow>?is. ?g i) = (\<Sum>f\<leftarrow>mm_features r. get_num_embeds (mm_position f))" .
  have "set ?is \<subseteq> {0..<int ?n}" using it(1) by auto
  from ed_fold_free[OF this assms(2), of m] show ?thesis unfolding ed_free_encoder_inputs_def total .
qed

text \<open>C38: For an encoder-decoder model every later step of a request adds the size of its encoder inputs to the free
  capacity again: \<open>n\<close> calls of \<open>_free_encoder_inputs\<close> after the first computed token add it \<open>n\<close> times, so
  after one allocation and two steps the free capacity exceeds the cache size.\<close>

theorem encoder_decoder_overfree:
  assumes "set_order iter" "0 < num_computed_tokens r"
  shows "fold_r (\<lambda>_. ed_free_encoder_inputs iter r) (replicate n ()) m =
    Inr (m\<lparr>ed_num_free_slots := ed_num_free_slots m + int n * (\<Sum>f\<leftarrow>mm_features r. get_num_embeds (mm_position f))\<rparr>)"
proof (induction n arbitrary: m)
  case (Suc n)
  then show ?case by (simp add: ed_free_encoder_inputs_adds[OF assms] algebra_simps)
qed simp

theorem encoder_decoder_overfree_witness:
  "let r = sample_mm_request\<lparr>num_computed_tokens := 1\<rparr>
   in map_r ed_num_free_slots (bind_r (ed_allocate r 0 (ed_init 8))
       (fold_r (\<lambda>_. ed_free_encoder_inputs sorted_list_of_set r) (replicate 2 ()))) = Inr 12"
  using encoder_decoder_overfree[of sorted_list_of_set "sample_mm_request\<lparr>num_computed_tokens := 1\<rparr>" 2]
  by (simp add: Let_def sample_mm_request_fields sample_feature_def input_hash_def get_num_encoder_embeds_def assert_r_def
      nth_r_def get_num_embeds_def embeds_cumsum_def ed_allocate_def ed_init_def set_order_def)

section \<open>The encoder budget\<close>

text \<open>C29: ValueError is raised exactly if chunking is disabled and some item exceeds the batch.  Otherwise each budget is the
  largest among the configured value and the item sizes, so both admit an item of every modality; without modalities
  both are zero.\<close>

theorem encoder_budget_fits:
  "case compute_mm_encoder_budget cfg items of
     Inl e \<Rightarrow> e = ValueError \<and> disable_chunked_mm_input cfg \<and> list_ex (\<lambda>(k, n). n > mm_max_num_batched_tokens cfg) items
   | Inr (compute, space) \<Rightarrow>
       \<not> (disable_chunked_mm_input cfg \<and> list_ex (\<lambda>(k, n). n > mm_max_num_batched_tokens cfg) items)
       \<and> (if items = [] then compute = 0 \<and> space = 0
          else compute = Max (insert (max_num_encoder_input_tokens cfg) (snd ` set items))
             \<and> space = Max (insert (sc_encoder_cache_size cfg) (snd ` set items)))"
proof (cases "items = []")
  case False
  have "Max (snd ` set items) \<in> snd ` set items" using False by (intro Max_in) auto
  then obtain k where "(k, Max (snd ` set items)) \<in> set items" by auto
  moreover have "n \<le> Max (snd ` set items)" if "(k, n) \<in> set items" for k n
    using that by (intro Max_ge) (auto intro: rev_image_eqI)
  ultimately have "list_ex (\<lambda>(k, n). n > b) items \<longleftrightarrow> b < Max (snd ` set items)" for b
    by (force simp: list_ex_iff intro: less_le_trans)
  then show ?thesis using False by (simp add: compute_mm_encoder_budget_def Let_def Max_insert)
qed (simp add: compute_mm_encoder_budget_def)

end
