(* ===== verification/KV_Spec.thy ===== *)
theory KV_Spec
  imports Prelude
begin

text \<open>
  The KV cache specifications of \<open>vllm/v1/kv_cache_interface.py\<close>: quantisation modes, the page size and
  memory bound of every attention type, the merge of the specifications of a group of layers, and the
  uniform-type wrapper.

  The class hierarchy is one record with the class as a tag; a field a class does not have holds its
  default.  A data type is its name with the size of its items in bytes.  Block sizes are positive wherever the code
  divides by them.
\<close>

section \<open>Quantisation modes\<close>

datatype KVQuantMode = QM_NONE | FP8_PER_TENSOR | INT8_PER_TOKEN_HEAD | FP8_PER_TOKEN_HEAD | NVFP4

definition is_per_token_head :: "KVQuantMode \<Rightarrow> bool" where
  "is_per_token_head q \<longleftrightarrow> q \<in> {INT8_PER_TOKEN_HEAD, FP8_PER_TOKEN_HEAD}"

definition is_nvfp4 :: "KVQuantMode \<Rightarrow> bool" where
  "is_nvfp4 q \<longleftrightarrow> q = NVFP4"

definition get_kv_quant_mode :: "string \<Rightarrow> KVQuantMode" where
  "get_kv_quant_mode kv_cache_dtype =
     (if kv_cache_dtype = ''int8_per_token_head'' then INT8_PER_TOKEN_HEAD
      else if kv_cache_dtype = ''fp8_per_token_head'' then FP8_PER_TOKEN_HEAD
      else if kv_cache_dtype = ''nvfp4'' then NVFP4
      else if take 3 kv_cache_dtype = ''fp8'' then FP8_PER_TENSOR
      else QM_NONE)"

definition is_quantized_kv_cache :: "string \<Rightarrow> bool" where
  "is_quantized_kv_cache kv_cache_dtype \<longleftrightarrow> get_kv_quant_mode kv_cache_dtype \<noteq> QM_NONE"

definition kv_cache_uses_per_token_head_scales :: "string \<Rightarrow> bool" where
  "kv_cache_uses_per_token_head_scales kv_cache_dtype = is_per_token_head (get_kv_quant_mode kv_cache_dtype)"

section \<open>Specifications\<close>

datatype torch_dtype = Torch_dtype (dtype_name: string) (itemsize: int)

definition get_dtype_size :: "torch_dtype \<Rightarrow> int" where
  "get_dtype_size d = itemsize d"

datatype spec_class = FullAttentionSpec | TQFullAttentionSpec | MLAAttentionSpec | SinkFullAttentionSpec
  | SlidingWindowSpec | SlidingWindowMLASpec | ChunkedLocalAttentionSpec | MambaSpec | CrossAttentionSpec
  | EncoderOnlyAttentionSpec

record KVCacheSpec =
  spec_class :: spec_class
  block_size :: int
  num_kv_heads :: int
  head_size :: int
  head_size_v :: int
  dtype :: torch_dtype
  kv_quant_mode :: KVQuantMode
  page_size_padded :: "int option"
  sliding_window :: "int option"
  attention_chunk_size :: "int option"
  tq_slot_size :: int
  cache_dtype_str :: "string option"
  alignment :: "int option"
  compress_ratio :: int
  model_version :: "string option"
  sink_len :: "int option"
  shapes :: "int list list"
  dtypes :: "torch_dtype list"
  mamba_cache_mode :: string
  num_speculative_blocks :: int

text \<open>\<open>isinstance(spec, FullAttentionSpec)\<close> and \<open>isinstance(spec, SlidingWindowSpec)\<close>.\<close>

definition is_full :: "KVCacheSpec \<Rightarrow> bool" where
  "is_full s \<longleftrightarrow> spec_class s \<in> {FullAttentionSpec, TQFullAttentionSpec, MLAAttentionSpec, SinkFullAttentionSpec}"

definition is_sliding :: "KVCacheSpec \<Rightarrow> bool" where
  "is_sliding s \<longleftrightarrow> spec_class s \<in> {SlidingWindowSpec, SlidingWindowMLASpec}"

text \<open>The methods, by class.  First the storage block size of the MLA classes.\<close>

definition mla_storage_block_size :: "KVCacheSpec \<Rightarrow> int result" where
  "mla_storage_block_size s =
     bind_r (guard_r (compress_ratio s \<noteq> 0) ZeroDivisionError) (\<lambda>_. Inr (block_size s div compress_ratio s))"

definition sliding_mla_storage_block_size :: "KVCacheSpec \<Rightarrow> int result" where
  "sliding_mla_storage_block_size s =
     bind_r (guard_r (compress_ratio s \<noteq> 0) ZeroDivisionError) (\<lambda>_. Inr (block_size s div compress_ratio s))"

definition storage_block_size :: "KVCacheSpec \<Rightarrow> int result" where
  "storage_block_size s =
     (case spec_class s of
        MLAAttentionSpec \<Rightarrow> mla_storage_block_size s
      | SlidingWindowMLASpec \<Rightarrow> sliding_mla_storage_block_size s
      | _ \<Rightarrow> Inr (block_size s))"

text \<open>\<open>nvfp4_kv_cache_full_dim\<close> of \<open>vllm/utils/torch_utils.py\<close>.\<close>

definition nvfp4_kv_cache_full_dim :: "int \<Rightarrow> int" where
  "nvfp4_kv_cache_full_dim hs = hs div 2 + hs div 16"

definition attention_real_page_size_bytes :: "KVCacheSpec \<Rightarrow> int" where
  "attention_real_page_size_bytes s = 2 * block_size s * num_kv_heads s * head_size s * get_dtype_size (dtype s)"

definition full_real_page_size_bytes :: "KVCacheSpec \<Rightarrow> int" where
  "full_real_page_size_bytes s =
     (if is_nvfp4 (kv_quant_mode s)
      then block_size s * num_kv_heads s * (nvfp4_kv_cache_full_dim (head_size s) + nvfp4_kv_cache_full_dim (head_size_v s)) * get_dtype_size (dtype s)
      else block_size s * num_kv_heads s * (head_size s + head_size_v s) * get_dtype_size (dtype s))"

definition tq_real_page_size_bytes :: "KVCacheSpec \<Rightarrow> int" where
  "tq_real_page_size_bytes s =
     (if tq_slot_size s > 0 then block_size s * num_kv_heads s * tq_slot_size s else full_real_page_size_bytes s)"

definition mla_real_page_size_bytes :: "KVCacheSpec \<Rightarrow> int result" where
  "mla_real_page_size_bytes s =
     (if cache_dtype_str s = Some ''fp8_ds_mla''
      then if model_version s = Some ''deepseek_v4'' then map_r (\<lambda>sb. sb * 584) (storage_block_size s)
           else Inr (block_size s * 656)
      else map_r (\<lambda>sb. sb * num_kv_heads s * head_size s * get_dtype_size (dtype s)) (storage_block_size s))"

definition sliding_real_page_size_bytes :: "KVCacheSpec \<Rightarrow> int" where
  "sliding_real_page_size_bytes s = block_size s * num_kv_heads s * (head_size s + head_size_v s) * get_dtype_size (dtype s)"

definition sliding_mla_real_page_size_bytes :: "KVCacheSpec \<Rightarrow> int result" where
  "sliding_mla_real_page_size_bytes s =
     (if model_version s = Some ''deepseek_v4'' then map_r (\<lambda>sb. sb * 584) (storage_block_size s)
      else bind_r (assert_r (model_version s = None)) (\<lambda>_.
        map_r (\<lambda>sb. sb * num_kv_heads s * head_size s * get_dtype_size (dtype s)) (storage_block_size s)))"

definition real_page_size_bytes :: "KVCacheSpec \<Rightarrow> int result" where
  "real_page_size_bytes s =
     (case spec_class s of
        FullAttentionSpec \<Rightarrow> Inr (full_real_page_size_bytes s)
      | SinkFullAttentionSpec \<Rightarrow> Inr (full_real_page_size_bytes s)
      | TQFullAttentionSpec \<Rightarrow> Inr (tq_real_page_size_bytes s)
      | MLAAttentionSpec \<Rightarrow> mla_real_page_size_bytes s
      | SlidingWindowSpec \<Rightarrow> Inr (sliding_real_page_size_bytes s)
      | SlidingWindowMLASpec \<Rightarrow> sliding_mla_real_page_size_bytes s
      | MambaSpec \<Rightarrow> Inl AttributeError
      | _ \<Rightarrow> Inr (attention_real_page_size_bytes s))"

definition attention_page_size_bytes :: "KVCacheSpec \<Rightarrow> int result" where
  "attention_page_size_bytes s =
     bind_r (real_page_size_bytes s) (\<lambda>real.
     let real_page_size = (if is_per_token_head (kv_quant_mode s) then real + 2 * block_size s * num_kv_heads s * 4 else real)
     in case page_size_padded s of
          None \<Rightarrow> Inr real_page_size
        | Some padded \<Rightarrow> bind_r (assert_r (padded \<ge> real_page_size)) (\<lambda>_. Inr padded))"

definition mamba_page_size_bytes :: "KVCacheSpec \<Rightarrow> int result" where
  "mamba_page_size_bytes s =
     (let page_size = sum_list (map2 (\<lambda>shape d. fold (*) shape 1 * get_dtype_size d) (shapes s) (dtypes s))
      in case page_size_padded s of
           None \<Rightarrow> Inr page_size
         | Some padded \<Rightarrow> bind_r (assert_r (padded \<ge> page_size)) (\<lambda>_. Inr padded))"

definition page_size_bytes :: "KVCacheSpec \<Rightarrow> int result" where
  "page_size_bytes s = (if spec_class s = MambaSpec then mamba_page_size_bytes s else attention_page_size_bytes s)"

text \<open>\<open>_apply_alignment_padding\<close>, run by the constructor of the MLA specifications.\<close>

definition apply_alignment_padding :: "KVCacheSpec \<Rightarrow> KVCacheSpec result" where
  "apply_alignment_padding s =
     (case alignment s of
        None \<Rightarrow> Inr s
      | Some a \<Rightarrow>
          bind_r (real_page_size_bytes s) (\<lambda>actual.
          bind_r (guard_r (a \<noteq> 0) ZeroDivisionError) (\<lambda>_.
            let padded = round_up actual a
            in Inr (if padded \<noteq> actual then s\<lparr>page_size_padded := Some padded\<rparr> else s))))"

definition copy_with_new_block_size :: "int \<Rightarrow> KVCacheSpec \<Rightarrow> KVCacheSpec result" where
  "copy_with_new_block_size bs s =
     (let s = s\<lparr>block_size := bs\<rparr> in
      if spec_class s \<in> {MLAAttentionSpec, SlidingWindowMLASpec} then apply_alignment_padding s else Inr s)"

section \<open>Memory bounds\<close>

record memory_config =
  max_model_len :: int
  decode_context_parallel_size :: int
  prefill_context_parallel_size :: int
  max_num_batched_tokens :: int
  cfg_max_num_encoder_input_tokens :: int
  cfg_mamba_cache_mode :: string

definition chunked_max_admission_blocks_per_request :: "int \<Rightarrow> int \<Rightarrow> KVCacheSpec \<Rightarrow> int result" where
  "chunked_max_admission_blocks_per_request batched mml s =
     (case attention_chunk_size s of
        None \<Rightarrow> Inl TypeError
      | Some c \<Rightarrow> Inr (cdiv (min (c + batched) mml) (block_size s)))"

definition sliding_max_admission_blocks_per_request :: "int \<Rightarrow> int \<Rightarrow> KVCacheSpec \<Rightarrow> int result" where
  "sliding_max_admission_blocks_per_request batched mml s =
     (case sliding_window s of
        None \<Rightarrow> Inl TypeError
      | Some w \<Rightarrow> Inr (cdiv (min (w - 1 + batched) mml) (block_size s) + 1))"

definition full_max_memory_usage_bytes :: "memory_config \<Rightarrow> KVCacheSpec \<Rightarrow> int result" where
  "full_max_memory_usage_bytes cfg s =
     (let mml = (if decode_context_parallel_size cfg * prefill_context_parallel_size cfg > 1
           then cdiv (max_model_len cfg) (decode_context_parallel_size cfg * prefill_context_parallel_size cfg)
           else max_model_len cfg)
      in map_r (\<lambda>p. cdiv mml (block_size s) * p) (page_size_bytes s))"

definition chunked_max_memory_usage_bytes :: "memory_config \<Rightarrow> KVCacheSpec \<Rightarrow> int result" where
  "chunked_max_memory_usage_bytes cfg s =
     bind_r (chunked_max_admission_blocks_per_request (max_num_batched_tokens cfg) (max_model_len cfg) s) (\<lambda>max_blocks.
       map_r (\<lambda>p. max_blocks * p) (page_size_bytes s))"

definition sliding_max_memory_usage_bytes :: "memory_config \<Rightarrow> KVCacheSpec \<Rightarrow> int result" where
  "sliding_max_memory_usage_bytes cfg s =
     bind_r (assert_r (decode_context_parallel_size cfg = 1)) (\<lambda>_.
     bind_r (sliding_max_admission_blocks_per_request (max_num_batched_tokens cfg) (max_model_len cfg) s) (\<lambda>max_blocks.
       map_r (\<lambda>p. max_blocks * p) (page_size_bytes s)))"

definition mamba_max_memory_usage_bytes :: "memory_config \<Rightarrow> KVCacheSpec \<Rightarrow> int result" where
  "mamba_max_memory_usage_bytes cfg s =
     map_r (\<lambda>p. if cfg_mamba_cache_mode cfg = ''all'' then cdiv (max_model_len cfg) (block_size s) * p
        else if cfg_mamba_cache_mode cfg = ''align'' then p * (2 + num_speculative_blocks s)
        else p * (1 + num_speculative_blocks s)) (page_size_bytes s)"

definition encoder_max_memory_usage_bytes :: "memory_config \<Rightarrow> KVCacheSpec \<Rightarrow> int result" where
  "encoder_max_memory_usage_bytes cfg s = Inr 0"

definition cross_max_memory_usage_bytes :: "memory_config \<Rightarrow> KVCacheSpec \<Rightarrow> int result" where
  "cross_max_memory_usage_bytes cfg s =
     map_r (\<lambda>p. cdiv (cfg_max_num_encoder_input_tokens cfg) (block_size s) * p) (page_size_bytes s)"

definition max_memory_usage_bytes :: "memory_config \<Rightarrow> KVCacheSpec \<Rightarrow> int result" where
  "max_memory_usage_bytes cfg s =
     (if is_full s then full_max_memory_usage_bytes cfg s
      else if is_sliding s then sliding_max_memory_usage_bytes cfg s
      else case spec_class s of
        ChunkedLocalAttentionSpec \<Rightarrow> chunked_max_memory_usage_bytes cfg s
      | MambaSpec \<Rightarrow> mamba_max_memory_usage_bytes cfg s
      | EncoderOnlyAttentionSpec \<Rightarrow> encoder_max_memory_usage_bytes cfg s
      | _ \<Rightarrow> cross_max_memory_usage_bytes cfg s)"

section \<open>Merging the layers of a group\<close>

definition spec_merge :: "KVCacheSpec list \<Rightarrow> KVCacheSpec result" where
  "spec_merge specs =
     bind_r (assert_r (\<forall>s\<in>set (tl specs). s = hd specs)) (\<lambda>_. nth_r specs 0)"

text \<open>A set of window sizes is given by its elements, without repetition.\<close>

definition merge_window_sizes :: "int list \<Rightarrow> int option result" where
  "merge_window_sizes ws =
     (case remdups ws of [] \<Rightarrow> Inr None | [w] \<Rightarrow> Inr (Some w) | _ \<Rightarrow> Inl ValueError)"

text \<open>Equality of the fields of \<open>AttentionSpec\<close>.\<close>

definition same_attention_fields :: "KVCacheSpec \<Rightarrow> KVCacheSpec \<Rightarrow> bool" where
  "same_attention_fields s t \<longleftrightarrow>
     block_size s = block_size t \<and> num_kv_heads s = num_kv_heads t \<and> head_size s = head_size t \<and>
     dtype s = dtype t \<and> kv_quant_mode s = kv_quant_mode t \<and> page_size_padded s = page_size_padded t"

text \<open>A new specification with the fields a constructor call passes and defaults for the rest.\<close>

definition attention_spec :: "spec_class \<Rightarrow> KVCacheSpec \<Rightarrow> KVCacheSpec" where
  "attention_spec cls s =
     \<lparr>spec_class = cls, block_size = block_size s, num_kv_heads = num_kv_heads s, head_size = head_size s,
      head_size_v = head_size s, dtype = dtype s, kv_quant_mode = QM_NONE, page_size_padded = page_size_padded s,
      sliding_window = None, attention_chunk_size = None, tq_slot_size = 0, cache_dtype_str = None, alignment = None,
      compress_ratio = 1, model_version = None, sink_len = None, shapes = [], dtypes = [],
      mamba_cache_mode = ''none'', num_speculative_blocks = 0\<rparr>"

text \<open>The checks \<open>FullAttentionSpec.merge\<close> and \<open>SinkFullAttentionSpec.merge\<close> make around their constructor call.\<close>

definition merge_layers :: "(KVCacheSpec \<Rightarrow> int option \<Rightarrow> int option \<Rightarrow> KVCacheSpec) \<Rightarrow> KVCacheSpec list \<Rightarrow> KVCacheSpec result" where
  "merge_layers mk specs =
     bind_r (assert_r (\<forall>s\<in>set specs. is_full s)) (\<lambda>_.
     bind_r (assert_r (\<forall>s\<in>set specs. spec_class s \<noteq> MLAAttentionSpec)) (\<lambda>_.
     bind_r (nth_r specs 0) (\<lambda>first.
     bind_r (merge_window_sizes (List.map_filter sliding_window specs)) (\<lambda>window.
     bind_r (merge_window_sizes (List.map_filter attention_chunk_size specs)) (\<lambda>chunk.
     let merged = mk first window chunk in
     bind_r (assert_r (\<forall>s\<in>set specs. same_attention_fields s merged)) (\<lambda>_.
     bind_r (assert_r (window = None \<or> chunk = None)) (\<lambda>_. Inr merged)))))))"

definition full_merge :: "spec_class \<Rightarrow> KVCacheSpec list \<Rightarrow> KVCacheSpec result" where
  "full_merge cls specs =
     merge_layers (\<lambda>first window chunk. (attention_spec cls first)\<lparr>head_size_v := head_size_v first,
       kv_quant_mode := kv_quant_mode first, sliding_window := window, attention_chunk_size := chunk\<rparr>) specs"

definition sink_merge :: "KVCacheSpec list \<Rightarrow> KVCacheSpec result" where
  "sink_merge specs =
     merge_layers (\<lambda>first window chunk. (attention_spec SinkFullAttentionSpec first)\<lparr>head_size_v := head_size_v first,
       sink_len := sink_len first, kv_quant_mode := kv_quant_mode first, sliding_window := window, attention_chunk_size := chunk\<rparr>) specs"

text \<open>\<open>tq_slot_size\<close> is an attribute of \<open>TQFullAttentionSpec\<close> only.\<close>

definition get_tq_slot_size :: "KVCacheSpec \<Rightarrow> int result" where
  "get_tq_slot_size s = (if spec_class s = TQFullAttentionSpec then Inr (tq_slot_size s) else Inl AttributeError)"

definition tq_merge :: "KVCacheSpec list \<Rightarrow> KVCacheSpec result" where
  "tq_merge specs =
     bind_r (full_merge TQFullAttentionSpec specs) (\<lambda>merged.
     bind_r (all_r (\<lambda>s. bind_r (get_tq_slot_size s) (\<lambda>a. bind_r (get_tq_slot_size (hd specs)) (\<lambda>b. Inr (a = b)))) specs) (\<lambda>same.
     bind_r (assert_r same) (\<lambda>_.
     bind_r (get_tq_slot_size (hd specs)) (\<lambda>t. Inr (merged\<lparr>tq_slot_size := t\<rparr>)))))"

definition all_equal :: "'a list \<Rightarrow> bool" where
  "all_equal xs \<longleftrightarrow> length (remdups xs) = 1"

definition mla_merge :: "KVCacheSpec list \<Rightarrow> KVCacheSpec result" where
  "mla_merge specs =
     bind_r (assert_r (\<forall>s\<in>set specs. spec_class s = MLAAttentionSpec)) (\<lambda>_.
     bind_r (assert_r (all_equal (map cache_dtype_str specs) \<and> all_equal (map compress_ratio specs) \<and> all_equal (map model_version specs))) (\<lambda>_.
     bind_r (nth_r specs 0) (\<lambda>first.
       apply_alignment_padding ((attention_spec MLAAttentionSpec first)\<lparr>kv_quant_mode := kv_quant_mode first,
         cache_dtype_str := cache_dtype_str first, compress_ratio := compress_ratio first, model_version := model_version first\<rparr>))))"

definition sliding_mla_merge :: "KVCacheSpec list \<Rightarrow> KVCacheSpec result" where
  "sliding_mla_merge specs =
     bind_r (assert_r (\<forall>s\<in>set specs. spec_class s = SlidingWindowMLASpec)) (\<lambda>_.
     bind_r (assert_r (all_equal (map cache_dtype_str specs) \<and> all_equal (map compress_ratio specs)
         \<and> all_equal (map model_version specs) \<and> all_equal (map sliding_window specs))) (\<lambda>_.
     bind_r (nth_r specs 0) (\<lambda>first.
       apply_alignment_padding ((attention_spec SlidingWindowMLASpec first)\<lparr>sliding_window := sliding_window first,
         cache_dtype_str := cache_dtype_str first, compress_ratio := compress_ratio first, model_version := model_version first\<rparr>))))"

text \<open>\<open>cls.merge\<close> for each class; the classes without an override inherit the one of \<open>KVCacheSpec\<close>.\<close>

definition merge_specs :: "spec_class \<Rightarrow> KVCacheSpec list \<Rightarrow> KVCacheSpec result" where
  "merge_specs cls specs =
     (case cls of
        FullAttentionSpec \<Rightarrow> full_merge cls specs
      | SinkFullAttentionSpec \<Rightarrow> sink_merge specs
      | TQFullAttentionSpec \<Rightarrow> tq_merge specs
      | MLAAttentionSpec \<Rightarrow> mla_merge specs
      | SlidingWindowMLASpec \<Rightarrow> sliding_mla_merge specs
      | _ \<Rightarrow> spec_merge specs)"

section \<open>Uniform types\<close>

record UniformTypeKVCacheSpecs =
  u_block_size :: int
  kv_cache_specs :: "(string \<times> KVCacheSpec) list"

definition is_uniform_type :: "(string \<times> KVCacheSpec) list \<Rightarrow> bool result" where
  "is_uniform_type specs =
     (let values = map snd specs in
      if length (remdups (map block_size values)) > 1 then Inr False
      else case values of [] \<Rightarrow> Inl StopIteration
      | one # _ \<Rightarrow>
        if spec_class one = SlidingWindowMLASpec
        then Inr (\<forall>s\<in>set values. spec_class s = SlidingWindowMLASpec \<and> sliding_window s = sliding_window one)
        else if is_full one then Inr (\<forall>s\<in>set values. is_full s)
        else if spec_class one = CrossAttentionSpec then Inr (\<forall>s\<in>set values. spec_class s = CrossAttentionSpec)
        else if is_sliding one then Inr (\<forall>s\<in>set values. is_sliding s \<and> sliding_window s = sliding_window one)
        else if spec_class one = ChunkedLocalAttentionSpec
        then Inr (\<forall>s\<in>set values. spec_class s = ChunkedLocalAttentionSpec \<and> attention_chunk_size s = attention_chunk_size one)
        else if spec_class one = MambaSpec
        then Inr (\<forall>s\<in>set values. spec_class s = MambaSpec \<and> num_speculative_blocks s = num_speculative_blocks one)
        else Inl NotImplementedError)"

definition from_specs :: "(string \<times> KVCacheSpec) list \<Rightarrow> UniformTypeKVCacheSpecs option result" where
  "from_specs specs =
     bind_r (is_uniform_type specs) (\<lambda>uniform.
       if uniform then Inr (Some \<lparr>u_block_size = block_size (snd (hd specs)), kv_cache_specs = specs\<rparr>) else Inr None)"

definition uniform_page_size_bytes :: "UniformTypeKVCacheSpecs \<Rightarrow> int result" where
  "uniform_page_size_bytes u = map_r sum_list (map_result (\<lambda>(_, s). page_size_bytes s) (kv_cache_specs u))"

definition max_memory_usage_pages :: "memory_config \<Rightarrow> UniformTypeKVCacheSpecs \<Rightarrow> int result" where
  "max_memory_usage_pages cfg u =
     bind_r (map_result (\<lambda>(_, s). bind_r (max_memory_usage_bytes cfg s) (\<lambda>m. bind_r (page_size_bytes s) (\<lambda>p.
         bind_r (guard_r (p \<noteq> 0) ZeroDivisionError) (\<lambda>_. Inr (cdiv m p))))) (kv_cache_specs u)) (\<lambda>ns.
     bind_r (guard_r (ns \<noteq> []) ValueError) (\<lambda>_. Inr (Max (set ns))))"

definition uniform_max_memory_usage_bytes :: "memory_config \<Rightarrow> UniformTypeKVCacheSpecs \<Rightarrow> int result" where
  "uniform_max_memory_usage_bytes cfg u =
     bind_r (max_memory_usage_pages cfg u) (\<lambda>max_num_pages.
       map_r (\<lambda>p. max_num_pages * p) (uniform_page_size_bytes u))"

definition get_page_sizes :: "UniformTypeKVCacheSpecs \<Rightarrow> int set result" where
  "get_page_sizes u = map_r set (map_result (\<lambda>(_, s). page_size_bytes s) (kv_cache_specs u))"

definition get_num_layer_tuples :: "UniformTypeKVCacheSpecs \<Rightarrow> nat result" where
  "get_num_layer_tuples u =
     bind_r (map_result (\<lambda>(_, s). page_size_bytes s) (kv_cache_specs u)) (\<lambda>ps.
     bind_r (guard_r (ps \<noteq> []) IndexError) (\<lambda>_. Inr (Max (set (map (count_list ps) ps)))))"

section \<open>The configuration\<close>

record KVCacheGroupSpec =
  layer_names :: "string list"
  kv_cache_spec :: KVCacheSpec
  is_eagle_group :: bool

record KVCacheConfig =
  num_blocks :: int
  kv_cache_tensors :: "(int \<times> string list) list"
  kv_cache_groups :: "KVCacheGroupSpec list"

definition has_mamba_layers :: "KVCacheConfig \<Rightarrow> bool" where
  "has_mamba_layers c \<longleftrightarrow> (\<exists>g\<in>set (kv_cache_groups c). spec_class (kv_cache_spec g) = MambaSpec)"

definition needs_kv_cache_zeroing :: "KVCacheConfig \<Rightarrow> bool" where
  "needs_kv_cache_zeroing c = has_mamba_layers c"

section \<open>Merging identical layers keeps the page size\<close>

lemma remdups_replicate: "remdups (replicate n x) = (if n = 0 then [] else [x])"
  by (induction n) auto

lemma map_filter_replicate:
  "List.map_filter f (replicate n x) = (case f x of None \<Rightarrow> [] | Some y \<Rightarrow> replicate n y)"
  by (induction n) (auto simp: map_filter_simps split: option.splits)

lemma merge_window_replicate: "n > 0 \<Longrightarrow> merge_window_sizes (List.map_filter f (replicate n x)) = Inr (f x)"
  by (auto simp: merge_window_sizes_def map_filter_replicate remdups_replicate split: option.splits)

lemma nth_r_replicate: "n > 0 \<Longrightarrow> nth_r (replicate n x) 0 = Inr x"
  using nth_r_nat[of 0 "replicate n x"] by simp

lemma all_equal_replicate: "n > 0 \<Longrightarrow> all_equal (replicate n x)"
  by (simp add: all_equal_def remdups_replicate)

lemma merge_layers_replicate:
  assumes "n > 0" "is_full s" "spec_class s \<noteq> MLAAttentionSpec" "sliding_window s = None \<or> attention_chunk_size s = None"
    "same_attention_fields s (mk s (sliding_window s) (attention_chunk_size s))"
  shows "merge_layers mk (replicate n s) = Inr (mk s (sliding_window s) (attention_chunk_size s))"
  using assms by (simp add: merge_layers_def merge_window_replicate nth_r_replicate assert_r_def)

lemma all_r_replicate: "f x = Inr True \<Longrightarrow> all_r f (replicate n x) = Inr True"
  by (induction n) auto

lemma hd_replicate_pos: "n > 0 \<Longrightarrow> hd (replicate n x) = x"
  by (cases n) auto

lemma tl_replicate_eq: "x \<in> set (tl (replicate n y)) \<Longrightarrow> x = y"
  by (cases n) (auto simp: set_replicate_conv_if split: if_splits)

lemma apply_alignment_none: "alignment s = None \<Longrightarrow> apply_alignment_padding s = Inr s"
  by (simp add: apply_alignment_padding_def)

lemmas page_size_defs = get_dtype_size_def page_size_bytes_def attention_page_size_bytes_def mamba_page_size_bytes_def real_page_size_bytes_def
  full_real_page_size_bytes_def tq_real_page_size_bytes_def mla_real_page_size_bytes_def sliding_mla_real_page_size_bytes_def
  sliding_real_page_size_bytes_def attention_real_page_size_bytes_def storage_block_size_def mla_storage_block_size_def
  sliding_mla_storage_block_size_def attention_spec_def

text \<open>C22: Merging any positive number of identical layer specifications that do not set both a sliding window and a chunk
  size returns one of the same class and block size whose page size in bytes is that of the layers.  Sliding-window
  MLA layers with per-token-head scales are excepted: for them the merge loses the bytes of the scales, as shown
  below.\<close>

theorem merge_identical_layers:
  assumes "n > 0" "sliding_window s = None \<or> attention_chunk_size s = None"
    "spec_class s = SlidingWindowMLASpec \<Longrightarrow> \<not> is_per_token_head (kv_quant_mode s)"
  shows "\<exists>m. merge_specs (spec_class s) (replicate n s) = Inr m \<and> spec_class m = spec_class s
    \<and> block_size m = block_size s \<and> page_size_bytes m = page_size_bytes s"
proof -
  note rep = nth_r_replicate[OF assms(1)] hd_replicate_pos[OF assms(1)] all_equal_replicate[OF assms(1)]
  have base: "spec_merge (replicate n s) = Inr s"
    by (auto simp: rep spec_merge_def assert_r_def dest: tl_replicate_eq)
  show ?thesis
  proof (cases "spec_class s")
    case TQFullAttentionSpec
    have "all_r (\<lambda>x. bind_r (get_tq_slot_size x) (\<lambda>a. bind_r (get_tq_slot_size s) (\<lambda>b. Inr (a = b)))) (replicate n s) = Inr True"
      using TQFullAttentionSpec by (intro all_r_replicate) (simp add: get_tq_slot_size_def)
    then show ?thesis using TQFullAttentionSpec assms(1,2)
      by (simp add: rep merge_specs_def tq_merge_def full_merge_def merge_layers_replicate same_attention_fields_def
          get_tq_slot_size_def assert_r_def is_full_def page_size_defs)
  next
    case SlidingWindowMLASpec
    then show ?thesis using assms
      by (simp add: rep merge_specs_def sliding_mla_merge_def assert_r_def apply_alignment_none page_size_defs is_per_token_head_def)
  next
    case MLAAttentionSpec
    then show ?thesis using assms(1)
      by (simp add: rep merge_specs_def mla_merge_def assert_r_def apply_alignment_none page_size_defs)
  qed (use assms(1,2) base in \<open>simp_all add: merge_specs_def full_merge_def sink_merge_def merge_layers_replicate
      same_attention_fields_def is_full_def page_size_defs\<close>)
qed

definition sample_spec :: "spec_class \<Rightarrow> KVCacheSpec" where
  "sample_spec cls =
     \<lparr>spec_class = cls, block_size = 16, num_kv_heads = 8, head_size = 128, head_size_v = 128, dtype = Torch_dtype ''bfloat16'' 2,
      kv_quant_mode = QM_NONE, page_size_padded = None, sliding_window = Some 64, attention_chunk_size = None, tq_slot_size = 134,
      cache_dtype_str = None, alignment = None, compress_ratio = 1, model_version = None, sink_len = None, shapes = [],
      dtypes = [], mamba_cache_mode = ''none'', num_speculative_blocks = 0\<rparr>"

theorem merge_identical_layers_witness:
  "\<exists>m. merge_specs TQFullAttentionSpec (replicate 3 (sample_spec TQFullAttentionSpec)) = Inr m \<and> page_size_bytes m = Inr 17152"
proof -
  have "page_size_bytes (sample_spec TQFullAttentionSpec) = Inr 17152" "spec_class (sample_spec TQFullAttentionSpec) = TQFullAttentionSpec"
    "attention_chunk_size (sample_spec TQFullAttentionSpec) = None"
    by (simp_all add: sample_spec_def page_size_defs is_per_token_head_def)
  then show ?thesis using merge_identical_layers[of 3 "sample_spec TQFullAttentionSpec"] by auto
qed

text \<open>C39: \<open>SlidingWindowMLASpec.merge\<close> does not pass on the quantisation mode: for layers with per-token-head scales the merged page
  is smaller than the page of the layers by the size of the scales.\<close>

theorem sliding_mla_merge_drops_scales:
  assumes "spec_class s = SlidingWindowMLASpec" "model_version s = None" "compress_ratio s \<noteq> 0" "page_size_padded s = None"
    "is_per_token_head (kv_quant_mode s)" "n > 0"
  shows "\<exists>m p. merge_specs SlidingWindowMLASpec (replicate n s) = Inr m \<and> page_size_bytes m = Inr p
    \<and> page_size_bytes s = Inr (p + 8 * block_size s * num_kv_heads s)"
  using assms by (simp add: merge_specs_def sliding_mla_merge_def assert_r_def guard_r_def apply_alignment_none page_size_defs
      is_per_token_head_def nth_r_replicate all_equal_replicate)

theorem sliding_mla_merge_drops_scales_witness:
  "\<exists>m p. merge_specs SlidingWindowMLASpec (replicate 2 ((sample_spec SlidingWindowMLASpec)\<lparr>kv_quant_mode := INT8_PER_TOKEN_HEAD\<rparr>)) = Inr m
    \<and> page_size_bytes m = Inr p \<and> page_size_bytes ((sample_spec SlidingWindowMLASpec)\<lparr>kv_quant_mode := INT8_PER_TOKEN_HEAD\<rparr>) = Inr (p + 1024)"
  using sliding_mla_merge_drops_scales[of "(sample_spec SlidingWindowMLASpec)\<lparr>kv_quant_mode := INT8_PER_TOKEN_HEAD\<rparr>" 2]
  by (simp add: sample_spec_def is_per_token_head_def)

section \<open>The memory of a uniform group covers its layers\<close>

text \<open>C23: The memory bound of a uniform group is at least the sum of the bounds of its layers.\<close>

theorem uniform_memory_covers_layers:
  assumes "kv_cache_specs u \<noteq> []" and "\<And>k s. (k, s) \<in> set (kv_cache_specs u) \<Longrightarrow>
      page_size_bytes s = Inr (page s) \<and> 0 < page s \<and> max_memory_usage_bytes cfg s = Inr (mem s)"
  shows "\<exists>total. uniform_max_memory_usage_bytes cfg u = Inr total \<and> (\<Sum>(k, s)\<leftarrow>kv_cache_specs u. mem s) \<le> total"
proof -
  let ?specs = "kv_cache_specs u" let ?ns = "map (\<lambda>(k, s). cdiv (mem s) (page s)) ?specs"
  have pages: "uniform_page_size_bytes u = Inr (\<Sum>(k, s)\<leftarrow>?specs. page s)"
    unfolding uniform_page_size_bytes_def
    by (subst map_result_Inr[where g = "\<lambda>(k, s). page s"]) (use assms(2) in auto)
  have "max_memory_usage_pages cfg u = Inr (Max (set ?ns))"
    unfolding max_memory_usage_pages_def
    by (subst map_result_Inr[where g = "\<lambda>(k, s). cdiv (mem s) (page s)"]) (use assms in \<open>fastforce simp: guard_r_def\<close>)+
  then have M: "uniform_max_memory_usage_bytes cfg u = Inr (Max (set ?ns) * (\<Sum>(k, s)\<leftarrow>?specs. page s))"
    by (simp add: uniform_max_memory_usage_bytes_def pages)
  have "mem s \<le> Max (set ?ns) * page s" if "(k, s) \<in> set ?specs" for k s
  proof -
    have "cdiv (mem s) (page s) \<le> Max (set ?ns)" using that by (intro Max_ge) (auto intro: rev_image_eqI)
    then have "cdiv (mem s) (page s) * page s \<le> Max (set ?ns) * page s" using assms(2)[OF that] by (simp add: mult_right_mono)
    then show ?thesis using cdiv_covers[of "page s" "mem s"] assms(2)[OF that] by linarith
  qed
  then have "(\<Sum>(k, s)\<leftarrow>?specs. mem s) \<le> (\<Sum>(k, s)\<leftarrow>?specs. Max (set ?ns) * page s)"
    by (intro sum_list_mono) auto
  also have "\<dots> = Max (set ?ns) * (\<Sum>(k, s)\<leftarrow>?specs. page s)"
    by (simp add: sum_list_const_mult[symmetric] case_prod_unfold)
  finally show ?thesis using M by simp
qed

theorem uniform_memory_covers_layers_witness:
  "\<exists>total. uniform_max_memory_usage_bytes
      \<lparr>max_model_len = 64, decode_context_parallel_size = 1, prefill_context_parallel_size = 1, max_num_batched_tokens = 32,
       cfg_max_num_encoder_input_tokens = 0, cfg_mamba_cache_mode = ''none''\<rparr>
      \<lparr>u_block_size = 16, kv_cache_specs = [(''l'', sample_spec TQFullAttentionSpec)]\<rparr> = Inr total \<and> 68608 \<le> total"
  using uniform_memory_covers_layers[of "\<lparr>u_block_size = 16, kv_cache_specs = [(''l'', sample_spec TQFullAttentionSpec)]\<rparr>" "\<lambda>_. 17152"
      "\<lparr>max_model_len = 64, decode_context_parallel_size = 1, prefill_context_parallel_size = 1, max_num_batched_tokens = 32,
       cfg_max_num_encoder_input_tokens = 0, cfg_mamba_cache_mode = ''none''\<rparr>" "\<lambda>_. 68608"]
  by (simp add: sample_spec_def page_size_defs is_per_token_head_def max_memory_usage_bytes_def full_max_memory_usage_bytes_def is_full_def cdiv_def)

end
