(* ===== verification/Cache_Hits.thy ===== *)
theory Cache_Hits
  imports Block_Pool KV_Spec
begin

text \<open>
  The class methods \<open>find_longest_cache_hit\<close> of \<open>vllm/v1/core/single_type_kv_cache_manager.py\<close>: how each
  kind of attention layer reads the prefix cache.  Every method returns one list of blocks per cache
  group, with null blocks in the places its layers do not read.  Block sizes, chunk sizes and
  alignments are positive numbers of the configuration, so the divisions below never raise.
\<close>

section \<open>Definitions\<close>

text \<open>\<open>BlockHashList\<close>: a plain list of hashes, or a view of one at a coarser block size.\<close>

datatype BlockHashList = Hashes "bytes list" | ScaledHashes BlockHashListWithBlockSize

fun hashes_iter :: "BlockHashList \<Rightarrow> bytes list" where
  "hashes_iter (Hashes hs) = hs"
| "hashes_iter (ScaledHashes l) = bhl_iter l"

fun hashes_at :: "BlockHashList \<Rightarrow> int \<Rightarrow> bytes result" where
  "hashes_at (Hashes hs) i = nth_r hs i"
| "hashes_at (ScaledHashes l) i = Inr (bhl_get_value_at l i)"

text \<open>\<open>for computed, cached in zip(computed_blocks, cached_block): computed.append(cached)\<close>, and the
  same with \<open>computed[i] = cached\<close>; \<open>for computed in computed_blocks: computed.pop()\<close>.\<close>

fun append_each :: "'a list list \<Rightarrow> 'a list \<Rightarrow> 'a list list" where
  "append_each (c # cs) (b # bs) = (c @ [b]) # append_each cs bs"
| "append_each cs _ = cs"

fun set_each :: "nat \<Rightarrow> 'a list list \<Rightarrow> 'a list \<Rightarrow> 'a list list" where
  "set_each i (c # cs) (b # bs) = c[i := b] # set_each i cs bs"
| "set_each i cs _ = cs"

definition pop_each :: "'a list list \<Rightarrow> 'a list list result" where
  "pop_each cs = (if [] \<in> set cs then Inl IndexError else Inr (map butlast cs))"

lemma pop_each_Inr: "pop_each cs = Inr cs' \<Longrightarrow> [] \<notin> set cs \<and> cs' = map butlast cs"
  by (simp add: pop_each_def split: if_splits)

text \<open>The \<open>while\<close> loop that shortens a hit to a multiple of the alignment.\<close>

function realign :: "int \<Rightarrow> int \<Rightarrow> 'a list list \<Rightarrow> 'a list list result" where
  "realign bsz align cs =
     (if bsz = align then Inr cs
      else bind_r (nth_r cs 0) (\<lambda>c.
        if int (length c) * bsz mod align = 0 then Inr cs
        else bind_r (pop_each cs) (realign bsz align)))"
  by pat_completeness auto
termination
proof (relation "measure (\<lambda>(_, _, cs). length (concat cs))")
  fix bsz align :: int and cs :: "'a list list" and c cs'
  assume c: "nth_r cs 0 = Inr c" and pop: "pop_each cs = Inr cs'"
  then have "length (hd cs') < length (hd cs)" "cs \<noteq> []" "cs' = map butlast cs"
    by (cases cs; auto dest!: pop_each_Inr simp: nth_r_def)+
  moreover have "length (concat (map butlast ds)) \<le> length (concat ds)" for ds :: "'a list list"
    by (induction ds) auto
  note this[of "tl cs"]
  ultimately have "length (concat cs') < length (concat cs)"
    by (cases cs) (auto simp: less_diff_conv2 Suc_le_eq)
  then show "((bsz, align, cs'), (bsz, align, cs)) \<in> measure (\<lambda>(_, _, cs). length (concat cs))" by simp
qed auto

declare realign.simps [simp del]

definition eagle_drop :: "bool \<Rightarrow> 'a list list \<Rightarrow> 'a list list result" where
  "eagle_drop use_eagle cs =
     (if \<not> use_eagle then Inr cs
      else bind_r (nth_r cs 0) (\<lambda>c. if c = [] then Inr cs else pop_each cs))"

text \<open>\<open>FullAttentionManager\<close>: read hashes from the left until the first miss.\<close>

fun full_hit_loop :: "bytes list \<Rightarrow> int list \<Rightarrow> BlockPool \<Rightarrow> block_ref list list \<Rightarrow> block_ref list list result" where
  "full_hit_loop [] gids p cs = Inr cs"
| "full_hit_loop (h # hs) gids p cs =
     bind_r (get_cached_block h gids p) (\<lambda>r. case r of
         Some (b # bs) \<Rightarrow> full_hit_loop hs gids p (append_each cs (b # bs))
       | _ \<Rightarrow> Inr cs)"

definition parallel_block_size :: "int \<Rightarrow> int \<Rightarrow> int \<Rightarrow> int" where
  "parallel_block_size bsz dcp pcp = (if dcp * pcp > 1 then bsz * (dcp * pcp) else bsz)"

definition full_find_longest_cache_hit ::
    "BlockHashList \<Rightarrow> int \<Rightarrow> int list \<Rightarrow> BlockPool \<Rightarrow> KVCacheSpec \<Rightarrow> bool \<Rightarrow> int \<Rightarrow> int \<Rightarrow> int
      \<Rightarrow> block_ref list list result" where
  "full_find_longest_cache_hit hashes max_length gids p s use_eagle align dcp pcp =
     bind_r (assert_r (is_full s \<or> spec_class s = ChunkedLocalAttentionSpec)) (\<lambda>_.
       let bsz = parallel_block_size (block_size s) dcp pcp; max_num_blocks = max_length div bsz in
       bind_r (guard_r (0 \<le> max_num_blocks) ValueError) (\<lambda>_.
       bind_r (full_hit_loop (take (nat max_num_blocks) (hashes_iter hashes)) gids p (map (\<lambda>_. []) gids)) (\<lambda>cs.
       bind_r (eagle_drop use_eagle cs) (\<lambda>cs.
         realign bsz align cs))))"

text \<open>\<open>SlidingWindowManager\<close>: the rightmost run of \<open>need\<close> hits that ends at an aligned position.  The
  first number is the index the loop has still to visit, plus one.\<close>

fun sliding_hit_loop ::
    "nat \<Rightarrow> BlockHashList \<Rightarrow> int list \<Rightarrow> BlockPool \<Rightarrow> int \<Rightarrow> bool \<Rightarrow> int \<Rightarrow> int \<Rightarrow> int \<Rightarrow> block_ref list list
      \<Rightarrow> (bool \<times> int \<times> block_ref list list) result" where
  "sliding_hit_loop 0 hashes gids p bsz use_eagle align need contiguous cs = Inr (False, contiguous, cs)"
| "sliding_hit_loop (Suc i) hashes gids p bsz use_eagle align need contiguous cs =
     bind_r (hashes_at hashes (int i)) (\<lambda>h.
     bind_r (get_cached_block h gids p) (\<lambda>r. case r of
         Some (b # bs) \<Rightarrow>
           if contiguous = 0 \<and> bsz \<noteq> align
              \<and> (if use_eagle then int i else int i + 1) * bsz mod align \<noteq> 0
           then sliding_hit_loop i hashes gids p bsz use_eagle align need contiguous cs
           else let cs = set_each i cs (b # bs); contiguous = contiguous + 1 in
             if contiguous \<ge> need then Inr (True, contiguous, map (\<lambda>c. slice_to c (int i + contiguous)) cs)
             else sliding_hit_loop i hashes gids p bsz use_eagle align need contiguous cs
       | _ \<Rightarrow> sliding_hit_loop i hashes gids p bsz use_eagle align need 0 cs))"

definition sliding_find_longest_cache_hit ::
    "BlockHashList \<Rightarrow> int \<Rightarrow> int list \<Rightarrow> BlockPool \<Rightarrow> KVCacheSpec \<Rightarrow> bool \<Rightarrow> int \<Rightarrow> int \<Rightarrow> int
      \<Rightarrow> block_ref list list result" where
  "sliding_find_longest_cache_hit hashes max_length gids p s use_eagle align dcp pcp =
     bind_r (assert_r (is_sliding s)) (\<lambda>_.
     bind_r (assert_r (dcp = 1)) (\<lambda>_.
     bind_r (assert_r (pcp = 1)) (\<lambda>_.
       case sliding_window s of None \<Rightarrow> Inl TypeError | Some w \<Rightarrow>
       let bsz = block_size s; need = cdiv (w - 1) bsz + (if use_eagle then 1 else 0);
           max_num_blocks = max_length div bsz;
           cs = map (\<lambda>_. repeat_list (null_block p) max_num_blocks) gids in
       bind_r (sliding_hit_loop (nat max_num_blocks) hashes gids p bsz use_eagle align need 0 cs)
         (\<lambda>(match_found, contiguous, cs).
       bind_r (if match_found then Inr cs
               else realign bsz align (map (\<lambda>c. slice_to c contiguous) cs)) (\<lambda>cs.
       if use_eagle
       then bind_r (nth_r cs 0) (\<lambda>c.
              if c = [] then Inr cs else bind_r (pop_each cs) (realign bsz align))
       else Inr cs)))))"

text \<open>\<open>ChunkedLocalAttentionManager\<close>: null blocks before the current chunk, then hits from the left.\<close>

fun chunked_hit_loop ::
    "nat list \<Rightarrow> BlockHashList \<Rightarrow> int list \<Rightarrow> BlockPool \<Rightarrow> block_ref list list \<Rightarrow> block_ref list list result" where
  "chunked_hit_loop [] hashes gids p cs = Inr cs"
| "chunked_hit_loop (i # idxs) hashes gids p cs =
     bind_r (hashes_at hashes (int i)) (\<lambda>h.
     bind_r (get_cached_block h gids p) (\<lambda>r. case r of
         Some (b # bs) \<Rightarrow> chunked_hit_loop idxs hashes gids p (append_each cs (b # bs))
       | _ \<Rightarrow> Inr cs))"

definition chunked_find_longest_cache_hit ::
    "BlockHashList \<Rightarrow> int \<Rightarrow> int list \<Rightarrow> BlockPool \<Rightarrow> KVCacheSpec \<Rightarrow> bool \<Rightarrow> int \<Rightarrow> int \<Rightarrow> int
      \<Rightarrow> block_ref list list result" where
  "chunked_find_longest_cache_hit hashes max_length gids p s use_eagle align dcp pcp =
     bind_r (assert_r (spec_class s = ChunkedLocalAttentionSpec)) (\<lambda>_.
     bind_r (assert_r (\<not> use_eagle)) (\<lambda>_.
     bind_r (assert_r (dcp = 1)) (\<lambda>_.
     bind_r (assert_r (pcp = 1)) (\<lambda>_.
     bind_r (assert_r (block_size s = align)) (\<lambda>_.
       case attention_chunk_size s of None \<Rightarrow> Inl TypeError | Some chunk \<Rightarrow>
       let max_num_blocks = max_length div block_size s;
           start_idx = (if max_length > 0 then max_length div chunk * chunk else 0);
           start_block = start_idx div block_size s
       in chunked_hit_loop [nat start_block..<nat max_num_blocks] hashes gids p
            (map (\<lambda>_. repeat_list (null_block p) start_block) gids))))))"

text \<open>\<open>MambaManager\<close>: only the state after the last hit is read.\<close>

fun mamba_hit_loop ::
    "nat \<Rightarrow> BlockHashList \<Rightarrow> int list \<Rightarrow> BlockPool \<Rightarrow> int \<Rightarrow> int \<Rightarrow> block_ref list list \<Rightarrow> block_ref list list result" where
  "mamba_hit_loop 0 hashes gids p bsz align cs = Inr cs"
| "mamba_hit_loop (Suc i) hashes gids p bsz align cs =
     bind_r (hashes_at hashes (int i)) (\<lambda>h.
     bind_r (get_cached_block h gids p) (\<lambda>r. case r of
         Some (b # bs) \<Rightarrow>
           if bsz \<noteq> align \<and> (int i + 1) * bsz mod align \<noteq> 0
           then mamba_hit_loop i hashes gids p bsz align cs
           else Inr (append_each (map (\<lambda>c. c @ replicate i (null_block p)) cs) (b # bs))
       | _ \<Rightarrow> mamba_hit_loop i hashes gids p bsz align cs))"

definition mamba_find_longest_cache_hit ::
    "BlockHashList \<Rightarrow> int \<Rightarrow> int list \<Rightarrow> BlockPool \<Rightarrow> KVCacheSpec \<Rightarrow> bool \<Rightarrow> int \<Rightarrow> int \<Rightarrow> int
      \<Rightarrow> block_ref list list result" where
  "mamba_find_longest_cache_hit hashes max_length gids p s use_eagle align dcp pcp =
     bind_r (assert_r (spec_class s = MambaSpec)) (\<lambda>_.
     bind_r (assert_r (dcp = 1)) (\<lambda>_.
     bind_r (assert_r (pcp = 1)) (\<lambda>_.
       mamba_hit_loop (nat (max_length div block_size s)) hashes gids p (block_size s) align (map (\<lambda>_. []) gids))))"

definition cross_find_longest_cache_hit ::
    "BlockHashList \<Rightarrow> int \<Rightarrow> int list \<Rightarrow> BlockPool \<Rightarrow> KVCacheSpec \<Rightarrow> bool \<Rightarrow> int \<Rightarrow> int \<Rightarrow> int
      \<Rightarrow> block_ref list list result" where
  "cross_find_longest_cache_hit hashes max_length gids p s use_eagle align dcp pcp =
     bind_r (assert_r (spec_class s = CrossAttentionSpec)) (\<lambda>_. Inl NotImplementedError)"

text \<open>The manager classes, \<open>spec_manager_map\<close>, and the dispatch of the class method.\<close>

datatype manager_class = FullAttentionManager | SlidingWindowManager | ChunkedLocalAttentionManager
  | MambaManager | CrossAttentionManager | SinkFullAttentionManager

definition spec_manager_map :: "spec_class \<Rightarrow> manager_class option" where
  "spec_manager_map c = (case c of
       FullAttentionSpec \<Rightarrow> Some FullAttentionManager
     | TQFullAttentionSpec \<Rightarrow> Some FullAttentionManager
     | MLAAttentionSpec \<Rightarrow> Some FullAttentionManager
     | SlidingWindowSpec \<Rightarrow> Some SlidingWindowManager
     | SlidingWindowMLASpec \<Rightarrow> Some SlidingWindowManager
     | ChunkedLocalAttentionSpec \<Rightarrow> Some ChunkedLocalAttentionManager
     | MambaSpec \<Rightarrow> Some MambaManager
     | CrossAttentionSpec \<Rightarrow> Some CrossAttentionManager
     | SinkFullAttentionSpec \<Rightarrow> Some SinkFullAttentionManager
     | EncoderOnlyAttentionSpec \<Rightarrow> None)"

definition find_longest_cache_hit ::
    "manager_class \<Rightarrow> BlockHashList \<Rightarrow> int \<Rightarrow> int list \<Rightarrow> BlockPool \<Rightarrow> KVCacheSpec \<Rightarrow> bool \<Rightarrow> int \<Rightarrow> int \<Rightarrow> int
      \<Rightarrow> block_ref list list result" where
  "find_longest_cache_hit cls = (case cls of
       FullAttentionManager \<Rightarrow> full_find_longest_cache_hit
     | SinkFullAttentionManager \<Rightarrow> full_find_longest_cache_hit
     | SlidingWindowManager \<Rightarrow> sliding_find_longest_cache_hit
     | ChunkedLocalAttentionManager \<Rightarrow> chunked_find_longest_cache_hit
     | MambaManager \<Rightarrow> mamba_find_longest_cache_hit
     | CrossAttentionManager \<Rightarrow> cross_find_longest_cache_hit)"

section \<open>What a lookup returns\<close>

text \<open>\<open>carries p g h b\<close>: block \<open>b\<close> holds the content hashed by \<open>h\<close> for group \<open>g\<close>.  A row is cached
  when every group has such a block.\<close>

definition carries :: "BlockPool \<Rightarrow> int \<Rightarrow> bytes \<Rightarrow> block_ref \<Rightarrow> bool" where
  "carries p g h b \<longleftrightarrow> usable p b \<and> hash_of p b = Some (h @ to_bytes_list 4 g)"

definition row_cached :: "BlockPool \<Rightarrow> int list \<Rightarrow> bytes \<Rightarrow> bool" where
  "row_cached p gids h \<longleftrightarrow> (\<forall>g\<in>set gids. \<exists>b. carries p g h b)"

definition row :: "BlockPool \<Rightarrow> int list \<Rightarrow> bytes \<Rightarrow> block_ref list" where
  "row p gids h = (case get_cached_block h gids p of Inr (Some bs) \<Rightarrow> bs | _ \<Rightarrow> [])"

definition groups_ok :: "int list \<Rightarrow> bool" where
  "groups_ok gids \<longleftrightarrow> gids \<noteq> [] \<and> (\<forall>g\<in>set gids. 0 \<le> g \<and> g < 2 ^ 32)"

lemma group_key: "0 \<le> g \<Longrightarrow> g < 2 ^ 32 \<Longrightarrow> make_block_hash_with_group_id h g = Inr (h @ to_bytes_list 4 g)"
  by (simp add: make_block_hash_with_group_id_def to_bytes_big_def)

lemma lookup_row:
  assumes "pool_inv p xs" and "groups_ok gids"
  shows "get_cached_block h gids p = Inr (if row_cached p gids h then Some (row p gids h) else None)"
    and "row_cached p gids h \<Longrightarrow> list_all2 (\<lambda>g b. carries p g h b) gids (row p gids h)"
proof -
  have key: "make_block_hash_with_group_id h g = Inr (h @ to_bytes_list 4 g)" if "g \<in> set gids" for g
    using assms(2) that group_key by (auto simp: groups_ok_def)
  then obtain r where r: "get_cached_block h gids p = Inr r" "case r of
       None \<Rightarrow> \<exists>g\<in>set gids. \<forall>k b. make_block_hash_with_group_id h g = Inr k \<longrightarrow> usable p b \<longrightarrow> hash_of p b \<noteq> Some k
     | Some bs \<Rightarrow> list_all2 (\<lambda>g b. usable p b \<and> (\<exists>k. make_block_hash_with_group_id h g = Inr k \<and> hash_of p b = Some k)) gids bs"
    using get_cached_block_spec[OF assms(1), of gids h] by blast
  have A: "list_all2 (\<lambda>g b. carries p g h b) gids bs" if "r = Some bs" for bs
    using r(2) key that by (auto simp: list_all2_conv_all_nth carries_def)
  have B: "row_cached p gids h" if "r = Some bs" for bs
    unfolding row_cached_def
  proof
    fix g assume "g \<in> set gids"
    then obtain i where "i < length gids" "g = gids ! i" by (metis in_set_conv_nth)
    with A[OF that] show "\<exists>b. carries p g h b" by (auto simp: list_all2_conv_all_nth intro!: exI[of _ "bs ! i"])
  qed
  have C: "\<not> row_cached p gids h" if "r = None"
    using r(2) key that by (auto simp: row_cached_def carries_def)
  show "get_cached_block h gids p = Inr (if row_cached p gids h then Some (row p gids h) else None)"
    using r(1) B C by (cases r) (auto simp: row_def)
  show "list_all2 (\<lambda>g b. carries p g h b) gids (row p gids h)" if "row_cached p gids h"
    using r(1) A C that by (cases r) (auto simp: row_def)
qed

section \<open>Aligning and dropping\<close>

definition aligned :: "int \<Rightarrow> int \<Rightarrow> nat \<Rightarrow> bool" where
  "aligned bsz align n \<longleftrightarrow> bsz = align \<or> int n * bsz mod align = 0"

lemma aligned_0 [simp]: "aligned bsz align 0"
  by (simp add: aligned_def)

lemma map_take_full: "\<forall>c\<in>set cs. length c = n \<Longrightarrow> map (take n) cs = cs"
  by (auto intro: map_idI)

lemma map_nil_id: "\<forall>c\<in>set cs. c = [] \<Longrightarrow> map (\<lambda>_. []) cs = cs"
  by (auto intro: map_idI)

lemma realign_spec:
  assumes "cs \<noteq> []" and "\<forall>c\<in>set cs. length c = n"
  shows "\<exists>m\<le>n. realign bsz align cs = Inr (map (take m) cs) \<and> aligned bsz align m
    \<and> (\<forall>m'. m < m' \<longrightarrow> m' \<le> n \<longrightarrow> \<not> aligned bsz align m')"
  using assms
proof (induction n arbitrary: cs)
  case 0
  then have "nth_r cs 0 = Inr []" by (cases cs) (auto simp: nth_r_def)
  with 0 show ?case by (intro exI[of _ 0]) (subst realign.simps, simp add: map_nil_id)
next
  case (Suc n)
  have hd: "nth_r cs 0 = Inr (hd cs)" "length (hd cs) = Suc n" using Suc.prems by (cases cs; auto simp: nth_r_def)+
  show ?case
  proof (cases "aligned bsz align (Suc n)")
    case True
    then have "realign bsz align cs = Inr cs" using hd by (subst realign.simps) (auto simp: aligned_def)
    with True Suc.prems(2) show ?thesis by (intro exI[of _ "Suc n"]) (auto simp: map_take_full)
  next
    case False
    let ?cs = "map (take n) cs"
    have "pop_each cs = Inr ?cs" using Suc.prems(2) by (auto simp: pop_each_def butlast_conv_take)
    then have "realign bsz align cs = realign bsz align ?cs"
      using hd False by (subst realign.simps) (auto simp: aligned_def)
    moreover obtain m where "m \<le> n" "realign bsz align ?cs = Inr (map (take m) ?cs)" "aligned bsz align m"
      "\<forall>m'. m < m' \<longrightarrow> m' \<le> n \<longrightarrow> \<not> aligned bsz align m'"
      using Suc.IH[of ?cs] Suc.prems by auto
    ultimately show ?thesis using False by (intro exI[of _ m]) (auto simp: le_Suc_eq min_def)
  qed
qed

lemma realign_aligned:
  assumes "cs \<noteq> []" and "\<forall>c\<in>set cs. length c = n" and "aligned bsz align n"
  shows "realign bsz align cs = Inr cs"
proof -
  obtain m where "m \<le> n" "realign bsz align cs = Inr (map (take m) cs)" "\<forall>m'. m < m' \<longrightarrow> m' \<le> n \<longrightarrow> \<not> aligned bsz align m'"
    using realign_spec[OF assms(1,2)] by blast
  moreover from this assms(3) have "m = n" by (metis le_neq_implies_less order_refl)
  ultimately show ?thesis using assms(2) by (simp add: map_take_full)
qed

lemma pop_each_take:
  "\<forall>c\<in>set cs. length c = n \<Longrightarrow> 0 < n \<Longrightarrow> pop_each cs = Inr (map (take (n - 1)) cs)"
  by (cases n) (auto simp: pop_each_def butlast_conv_take)

lemma eagle_drop_spec:
  assumes "cs \<noteq> []" and "\<forall>c\<in>set cs. length c = n"
  shows "eagle_drop e cs = Inr (map (take (n - of_bool e)) cs)"
proof -
  have "nth_r cs 0 = Inr (hd cs)" "length (hd cs) = n" using assms by (cases cs; auto simp: nth_r_def)+
  moreover from this have "n \<noteq> 0 \<Longrightarrow> hd cs \<noteq> []" by auto
  ultimately show ?thesis using assms
    by (cases "n = 0") (auto simp: eagle_drop_def pop_each_take[of cs n] map_take_full map_nil_id)
qed

section \<open>Hits from the left\<close>

lemma hashes_at_nth: "i < length (hashes_iter hashes) \<Longrightarrow> hashes_at hashes (int i) = Inr (hashes_iter hashes ! i)"
  by (cases hashes) (auto simp: bhl_iter_def)

lemma map_nth_length: "length cs = n \<Longrightarrow> map ((!) cs) [0..<n] = cs"
  using map_nth[of cs] by simp

lemma append_each_nth:
  "length cs = length bs \<Longrightarrow> append_each cs bs = map (\<lambda>j. cs ! j @ [bs ! j]) [0..<length cs]"
proof (induction cs bs rule: append_each.induct)
  case (1 c cs b bs)
  then show ?case by (simp add: upt_conv_Cons map_Suc_upt[symmetric] del: upt_Suc)
qed auto

lemma full_hit_loop_spec:
  assumes "pool_inv p xs" and "groups_ok gids" and "length cs = length gids"
  shows "full_hit_loop hs gids p cs =
    Inr (map (\<lambda>j. cs ! j @ map (\<lambda>h. row p gids h ! j) (takeWhile (row_cached p gids) hs)) [0..<length gids])"
  using assms(3)
proof (induction hs arbitrary: cs)
  case (Cons h hs)
  show ?case
  proof (cases "row_cached p gids h")
    case True
    note L = lookup_row[OF assms(1,2), of h]
    have len: "length (row p gids h) = length gids" using L(2) True by (auto dest: list_all2_lengthD)
    then obtain b bs where row: "row p gids h = b # bs" using assms(2) by (cases "row p gids h") (auto simp: groups_ok_def)
    then have "full_hit_loop (h # hs) gids p cs = full_hit_loop hs gids p (append_each cs (row p gids h))"
      using L(1) True by simp
    also have "\<dots> = Inr (map (\<lambda>j. append_each cs (row p gids h) ! j @ map (\<lambda>h. row p gids h ! j)
        (takeWhile (row_cached p gids) hs)) [0..<length gids])"
      using Cons.prems len by (intro Cons.IH) (simp add: append_each_nth)
    also have "\<dots> = Inr (map (\<lambda>j. cs ! j @ map (\<lambda>h. row p gids h ! j)
        (takeWhile (row_cached p gids) (h # hs))) [0..<length gids])"
      using Cons.prems len True by (auto simp: append_each_nth)
    finally show ?thesis .
  next
    case False
    then have "full_hit_loop (h # hs) gids p cs = Inr cs" using lookup_row(1)[OF assms(1,2), of h] by simp
    then show ?thesis using False Cons.prems by (simp add: map_nth_length)
  qed
qed (simp add: map_nth_length)

lemma chunked_hit_loop_full:
  "\<forall>i\<in>set idxs. hashes_at hashes (int i) = Inr (f i) \<Longrightarrow>
   chunked_hit_loop idxs hashes gids p cs = full_hit_loop (map f idxs) gids p cs"
  by (induction idxs arbitrary: cs) (auto split: option.splits list.splits intro!: arg_cong[where f = "bind_r _"] ext)

text \<open>A list of columns, one per group, whose entry \<open>i\<close> holds the content of the \<open>i\<close>-th hash.\<close>

definition prefix_hit :: "BlockPool \<Rightarrow> int list \<Rightarrow> bytes list \<Rightarrow> nat \<Rightarrow> block_ref list list \<Rightarrow> bool" where
  "prefix_hit p gids hs m cs \<longleftrightarrow> length cs = length gids \<and> m \<le> length hs
     \<and> (\<forall>j<length gids. length (cs ! j) = m \<and> (\<forall>i<m. carries p (gids ! j) (hs ! i) (cs ! j ! i)))"

lemma prefix_hit_take: "prefix_hit p gids hs n cs \<Longrightarrow> m \<le> n \<Longrightarrow> prefix_hit p gids hs m (map (take m) cs)"
  by (auto simp: prefix_hit_def)

lemma prefix_hit_lengths: "prefix_hit p gids hs n cs \<Longrightarrow> \<forall>c\<in>set cs. length c = n"
  by (auto simp: prefix_hit_def in_set_conv_nth)

lemma takeWhile_rows:
  assumes "pool_inv p xs" and "groups_ok gids"
  defines "ok \<equiv> row_cached p gids"
  shows "prefix_hit p gids hs (length (takeWhile ok hs))
    (map (\<lambda>j. map (\<lambda>h. row p gids h ! j) (takeWhile ok hs)) [0..<length gids])"
proof -
  have "carries p (gids ! j) (hs ! i) (row p gids (takeWhile ok hs ! i) ! j)"
    if "j < length gids" "i < length (takeWhile ok hs)" for i j
  proof -
    have "takeWhile ok hs ! i = hs ! i" "ok (hs ! i)"
      using that(2) nth_mem[OF that(2)] by (auto simp: takeWhile_nth dest!: set_takeWhileD)
    then show ?thesis using lookup_row(2)[OF assms(1,2), of "hs ! i"] that(1)
      by (simp add: ok_def list_all2_conv_all_nth)
  qed
  then show ?thesis by (simp add: prefix_hit_def length_takeWhile_le)
qed

lemma full_find_spec:
  fixes hashes :: BlockHashList and e :: bool
  assumes inv: "pool_inv p xs" and g: "groups_ok gids" and s: "is_full s \<or> spec_class s = ChunkedLocalAttentionSpec"
    and n: "0 \<le> max_length div parallel_block_size (block_size s) dcp pcp"
  defines "bsz \<equiv> parallel_block_size (block_size s) dcp pcp"
  defines "hs \<equiv> take (nat (max_length div bsz)) (hashes_iter hashes)"
  defines "k \<equiv> length (takeWhile (row_cached p gids) hs) - of_bool e"
  shows "\<exists>cs m. full_find_longest_cache_hit hashes max_length gids p s e align dcp pcp = Inr cs
    \<and> prefix_hit p gids hs m cs \<and> m \<le> k \<and> aligned bsz align m \<and> (\<forall>m'. m < m' \<longrightarrow> m' \<le> k \<longrightarrow> \<not> aligned bsz align m')"
proof -
  let ?cs = "map (\<lambda>j. map (\<lambda>h. row p gids h ! j) (takeWhile (row_cached p gids) hs)) [0..<length gids]"
  have ne: "gids \<noteq> []" using g by (simp add: groups_ok_def)
  have "full_hit_loop hs gids p (map (\<lambda>_. []) gids) = Inr ?cs"
    using full_hit_loop_spec[OF inv g, of "map (\<lambda>_. []) gids" hs] by (simp cong: map_cong)
  moreover note P = takeWhile_rows[OF inv g, of hs]
  have "eagle_drop e ?cs = Inr (map (take k) ?cs)"
    unfolding k_def using ne prefix_hit_lengths[OF P] by (intro eagle_drop_spec) auto
  moreover have K: "prefix_hit p gids hs k (map (take k) ?cs)"
    by (rule prefix_hit_take[OF P]) (simp add: k_def)
  obtain m where m: "m \<le> k" "realign bsz align (map (take k) ?cs) = Inr (map (take m) (map (take k) ?cs))"
    "aligned bsz align m" "\<forall>m'. m < m' \<longrightarrow> m' \<le> k \<longrightarrow> \<not> aligned bsz align m'"
    using realign_spec[OF _ prefix_hit_lengths[OF K], of bsz align] ne by auto
  ultimately have "full_find_longest_cache_hit hashes max_length gids p s e align dcp pcp
      = Inr (map (take m) (map (take k) ?cs))"
    using s n unfolding full_find_longest_cache_hit_def Let_def bsz_def[symmetric] hs_def[symmetric] by simp
  with m prefix_hit_take[OF K m(1)] show ?thesis by blast
qed

text \<open>A pool whose blocks hold the contents of given hashes, for the examples below.\<close>

lemma sample_cached_pool:
  "\<exists>p. pool_inv p (map Block [1..<Suc (length hs)])
     \<and> (\<forall>h b. carries p 0 h b \<longleftrightarrow> (\<exists>i<length hs. b = Block (Suc i) \<and> h = hs ! i))"
proof -
  let ?bs = "map Block [1..<Suc (length hs)]" and ?n = "int (length hs) + 1" and ?g = "to_bytes_list 4 0"
  obtain p0 where p0: "pool_inv p0 ?bs" "num_gpu_blocks p0 = ?n" "\<forall>i. int i < ?n \<longrightarrow> hash_of p0 (Block i) = None"
    using block_pool_init_spec[of ?n True 16 False False] by (auto simp: nat_add_distrib simp del: upt_Suc)
  have u: "usable p0 b \<longleftrightarrow> (\<exists>i<length hs. b = Block (Suc i))" for b
    unfolding usable_def p0(2) by (auto simp: gr0_conv_Suc)
  have "\<forall>b\<in>set ?bs. usable p0 b \<and> hash_of p0 b = None \<or> b = null_block p0"
    using u p0(3) by (auto simp: gr0_conv_Suc Suc_le_eq simp del: upt_Suc)
  moreover have "distinct (filter (usable p0) ?bs)" using pool_coreD(9)[OF p0(1)] by (rule distinct_filter)
  moreover have "to_bytes_big 0 4 = Inr ?g" by (simp add: to_bytes_big_def)
  ultimately obtain p1 where p1: "pool_inv p1 ?bs" "pool_static p0 p1"
    "\<forall>c. hash_of p1 c = (case map_of (zip ?bs (drop 0 hs)) c of
              Some h \<Rightarrow> if usable p0 c then Some (h @ ?g) else hash_of p0 c | None \<Rightarrow> hash_of p0 c)"
    using cache_loop_spec[OF p0(1), of ?bs 0 hs 0 ?g False "[]"] by (auto simp del: upt_Suc)
  have h: "hash_of p1 (Block (Suc i)) = Some (hs ! i @ ?g)" if "i < length hs" for i
  proof -
    have "map_of (zip ?bs hs) (?bs ! i) = Some (hs ! i)"
      using that pool_coreD(9)[OF p0(1)] by (intro map_of_zip_nth) (simp_all del: upt_Suc)
    then show ?thesis using that p1(3) u by (simp del: upt_Suc)
  qed
  have "carries p1 0 k b \<longleftrightarrow> (\<exists>i<length hs. b = Block (Suc i) \<and> k = hs ! i)" for k b
    unfolding carries_def pool_static_usable[OF p1(2)] u using h by fastforce
  with p1(1) show ?thesis by blast
qed

section \<open>Hits in a sliding window\<close>

declare get_cached_block.simps [simp del]

text \<open>Columns of length \<open>L\<close> whose last \<open>need\<close> entries hold the content of their hashes; the entries
  before are null blocks or hold it too.\<close>

definition window_hit :: "BlockPool \<Rightarrow> int list \<Rightarrow> bytes list \<Rightarrow> nat \<Rightarrow> nat \<Rightarrow> block_ref list list \<Rightarrow> bool" where
  "window_hit p gids hs need L cs \<longleftrightarrow> length cs = length gids \<and> L \<le> length hs
     \<and> (\<forall>j<length gids. length (cs ! j) = L
          \<and> (\<forall>i<L. (cs ! j ! i = null_block p \<or> carries p (gids ! j) (hs ! i) (cs ! j ! i))
                 \<and> (L \<le> i + need \<longrightarrow> carries p (gids ! j) (hs ! i) (cs ! j ! i))))"

text \<open>The state of the scan: columns of full length, with a run of \<open>k\<close> hits from index \<open>i\<close> on.\<close>

definition scan :: "BlockPool \<Rightarrow> int list \<Rightarrow> bytes list \<Rightarrow> nat \<Rightarrow> nat \<Rightarrow> nat \<Rightarrow> block_ref list list \<Rightarrow> bool" where
  "scan p gids hs N i k cs \<longleftrightarrow> length cs = length gids \<and> N \<le> length hs \<and> i + k \<le> N
     \<and> (\<forall>j<length gids. length (cs ! j) = N
          \<and> (\<forall>t<N. (cs ! j ! t = null_block p \<or> carries p (gids ! j) (hs ! t) (cs ! j ! t))
                 \<and> (i \<le> t \<and> t < i + k \<longrightarrow> carries p (gids ! j) (hs ! t) (cs ! j ! t))))"

lemma scan_miss: "scan p gids hs N (Suc i) k cs \<Longrightarrow> scan p gids hs N i 0 cs"
  by (auto simp: scan_def)

lemma set_each_nth:
  "length cs = length bs \<Longrightarrow> set_each i cs bs = map (\<lambda>j. (cs ! j)[i := bs ! j]) [0..<length cs]"
proof (induction i cs bs rule: set_each.induct)
  case (1 i c cs b bs)
  then show ?case by (simp add: upt_conv_Cons map_Suc_upt[symmetric] del: upt_Suc)
qed auto

lemma scan_hit:
  assumes "scan p gids hs N (Suc i) k cs" and "list_all2 (\<lambda>g b. carries p g (hs ! i) b) gids bs"
  shows "scan p gids hs N i (Suc k) (set_each i cs bs)"
proof -
  have len: "length bs = length gids" "length cs = length gids"
    using assms by (auto simp: scan_def list_all2_lengthD)
  have c: "carries p (gids ! j) (hs ! i) (bs ! j)" if "j < length gids" for j
    using assms(2) that by (auto simp: list_all2_conv_all_nth)
  show ?thesis using assms(1) len c unfolding scan_def
    by (auto simp: set_each_nth nth_list_update)
qed

lemma scan_window:
  assumes "scan p gids hs N i k cs"
  shows "window_hit p gids hs k (i + k) (map (\<lambda>c. slice_to c (int i + int k)) cs)"
  using assms by (auto simp: scan_def window_hit_def nat_add_distrib)

lemma scan_prefix:
  assumes "scan p gids hs N 0 k cs"
  shows "prefix_hit p gids hs k (map (\<lambda>c. slice_to c (int k)) cs)"
  using assms by (auto simp: scan_def prefix_hit_def)

lemma prefix_window: "prefix_hit p gids hs L cs \<Longrightarrow> window_hit p gids hs need L cs"
  by (auto simp: prefix_hit_def window_hit_def)

lemma window_hit_take:
  "window_hit p gids hs (need + d) L cs \<Longrightarrow> d \<le> L \<Longrightarrow> window_hit p gids hs need (L - d) (map (take (L - d)) cs)"
  by (auto simp: window_hit_def)

lemma window_hit_mono: "window_hit p gids hs n L cs \<Longrightarrow> m \<le> n \<Longrightarrow> window_hit p gids hs m L cs"
  by (auto simp: window_hit_def)

lemma window_hit_lengths: "window_hit p gids hs need L cs \<Longrightarrow> \<forall>c\<in>set cs. length c = L"
  by (auto simp: window_hit_def in_set_conv_nth)

text \<open>An end position the scan may stop at: aligned, and preceded by a full window of cached rows (or by
  cached rows only).\<close>

definition good_end :: "BlockPool \<Rightarrow> int list \<Rightarrow> bytes list \<Rightarrow> int \<Rightarrow> int \<Rightarrow> bool \<Rightarrow> int \<Rightarrow> nat \<Rightarrow> bool" where
  "good_end p gids hs bsz align e need L \<longleftrightarrow> 0 < L \<and> aligned bsz align (L - of_bool e)
     \<and> (\<forall>t<L. L \<le> t + nat (max 1 need) \<longrightarrow> row_cached p gids (hs ! t))"

lemma good_end_miss:
  assumes "good_end p gids hs bsz align e need L" "L \<le> Suc i + k" "\<not> row_cached p gids (hs ! i)" "k = 0 \<or> int k < need"
  shows "L \<le> i"
proof (rule ccontr)
  assume "\<not> L \<le> i"
  then have "i < L" "L \<le> i + nat (max 1 need)" using assms(2,4) by linarith+
  with assms(1,3) show False by (simp add: good_end_def)
qed

lemma sliding_hit_loop_spec:
  assumes inv: "pool_inv p xs" and g: "groups_ok gids"
    and "scan p gids hs N i k cs" and hs: "\<forall>t<N. hashes_at hashes (int t) = Inr (hs ! t)"
    and "k = 0 \<or> aligned bsz align (i + k - of_bool e) \<and> int k < need"
    and "\<forall>L\<le>N. good_end p gids hs bsz align e need L \<longrightarrow> L \<le> i + k"
  shows "\<exists>found k' cs'. sliding_hit_loop i hashes gids p bsz e align need (int k) cs = Inr (found, int k', cs')
    \<and> (if found then \<exists>L\<le>N. window_hit p gids hs k' L cs' \<and> need \<le> int k' \<and> 0 < k' \<and> k' \<le> L \<and> aligned bsz align (L - of_bool e)
            \<and> (\<forall>L'\<le>N. good_end p gids hs bsz align e need L' \<longrightarrow> L' \<le> L)
       else scan p gids hs N 0 k' cs' \<and> (k' = 0 \<or> aligned bsz align (k' - of_bool e))
            \<and> (\<forall>L'\<le>N. good_end p gids hs bsz align e need L' \<longrightarrow> L' \<le> k'))"
  using assms(3,5,6)
proof (induction i arbitrary: k cs)
  case (Suc i)
  have i: "hashes_at hashes (int i) = Inr (hs ! i)" using Suc.prems(1) hs by (simp add: scan_def)
  note L = lookup_row[OF inv g, of "hs ! i"]
  show ?case
  proof (cases "row_cached p gids (hs ! i)")
    case False
    then have "sliding_hit_loop (Suc i) hashes gids p bsz e align need (int k) cs =
        sliding_hit_loop i hashes gids p bsz e align need (int 0) cs" using i L(1) by simp
    moreover have "\<forall>L\<le>N. good_end p gids hs bsz align e need L \<longrightarrow> L \<le> i + 0"
      using good_end_miss[OF _ _ False, where k = k] Suc.prems(2,3) by auto
    ultimately show ?thesis using Suc.IH[OF scan_miss[OF Suc.prems(1)]] by simp
  next
    case True
    note row = L(2)[OF True]
    then obtain b bs where bs: "row p gids (hs ! i) = b # bs" using g by (cases "row p gids (hs ! i)") (auto simp: groups_ok_def)
    let ?cs = "set_each i cs (b # bs)"
    have hit: "scan p gids hs N i (Suc k) ?cs" using scan_hit[OF Suc.prems(1) row] bs by simp
    have step: "sliding_hit_loop (Suc i) hashes gids p bsz e align need (int k) cs =
       (if k = 0 \<and> \<not> aligned bsz align (Suc i - of_bool e) then sliding_hit_loop i hashes gids p bsz e align need (int k) cs
        else if int (Suc k) \<ge> need then Inr (True, int (Suc k), map (\<lambda>c. slice_to c (int i + int (Suc k))) ?cs)
        else sliding_hit_loop i hashes gids p bsz e align need (int (Suc k)) ?cs)"
      using i L(1) True bs by (cases e) (simp_all add: aligned_def add.commute Let_def)
    show ?thesis
    proof (cases "k = 0 \<and> \<not> aligned bsz align (Suc i - of_bool e)")
      case True
      then have "\<forall>L\<le>N. good_end p gids hs bsz align e need L \<longrightarrow> L \<le> i + 0"
        using Suc.prems(3) by (auto simp: good_end_def le_Suc_eq)
      then show ?thesis using Suc.IH[OF scan_miss[OF Suc.prems(1)]] step True by simp
    next
      case False
      then have al: "aligned bsz align (i + Suc k - of_bool e)" using Suc.prems(2) by (cases "k = 0") auto
      show ?thesis
      proof (cases "int (Suc k) \<ge> need")
        case True
        moreover have "i + Suc k \<le> N" using hit by (simp add: scan_def)
        moreover have "\<forall>L\<le>N. good_end p gids hs bsz align e need L \<longrightarrow> L \<le> i + Suc k" using Suc.prems(3) by auto
        ultimately show ?thesis using False step scan_window[OF hit] al
          by (intro exI[of _ True] exI[of _ "Suc k"]) (auto intro!: exI[of _ "i + Suc k"])
      next
        case f: False
        have "sliding_hit_loop (Suc i) hashes gids p bsz e align need (int k) cs
            = sliding_hit_loop i hashes gids p bsz e align need (int (Suc k)) ?cs"
          unfolding step if_not_P[OF False] if_not_P[OF f] ..
        then show ?thesis using Suc.IH[OF hit] al f Suc.prems(3) by simp
      qed
    qed
  qed
qed (intro exI[of _ False], auto)

lemma scan_start:
  assumes "N \<le> length hs"
  shows "scan p gids hs N N 0 (map (\<lambda>_. repeat_list (null_block p) (int N)) gids)"
  using assms by (simp add: scan_def repeat_list_def)

lemma sliding_tail_found:
  assumes W: "window_hit p gids hs (need + of_bool e) L cs" and g: "gids \<noteq> []" and L: "0 < L"
    and al: "aligned bsz align (L - of_bool e)"
  shows "\<exists>cs'. (if e then bind_r (nth_r cs 0) (\<lambda>c. if c = [] then Inr cs else bind_r (pop_each cs) (realign bsz align))
       else Inr cs) = Inr cs' \<and> window_hit p gids hs need (L - of_bool e) cs'"
proof (cases e)
  case True
  have ne: "cs \<noteq> []" using W g by (auto simp: window_hit_def)
  have len: "\<forall>c\<in>set cs. length c = L" by (rule window_hit_lengths[OF W])
  have hd: "nth_r cs 0 = Inr (hd cs)" "hd cs \<noteq> []" using ne len L by (cases cs; auto simp: nth_r_def)+
  let ?cs = "map (take (L - 1)) cs"
  have W': "window_hit p gids hs need (L - 1) ?cs" using window_hit_take[of p gids hs need 1 L cs] W L True by simp
  have "realign bsz align ?cs = Inr ?cs"
    using ne al True by (intro realign_aligned[OF _ window_hit_lengths[OF W']]) auto
  then show ?thesis using hd True W' pop_each_take[OF len L] by simp
qed (use W in simp)

lemma sliding_tail_prefix:
  assumes P: "prefix_hit p gids hs L cs" and g: "gids \<noteq> []" and al: "aligned bsz align L"
  shows "\<exists>cs' m. (if e then bind_r (nth_r cs 0) (\<lambda>c. if c = [] then Inr cs else bind_r (pop_each cs) (realign bsz align))
       else Inr cs) = Inr cs' \<and> prefix_hit p gids hs m cs' \<and> m \<le> L \<and> (m = 0 \<or> m + of_bool e \<le> L) \<and> aligned bsz align m
    \<and> (\<not> e \<or> bsz = align \<longrightarrow> L \<le> m + of_bool e)"
proof (cases "e \<and> 0 < L")
  case True
  have ne: "cs \<noteq> []" using P g by (auto simp: prefix_hit_def)
  have len: "\<forall>c\<in>set cs. length c = L" by (rule prefix_hit_lengths[OF P])
  have hd: "nth_r cs 0 = Inr (hd cs)" "hd cs \<noteq> []" using ne len True by (cases cs; auto simp: nth_r_def)+
  let ?cs = "map (take (L - 1)) cs"
  have P': "prefix_hit p gids hs (L - 1) ?cs" by (rule prefix_hit_take[OF P]) simp
  obtain m where "m \<le> L - 1" "realign bsz align ?cs = Inr (map (take m) ?cs)" "aligned bsz align m"
    "\<forall>m'. m < m' \<longrightarrow> m' \<le> L - 1 \<longrightarrow> \<not> aligned bsz align m'"
    using realign_spec[OF _ prefix_hit_lengths[OF P'], of bsz align] ne by auto
  moreover from this(1,4) have "bsz = align \<Longrightarrow> L \<le> m + 1" by (cases "m < L - 1") (auto simp: aligned_def)
  ultimately show ?thesis using prefix_hit_take[OF P'] hd True pop_each_take[OF len]
    by (intro exI[of _ "map (take m) ?cs"] exI[of _ m]) auto
next
  case False
  have ne: "cs \<noteq> []" using P g by (auto simp: prefix_hit_def)
  have "nth_r cs 0 = Inr (hd cs)" "length (hd cs) = L"
    using ne prefix_hit_lengths[OF P] by (cases cs; auto simp: nth_r_def)+
  with False P al show ?thesis by (intro exI[of _ cs] exI[of _ L]) auto
qed

lemma sliding_find_spec:
  fixes hashes :: BlockHashList and e :: bool
  assumes inv: "pool_inv p xs" and g: "groups_ok gids" and s: "is_sliding s" "sliding_window s = Some w" "1 \<le> w"
    and b: "0 < block_size s" and n: "0 \<le> max_length" "max_length div block_size s \<le> int (length (hashes_iter hashes))"
  shows "\<exists>cs L. sliding_find_longest_cache_hit hashes max_length gids p s e align 1 1 = Inr cs
    \<and> window_hit p gids (hashes_iter hashes) (nat (cdiv (w - 1) (block_size s))) L cs
    \<and> aligned (block_size s) align L \<and> int L \<le> max_length div block_size s \<and> (L = 0 \<or> int L + of_bool e \<le> max_length div block_size s)
    \<and> (\<not> e \<or> block_size s = align \<longrightarrow> (\<forall>L'. int L' \<le> max_length div block_size s \<longrightarrow>
          good_end p gids (hashes_iter hashes) (block_size s) align e (cdiv (w - 1) (block_size s) + of_bool e) L' \<longrightarrow> L' \<le> L + of_bool e))"
proof -
  define bsz where "bsz = block_size s"
  define N where "N = nat (max_length div bsz)"
  define c where "c = nat (cdiv (w - 1) bsz)"
  define hs where "hs = hashes_iter hashes"
  have ne: "gids \<noteq> []" using g by (simp add: groups_ok_def)
  have N: "max_length div bsz = int N" "N \<le> length hs" using b n by (auto simp: N_def bsz_def hs_def pos_imp_zdiv_nonneg_iff)
  have c: "cdiv (w - 1) bsz = int c" using s b by (auto simp: c_def bsz_def cdiv_nonneg)
  define need where "need = int c + of_bool e"
  have need: "int c + (if e then 1 else 0) = need" by (simp add: need_def)
  let ?cs = "map (\<lambda>_. repeat_list (null_block p) (int N)) gids"
  have "\<forall>t<N. hashes_at hashes (int t) = Inr (hs ! t)" using N(2) hashes_at_nth unfolding hs_def by auto
  from sliding_hit_loop_spec[OF inv g scan_start[OF N(2)] this, of bsz align e need]
  obtain found k' cs' where loop: "sliding_hit_loop N hashes gids p bsz e align need 0 ?cs = Inr (found, int k', cs')"
    and res: "if found then \<exists>L\<le>N. window_hit p gids hs k' L cs' \<and> need \<le> int k' \<and> 0 < k' \<and> k' \<le> L \<and> aligned bsz align (L - of_bool e)
            \<and> (\<forall>L'\<le>N. good_end p gids hs bsz align e need L' \<longrightarrow> L' \<le> L)
       else scan p gids hs N 0 k' cs' \<and> (k' = 0 \<or> aligned bsz align (k' - of_bool e))
            \<and> (\<forall>L'\<le>N. good_end p gids hs bsz align e need L' \<longrightarrow> L' \<le> k')" by auto
  let ?best = "\<lambda>K. \<not> e \<or> bsz = align \<longrightarrow> (\<forall>L'\<le>N. good_end p gids hs bsz align e need L' \<longrightarrow> L' \<le> K)"
  define tail where "tail cs = (if e then bind_r (nth_r cs 0) (\<lambda>c. if c = [] then Inr cs else bind_r (pop_each cs) (realign bsz align))
       else Inr cs)" for cs :: "block_ref list list"
  have run: "sliding_find_longest_cache_hit hashes max_length gids p s e align 1 1 =
      bind_r (if found then Inr cs' else realign bsz align (map (\<lambda>c. slice_to c (int k')) cs')) tail"
    unfolding sliding_find_longest_cache_hit_def Let_def s(2) option.case bsz_def[symmetric] N(1) nat_int c
      need loop tail_def using s(1) by simp
  have "\<exists>cs L. sliding_find_longest_cache_hit hashes max_length gids p s e align 1 1 = Inr cs
    \<and> window_hit p gids hs c L cs \<and> aligned bsz align L \<and> L \<le> N \<and> (L = 0 \<or> L + of_bool e \<le> N) \<and> ?best (L + of_bool e)"
  proof (cases found)
    case True
    then obtain L where L: "L \<le> N" "window_hit p gids hs k' L cs'" "need \<le> int k'" "0 < k'" "k' \<le> L" "aligned bsz align (L - of_bool e)"
      "?best L" using res by auto
    have "window_hit p gids hs (c + of_bool e) L cs'"
      using L(3) by (intro window_hit_mono[OF L(2)]) (auto simp: need_def split: if_splits)
    from sliding_tail_found[OF this ne _ L(6)] L(4,5) obtain cs where
      "tail cs' = Inr cs" "window_hit p gids hs c (L - of_bool e) cs" unfolding tail_def by auto
    then show ?thesis using run True L(1,4,5,6,7) by (intro exI[of _ cs] exI[of _ "L - of_bool e"]) auto
  next
    case False
    then have sc: "scan p gids hs N 0 k' cs'" and k': "k' = 0 \<or> aligned bsz align (k' - of_bool e)" "?best k'"
      using res by simp_all
    let ?cs = "map (\<lambda>c. slice_to c (int k')) cs'"
    note P = scan_prefix[OF sc]
    have "?cs \<noteq> []" using P ne by (auto simp: prefix_hit_def)
    then obtain m where m: "m \<le> k'" "realign bsz align ?cs = Inr (map (take m) ?cs)" "aligned bsz align m"
      "\<forall>m'. m < m' \<longrightarrow> m' \<le> k' \<longrightarrow> \<not> aligned bsz align m'"
      using realign_spec[OF _ prefix_hit_lengths[OF P], of bsz align] by blast
    have km: "\<not> e \<or> bsz = align \<Longrightarrow> k' \<le> m"
      using k'(1) m(4)[rule_format, of k'] by (cases "m < k'") (auto simp: aligned_def)
    from sliding_tail_prefix[OF prefix_hit_take[OF P m(1)] ne m(3), of e] obtain cs m2 where
      "tail (map (take m) ?cs) = Inr cs" "prefix_hit p gids hs m2 cs" "m2 \<le> m \<and> (m2 = 0 \<or> m2 + of_bool e \<le> m)" "aligned bsz align m2"
      "\<not> e \<or> bsz = align \<longrightarrow> m \<le> m2 + of_bool e"
      unfolding tail_def by blast
    moreover have "?best (m2 + of_bool e)" using calculation(5) km k'(2) by (meson order_trans)
    moreover have "k' \<le> N" using sc by (simp add: scan_def)
    ultimately show ?thesis using run False m prefix_window by (intro exI[of _ cs] exI[of _ m2]) auto
  qed
  then obtain cs L where "sliding_find_longest_cache_hit hashes max_length gids p s e align 1 1 = Inr cs" "window_hit p gids hs c L cs"
    "aligned bsz align L" "L \<le> N" "L = 0 \<or> L + of_bool e \<le> N" "?best (L + of_bool e)" by blast
  then show ?thesis using N(1) c unfolding need_def hs_def bsz_def c_def by (intro exI[of _ cs] exI[of _ L]) auto
qed

lemma window_arith:
  fixes b t w L :: int
  assumes "0 < b" "0 \<le> t" "L * b - (w - 1) \<le> t" "t < L * b"
  shows "0 \<le> t div b" "t div b < L" "L \<le> t div b + cdiv (w - 1) b"
proof -
  show "0 \<le> t div b" using assms by (simp add: pos_imp_zdiv_nonneg_iff)
  show "t div b < L" using assms le_div_iff_int[of b L t] by linarith
  have "t < (t div b + 1) * b" using le_div_iff_int[of b "t div b + 1" t] assms(1) by linarith
  then have "(L - t div b - 1) * b < w - 1" using assms(3) by (simp add: algebra_simps)
  then show "L \<le> t div b + cdiv (w - 1) b" using less_cdiv_iff[OF assms(1), of "L - t div b - 1" "w - 1"] by linarith
qed

section \<open>Properties\<close>

text \<open>
  C14: The prefix-cache hit of full attention is the longest one.  Over the hashes of the first
  \<open>max_length // block_size\<close> blocks, the returned columns hold, block by block and group by group, the
  content those hashes name; their common length is aligned and does not exceed the number of leading
  hashes cached in every group (less the one block given up for EAGLE), and no longer aligned length
  within that bound exists.  The lookup never raises.
\<close>

theorem full_hit_longest:
  fixes hashes :: BlockHashList and e :: bool
  assumes "pool_inv p xs" and "groups_ok gids" and "is_full s" and "0 < block_size s" and "0 \<le> max_length"
  defines "hs \<equiv> take (nat (max_length div block_size s)) (hashes_iter hashes)"
  defines "k \<equiv> length (takeWhile (row_cached p gids) hs) - of_bool e"
  shows "\<exists>cs m. full_find_longest_cache_hit hashes max_length gids p s e align 1 1 = Inr cs
    \<and> prefix_hit p gids hs m cs \<and> m \<le> k \<and> aligned (block_size s) align m
    \<and> (\<forall>m'. m < m' \<longrightarrow> m' \<le> k \<longrightarrow> \<not> aligned (block_size s) align m')"
proof -
  have "parallel_block_size (block_size s) 1 1 = block_size s" by (simp add: parallel_block_size_def)
  with full_find_spec[OF assms(1,2), where s = s and max_length = max_length and dcp = 1 and pcp = 1
      and hashes = hashes and e = e and align = align] assms(3-5) show ?thesis
    by (simp add: hs_def k_def pos_imp_zdiv_nonneg_iff)
qed

theorem full_hit_longest_witness:
  "\<exists>p cs. pool_ok p \<and> cs = [[Block 1]]
     \<and> full_find_longest_cache_hit (Hashes [[7], [8]]) 32 [0] p (sample_spec FullAttentionSpec) False 16 1 1 = Inr cs"
proof -
  obtain p where p: "pool_inv p [Block 1]" "\<forall>h b. carries p 0 h b \<longleftrightarrow> b = Block 1 \<and> h = [7]"
    using sample_cached_pool[of "[[7]]"] by (auto simp: upt_rec)
  note car = p(2)[rule_format]
  have rows: "row_cached p [0] h \<longleftrightarrow> h = [7]" for h by (auto simp: row_cached_def car)
  let ?s = "sample_spec FullAttentionSpec"
  have s: "is_full ?s" "block_size ?s = 16" by (simp_all add: sample_spec_def is_full_def)
  have hs: "take (nat (32 div block_size ?s)) (hashes_iter (Hashes [[7], [8]])) = [[7], [8]]" by (simp add: s numeral_2_eq_2)
  have k: "length (takeWhile (row_cached p [0]) [[7], [8]]) = 1" by (simp add: rows)
  obtain cs m where cs: "full_find_longest_cache_hit (Hashes [[7], [8]]) 32 [0] p ?s False 16 1 1 = Inr cs"
    "prefix_hit p [0] [[7], [8]] m cs" "m \<le> 1" "\<forall>m'. m < m' \<longrightarrow> m' \<le> 1 \<longrightarrow> \<not> aligned 16 16 m'"
    using full_hit_longest[OF p(1), where gids = "[0]" and s = ?s and max_length = 32 and hashes = "Hashes [[7], [8]]"
      and e = False and align = 16] s unfolding hs k by (auto simp: groups_ok_def)
  have "m = 1" using cs(3) cs(4)[rule_format, of 1] by (cases m) (auto simp: aligned_def)
  with cs(2) have "length cs = 1" "length (cs ! 0) = 1" "cs ! 0 ! 0 = Block 1" by (auto simp: prefix_hit_def car)
  then have "cs = [[Block 1]]" by (cases cs) (auto simp: length_Suc_conv)
  with cs(1) p(1) show ?thesis by (auto simp: pool_ok_def)
qed

text \<open>
  C15: A sliding-window hit covers the window.  The scan from the right returns columns of one aligned
  length \<open>L\<close>, within \<open>max_length\<close>, such that every token the next position attends to, the last
  \<open>sliding_window - 1\<close> tokens before \<open>L * block_size\<close>, lies in a block that holds the content its hash
  names; every other entry is the null block or holds its content.  With EAGLE this is so after the last
  matched block has been dropped and the hit re-aligned.  Without EAGLE, or with one block size, no
  longer hit exists.
\<close>

theorem sliding_hit_covers_window:
  fixes hashes :: BlockHashList and e :: bool
  assumes "pool_inv p xs" and "groups_ok gids" and "is_sliding s" and "sliding_window s = Some w" and "1 \<le> w"
    and "0 < block_size s" and "0 \<le> max_length" and "max_length div block_size s \<le> int (length (hashes_iter hashes))"
  shows "\<exists>cs L. sliding_find_longest_cache_hit hashes max_length gids p s e align 1 1 = Inr cs
    \<and> length cs = length gids \<and> aligned (block_size s) align L \<and> int L * block_size s \<le> max_length
    \<and> (\<forall>j<length gids. length (cs ! j) = L
        \<and> (\<forall>i<L. cs ! j ! i = null_block p \<or> carries p (gids ! j) (hashes_iter hashes ! i) (cs ! j ! i))
        \<and> (\<forall>t. 0 \<le> t \<and> int L * block_size s - (w - 1) \<le> t \<and> t < int L * block_size s \<longrightarrow>
             carries p (gids ! j) (hashes_iter hashes ! nat (t div block_size s)) (cs ! j ! nat (t div block_size s))))
    \<and> (\<not> e \<or> block_size s = align \<longrightarrow> (\<forall>L'. int L' * block_size s \<le> max_length \<longrightarrow>
          good_end p gids (hashes_iter hashes) (block_size s) align e (cdiv (w - 1) (block_size s) + of_bool e) L' \<longrightarrow> L' \<le> L + of_bool e))"
proof -
  let ?b = "block_size s" and ?c = "nat (cdiv (w - 1) (block_size s))"
  obtain cs L where W: "sliding_find_longest_cache_hit hashes max_length gids p s e align 1 1 = Inr cs"
    "window_hit p gids (hashes_iter hashes) ?c L cs" "aligned ?b align L" "int L \<le> max_length div ?b"
    "\<not> e \<or> ?b = align \<longrightarrow> (\<forall>L'. int L' \<le> max_length div ?b \<longrightarrow>
          good_end p gids (hashes_iter hashes) ?b align e (cdiv (w - 1) ?b + of_bool e) L' \<longrightarrow> L' \<le> L + of_bool e)"
    using sliding_find_spec[OF assms, of e align] by (elim exE conjE) (rule that; assumption)
  have "nat (t div ?b) < L \<and> L \<le> nat (t div ?b) + ?c"
    if "0 \<le> t" "int L * ?b - (w - 1) \<le> t" "t < int L * ?b" for t
    using window_arith[OF assms(6) that] assms(5,6) cdiv_nonneg[of ?b "w - 1"] by auto
  moreover have "int L * ?b \<le> max_length" using W(4) assms(6) le_div_iff_int by blast
  moreover have "int L' \<le> max_length div ?b" if "int L' * ?b \<le> max_length" for L'
    using that assms(6) le_div_iff_int by blast
  ultimately show ?thesis using W unfolding window_hit_def by (intro exI[of _ cs] exI[of _ L]) blast
qed

theorem sliding_hit_covers_window_witness:
  "\<exists>p. pool_ok p \<and> sliding_find_longest_cache_hit (Hashes [[7], [8]]) 32 [0] p
     ((sample_spec SlidingWindowSpec)\<lparr>sliding_window := Some 17\<rparr>) False 16 1 1 = Inr [[Block 1]]"
proof -
  obtain p where p: "pool_inv p [Block 1]" "\<forall>h b. carries p 0 h b \<longleftrightarrow> b = Block 1 \<and> h = [7]"
    using sample_cached_pool[of "[[7]]"] by (auto simp: upt_rec)
  let ?s = "(sample_spec SlidingWindowSpec)\<lparr>sliding_window := Some 17\<rparr>"
  have s: "is_sliding ?s" "block_size ?s = 16" by (simp_all add: sample_spec_def is_sliding_def)
  obtain cs L where cs: "sliding_find_longest_cache_hit (Hashes [[7], [8]]) 32 [0] p ?s False 16 1 1 = Inr cs"
    "length cs = 1" "length (cs ! 0) = L" "L \<le> 2"
    "\<forall>t. 0 \<le> t \<and> int L * 16 - 16 \<le> t \<and> t < int L * 16 \<longrightarrow> carries p 0 ([[7], [8]] ! nat (t div 16)) (cs ! 0 ! nat (t div 16))"
    "\<forall>L'. int L' * 16 \<le> 32 \<longrightarrow> good_end p [0] [[7], [8]] 16 16 False (cdiv 16 16) L' \<longrightarrow> L' \<le> L"
    using sliding_hit_covers_window[OF p(1), where gids = "[0]" and s = ?s and w = 17 and max_length = 32
      and hashes = "Hashes [[7], [8]]" and e = False and align = 16] s by (auto simp: groups_ok_def)
  have "cdiv 16 16 = 1" by (simp add: cdiv_def)
  then have "1 \<le> L" using cs(6)[rule_format, of 1] p(2) by (simp add: good_end_def aligned_def row_cached_def)
  moreover have "L \<noteq> 2" using cs(5)[rule_format, of 16] p(2) by auto
  ultimately have "L = 1" using cs(4) by linarith
  with cs(5)[rule_format, of 0] p(2) have "cs ! 0 ! 0 = Block 1" by simp
  with \<open>L = 1\<close> cs(2,3) have "cs = [[Block 1]]" by (cases cs) (auto simp: length_Suc_conv)
  with cs(1) p(1) show ?thesis by (auto simp: pool_ok_def)
qed

text \<open>
  C30: With EAGLE and an alignment of several blocks the sliding-window hit need not be the longest.
  When the scan reaches the first block without completing a window, the run is aligned before the
  EAGLE block is dropped and again afterwards, so the result loses one alignment unit more than it
  has to.  Three cached blocks of 16 tokens, alignment 32 and a window of 65 tokens yield no hit at
  all, although dropping the third block would leave an aligned hit of two cached blocks.
\<close>

theorem sliding_eagle_not_longest:
  "\<exists>p. pool_ok p
     \<and> sliding_find_longest_cache_hit (Hashes [[7], [8], [9]]) 48 [0] p
         ((sample_spec SlidingWindowSpec)\<lparr>sliding_window := Some 65\<rparr>) True 32 1 1 = Inr [[]]
     \<and> map_result (\<lambda>h. get_cached_block h [0] p) [[7], [8], [9]] = Inr [Some [Block 1], Some [Block 2], Some [Block 3]]
     \<and> aligned 16 32 2"
proof -
  obtain p where p: "pool_inv p (map Block [1..<4])"
    "\<forall>h b. carries p 0 h b \<longleftrightarrow> (\<exists>i<3. b = Block (Suc i) \<and> h = [[7], [8], [9]] ! i)"
    using sample_cached_pool[of "[[7], [8], [9]]"] by (auto simp: eval_nat_numeral)
  have look: "get_cached_block h [0] p = Inr (Some [Block (Suc i)])" if "h = [[7], [8], [9]] ! i" "i < 3" for h i
  proof -
    have "row_cached p [0] h" using p(2) that by (auto simp: row_cached_def)
    moreover have "h = [[7], [8], [9]] ! j \<Longrightarrow> j < 3 \<Longrightarrow> j = i" for j
      using that by (auto simp: less_Suc_eq eval_nat_numeral)
    ultimately show ?thesis using lookup_row[OF p(1), of "[0]" h] p(2)
      by (auto simp: groups_ok_def list_all2_Cons1)
  qed
  have L: "get_cached_block [7] [0] p = Inr (Some [Block 1])" "get_cached_block [8] [0] p = Inr (Some [Block 2])"
    "get_cached_block [9] [0] p = Inr (Some [Block 3])"
    using look[of "[7]" 0] look[of "[8]" 1] look[of "[9]" 2] by (simp_all add: numeral_3_eq_3)
  let ?s = "(sample_spec SlidingWindowSpec)\<lparr>sliding_window := Some 65\<rparr>"
  have s: "is_sliding ?s" "block_size ?s = 16" by (simp_all add: sample_spec_def is_sliding_def)
  have c: "cdiv 64 16 = 4" by (simp add: cdiv_def)
  have at: "hashes_at (Hashes [[7], [8], [9]]) 2 = Inr [9]" "hashes_at (Hashes [[7], [8], [9]]) 1 = Inr [8]"
    "hashes_at (Hashes [[7], [8], [9]]) 0 = Inr [7]" by (simp_all add: nth_r_def)
  have loop: "sliding_hit_loop 3 (Hashes [[7], [8], [9]]) [0] p 16 True 32 5 0 [replicate 3 (null_block p)]
      = Inr (False, 3, [[Block 1, Block 2, Block 3]])"
    by (simp add: numeral_3_eq_3 at L Let_def del: hashes_at.simps)
  have re: "realign 16 32 [[Block 1, Block 2, Block 3]] = Inr [[Block 1, Block 2]]" "realign 16 32 [[Block 1]] = Inr [[]]"
    by (subst realign.simps, simp add: nth_r_def pop_each_def, subst realign.simps, simp add: nth_r_def)+
  have "sliding_find_longest_cache_hit (Hashes [[7], [8], [9]]) 48 [0] p ?s True 32 1 1 = Inr [[]]"
    using s loop re by (simp add: sliding_find_longest_cache_hit_def Let_def c repeat_list_def nth_r_def pop_each_def slice_to_def py_idx_def)
  with L p(1) show ?thesis by (auto simp: pool_ok_def aligned_def)
qed

end
