(* ===== verification/Block_Ledger.thy ===== *)
theory Block_Ledger
  imports Block_Pool
begin

text \<open>
  The ledger the cache managers keep with the block pool.  \<open>ledger p H\<close>: the references of every usable
  block are its occurrences in the collection \<open>H\<close> of all block tables.  One table \<open>bs\<close> of a request
  with \<open>nc\<close> cached blocks is in order when it holds usable blocks, each once, and null blocks, and the
  blocks past the cached ones are \<open>fresh\<close>: without a hash and held by this table only.  The lemmas say
  what allocation, sharing, release and caching do to a table and to the tables beside it.
\<close>

section \<open>Ledger and tables\<close>

definition ledger :: "BlockPool \<Rightarrow> block_ref multiset \<Rightarrow> bool" where
  "ledger p H \<longleftrightarrow> pool_ok p \<and> (\<forall>b. usable p b \<longrightarrow> refs p b = int (count H b))"

definition fresh :: "BlockPool \<Rightarrow> block_ref \<Rightarrow> bool" where
  "fresh p b \<longleftrightarrow> hash_of p b = None \<and> refs p b = 1"

definition holds :: "BlockPool \<Rightarrow> block_ref list \<Rightarrow> bool" where
  "holds p bs \<longleftrightarrow> (\<forall>b\<in>set bs. usable p b \<or> b = null_block p) \<and> distinct (filter (usable p) bs)"

definition table_ok :: "BlockPool \<Rightarrow> block_ref list \<Rightarrow> nat \<Rightarrow> bool" where
  "table_ok p bs nc \<longleftrightarrow> holds p bs \<and> nc \<le> length bs
     \<and> (enable_caching p \<longrightarrow> (\<forall>b\<in>set (drop nc bs). usable p b \<longrightarrow> fresh p b))"

text \<open>What a step on one table leaves to the tables collected in \<open>R\<close>.\<close>

definition keeps :: "BlockPool \<Rightarrow> BlockPool \<Rightarrow> block_ref multiset \<Rightarrow> bool" where
  "keeps p p' R \<longleftrightarrow> pool_static p p' \<and> (\<forall>b. b \<in># R \<longrightarrow> usable p b \<longrightarrow> fresh p b \<longrightarrow> fresh p' b)"

lemma keeps_refl [simp]: "keeps p p R"
  by (simp add: keeps_def)

lemma keeps_trans: "keeps p p' R \<Longrightarrow> keeps p' p'' R \<Longrightarrow> keeps p p'' R"
  by (auto simp: keeps_def pool_static_usable intro: pool_static_trans)

lemma keeps_mono: "keeps p p' R \<Longrightarrow> S \<subseteq># R \<Longrightarrow> keeps p p' S"
  by (auto simp: keeps_def dest: mset_subset_eqD)

lemma keepsD: "keeps p p' R \<Longrightarrow> pool_static p p'"
  by (simp add: keeps_def)

lemma static_usable_fun: "pool_static p p' \<Longrightarrow> usable p' = usable p"
  by (simp add: fun_eq_iff pool_static_usable)

lemma holds_static: "pool_static p p' \<Longrightarrow> holds p' bs = holds p bs"
  by (simp add: holds_def static_usable_fun pool_staticD)

lemma table_ok_keeps:
  assumes "table_ok p bs nc" and "keeps p p' R" and "mset bs \<subseteq># R"
  shows "table_ok p' bs nc"
proof -
  have "b \<in># R" if "b \<in> set (drop nc bs)" for b
    using mset_subset_eqD[OF assms(3), of b] in_set_dropD[OF that] by simp
  with assms(1,2) show ?thesis
    by (auto simp: table_ok_def keeps_def holds_static pool_staticD pool_static_usable)
qed

lemma table_ok_Nil [simp]: "table_ok p [] 0"
  by (simp add: table_ok_def holds_def)

lemma ledger_absent: "ledger p H \<Longrightarrow> usable p b \<Longrightarrow> refs p b = 0 \<Longrightarrow> b \<notin># H"
  by (auto simp: ledger_def count_eq_zero_iff)

lemma ledger_ok: "ledger p H \<Longrightarrow> pool_ok p"
  by (simp add: ledger_def)

lemma null_not_usable: "pool_ok p \<Longrightarrow> \<not> usable p (null_block p)"
  using null_facts by (auto simp: pool_ok_def)

lemma ledger_free_nonneg: "ledger p H \<Longrightarrow> 0 \<le> get_num_free_blocks p"
  by (auto simp: ledger_def pool_ok_def pool_free_count)

section \<open>Steps on one table\<close>

lemma drop_take_append: "m \<le> n \<Longrightarrow> take m xs @ drop m (take n xs) @ drop n xs = xs"
  by (metis append_assoc append_take_drop_id min.absorb1 take_take)

lemma alloc_table:
  assumes led: "ledger p (mset bs + R)" and n: "0 \<le> n" "n \<le> get_num_free_blocks p"
  shows "\<exists>new p'. get_new_blocks u n p = Inr (new, p') \<and> int (length new) = n \<and> ledger p' (mset (bs @ new) + R)
    \<and> keeps p p' (mset bs + R) \<and> get_num_free_blocks p' = get_num_free_blocks p - n
    \<and> (\<forall>b\<in>set new. usable p b \<and> b \<notin># mset bs + R \<and> (enable_caching p \<longrightarrow> fresh p' b)) \<and> distinct new
    \<and> (\<forall>b. refs p b \<le> refs p' b)"
proof -
  obtain xs where xs: "pool_inv p xs" using led by (auto simp: ledger_def pool_ok_def)
  have len: "n \<le> int (length xs)" using n pool_free_count[OF xs] by simp
  let ?new = "take (nat n) xs"
  obtain p' where p': "get_new_blocks u n p = Inr (?new, p')" "pool_inv p' (drop (nat n) xs)" "pool_static p p'"
    "\<forall>b. refs p' b = (if b \<in> set ?new then 1 else refs p b)"
    "\<forall>b. hash_of p' b = (if enable_caching p \<and> b \<in> set ?new then None else hash_of p b)"
    using get_new_blocks_spec[OF xs n(1) len, of u] by blast
  have zero: "\<forall>b\<in>set ?new. usable p b \<and> refs p b = 0"
    using pool_coreD(4)[OF xs] by (auto dest: in_set_takeD)
  have out: "b \<notin># mset bs + R" if "b \<in> set ?new" for b using zero that ledger_absent[OF led] by blast
  have dst: "distinct ?new" using pool_coreD(9)[OF xs] by simp
  have "ledger p' (mset (bs @ ?new) + R)"
    unfolding ledger_def
  proof (intro conjI allI impI)
    show "pool_ok p'" using p'(2) by (auto simp: pool_ok_def)
    fix b assume u: "usable p' b"
    have "count (mset ?new) b = (if b \<in> set ?new then 1 else 0)" using dst by (simp add: distinct_count_list count_mset)
    then show "refs p' b = int (count (mset (bs @ ?new) + R) b)"
      using u led p'(4) zero out[of b] pool_static_usable[OF p'(3), of b] unfolding ledger_def
      by (cases "b \<in> set ?new") (auto simp: count_eq_zero_iff)
  qed
  moreover have "keeps p p' (mset bs + R)" using p'(3-5) out unfolding keeps_def fresh_def by auto
  moreover have "get_num_free_blocks p' = get_num_free_blocks p - n"
    using pool_free_count[OF xs] pool_free_count[OF p'(2)] len n(1) by simp
  ultimately show ?thesis
    using p' zero out dst len n(1) by (intro exI[of _ ?new] exI[of _ p']) (auto simp: fresh_def)
qed

lemma share_table:
  assumes led: "ledger p R" and bs: "\<forall>b\<in>set bs. usable p b \<and> hash_of p b \<noteq> None \<or> b = null_block p"
  shows "\<exists>p'. touch bs p = Inr p' \<and> ledger p' (mset bs + R) \<and> keeps p p' R
    \<and> get_num_free_blocks p \<le> get_num_free_blocks p' + int (length (filter (\<lambda>b. refs p b = 0 \<and> usable p b) bs))
    \<and> (\<forall>b. hash_of p' b = hash_of p b) \<and> (\<forall>b. refs p b \<le> refs p' b)"
proof -
  obtain xs where xs: "pool_inv p xs" using led by (auto simp: ledger_def pool_ok_def)
  have ok: "\<forall>b\<in>set bs. usable p b \<or> b = null_block p" using bs by auto
  obtain p' where p': "touch bs p = Inr p'" "pool_inv p' (filter (\<lambda>b. b \<notin> set bs) xs)" "pool_static p p'"
    "\<forall>c. refs p' c = refs p c + int (count_list bs c)" "\<forall>c. hash_of p' c = hash_of p c" using touch_spec[OF xs ok] by blast
  have "ledger p' (mset bs + R)"
    using led p'(2-4) by (auto simp: ledger_def pool_ok_def pool_static_usable count_mset)
  moreover have "keeps p p' R"
  proof -
    have "count_list bs b = 0" if "usable p b" "fresh p b" for b
      using that bs null_facts(2)[OF xs] by (auto simp: count_list_0_iff fresh_def)
    then show ?thesis using p'(3-5) by (simp add: keeps_def fresh_def)
  qed
  moreover have "length xs \<le> length (filter (\<lambda>b. b \<notin> set bs) xs) + length (filter (\<lambda>b. refs p b = 0 \<and> usable p b) bs)"
  proof -
    have "length (filter (\<lambda>b. b \<in> set bs) xs) = card (set (filter (\<lambda>b. b \<in> set bs) xs))"
      by (rule distinct_card[OF distinct_filter[OF pool_coreD(9)[OF xs]], symmetric])
    also have "\<dots> \<le> card (set (filter (\<lambda>b. refs p b = 0 \<and> usable p b) bs))"
      using pool_coreD(4)[OF xs] by (intro card_mono) auto
    also have "\<dots> \<le> length (filter (\<lambda>b. refs p b = 0 \<and> usable p b) bs)" by (rule card_length)
    finally show ?thesis using sum_length_filter_compl[of "\<lambda>b. b \<in> set bs" xs] by simp
  qed
  ultimately show ?thesis using p' pool_free_count[OF xs] pool_free_count[OF p'(2)] by auto
qed

lemma release_table:
  assumes led: "ledger p H" and rs: "holds p rs" and sub: "filter_mset (usable p) (mset rs) \<subseteq># H"
  shows "\<exists>p'. free_blocks rs p = Inr p' \<and> ledger p' (H - mset rs) \<and> keeps p p' (H - mset rs)
    \<and> get_num_free_blocks p \<le> get_num_free_blocks p' \<and> (\<forall>b. hash_of p' b = hash_of p b)"
proof -
  obtain xs where xs: "pool_inv p xs" using led by (auto simp: ledger_def pool_ok_def)
  have le: "count (mset rs) b \<le> count H b" if "usable p b" for b
    using mset_subset_eq_count[OF sub, of b] that by simp
  have "refs p b \<ge> 1" if "b \<in> set rs" "usable p b" for b
  proof -
    have "0 < count (mset rs) b" using that(1) by (simp only: count_greater_zero_iff set_mset_mset)
    then have "1 \<le> int (count H b)" using le[OF that(2)] by linarith
    then show ?thesis using led that(2) unfolding ledger_def by metis
  qed
  then have "\<forall>b\<in>set rs. usable p b \<and> refs p b \<ge> 1 \<or> b = null_block p" using rs by (auto simp: holds_def)
  with rs obtain p' where p': "free_blocks rs p = Inr p'" "pool_inv p' (xs @ filter (\<lambda>b. usable p b \<and> refs p b = 1) rs)"
    "pool_static p p'" "\<forall>c. refs p' c = refs p c - int (count_list rs c)" "\<forall>c. hash_of p' c = hash_of p c"
    using free_blocks_spec[OF xs, of rs] by (auto simp: holds_def)
  have diff: "int (count (H - mset rs) b) = int (count H b) - int (count_list rs b)" if "usable p b" for b
    using le[OF that] by (simp add: of_nat_diff count_mset)
  have "ledger p' (H - mset rs)"
    using led p'(2-4) diff by (auto simp: ledger_def pool_ok_def pool_static_usable)
  moreover have "keeps p p' (H - mset rs)"
  proof -
    have "count_list rs b = 0" if "b \<in># H - mset rs" "usable p b" "refs p b = 1" for b
    proof -
      have "int (count H b) = 1" using led that(2,3) by (simp add: ledger_def)
      moreover have "0 < count (H - mset rs) b" using that(1) by (simp only: count_greater_zero_iff)
      ultimately show ?thesis using diff[OF that(2)] by linarith
    qed
    then show ?thesis using p'(3-5) unfolding keeps_def fresh_def by auto
  qed
  ultimately show ?thesis using p' pool_free_count[OF xs] pool_free_count[OF p'(2)] by auto
qed

lemma cache_table:
  assumes led: "ledger p H" and sub: "mset bs \<subseteq># H" and tab: "table_ok p bs nc" and cach: "enable_caching p"
    and nf: "int nc < nf" "nf \<le> int (length bs)" "nf \<le> int (length (block_hashes r))"
    and hs: "group_hashes r (hash_block_size p) bsz = Inr hs" "nf \<le> int (length hs)" and g: "0 \<le> gid" "gid < 2 ^ 32"
  shows "\<exists>c p'. cache_full_blocks u sha r bs (int nc) nf bsz gid p = Inr (r\<lparr>embeds_hashes := c\<rparr>, p')
    \<and> ledger p' H \<and> table_ok p' bs (nat nf) \<and> keeps p p' (H - mset bs) \<and> (\<forall>b. refs p' b = refs p b)
    \<and> get_num_free_blocks p' = get_num_free_blocks p"
proof -
  obtain xs where xs: "pool_inv p xs" using led by (auto simp: ledger_def pool_ok_def)
  let ?new = "slice bs (int nc) nf"
  have new: "?new = drop nc (take (nat nf) bs)" using nf(1) by simp
  have dst: "distinct (filter (usable p) bs)" using tab by (simp add: table_ok_def holds_def)
  have "nc \<le> nat nf" using nf(1) by simp
  then have split: "bs = take nc bs @ ?new @ drop (nat nf) bs" and tail: "set (drop (nat nf) bs) \<subseteq> set (drop nc bs)"
    unfolding new by (simp_all add: drop_take_append set_drop_subset_set_drop)
  have mem: "b \<in> set (drop nc bs)" if "b \<in> set ?new" for b
    using that unfolding new drop_take by (rule in_set_takeD)
  have ok: "\<forall>b\<in>set ?new. usable p b \<and> hash_of p b = None \<or> b = null_block p"
  proof
    fix b assume "b \<in> set ?new"
    then have b: "b \<in> set (drop nc bs)" by (rule mem)
    with tab cach show "usable p b \<and> hash_of p b = None \<or> b = null_block p"
      using in_set_dropD[OF b] by (auto simp: table_ok_def holds_def fresh_def)
  qed
  have parts: "distinct (filter (usable p) ?new)" "set (filter (usable p) ?new) \<inter> set (filter (usable p) (drop (nat nf) bs)) = {}"
    using dst by (subst (asm) split, simp del: slice_nonneg add: new[symmetric])+
  note parts(1)
  moreover have "to_bytes_big gid 4 = Inr (to_bytes_list 4 gid)" using g by (simp add: to_bytes_big_def)
  ultimately obtain c p' where p': "cache_full_blocks u sha r bs (int nc) nf bsz gid p = Inr (r\<lparr>embeds_hashes := c\<rparr>, p')"
    "pool_inv p' xs" "pool_static p p'" "\<forall>c. refs p' c = refs p c"
    "\<forall>c. hash_of p' c = (case map_of (zip ?new (drop nc hs)) c of
          Some h \<Rightarrow> if usable p c then Some (h @ to_bytes_list 4 gid) else hash_of p c | None \<Rightarrow> hash_of p c)"
    using cache_full_blocks_spec[OF xs _ nf hs ok, of gid "to_bytes_list 4 gid" u sha] by auto
  have same: "hash_of p' b = hash_of p b" if "b \<notin> set ?new" for b
    using that p'(5) by (auto split: option.splits dest!: map_of_SomeD set_zip_leftD)
  have "ledger p' H" using led p'(2-4) by (auto simp: ledger_def pool_ok_def pool_static_usable)
  moreover have "table_ok p' bs (nat nf)"
  proof -
    have "fresh p' b" if "b \<in> set (drop (nat nf) bs)" "usable p b" for b
    proof -
      have "b \<notin> set ?new" using parts(2) that by (auto simp del: slice_nonneg)
      moreover have "b \<in> set (drop nc bs)" using that(1) tail by blast
      ultimately show ?thesis using tab cach that(2) same[of b] p'(4) by (auto simp: table_ok_def fresh_def)
    qed
    then show ?thesis using tab nf(2) p'(3) by (auto simp: table_ok_def holds_static pool_static_usable)
  qed
  moreover have "keeps p p' (H - mset bs)"
  proof -
    have "b \<notin> set ?new" if "b \<in># H - mset bs" "usable p b" "refs p b = 1" for b
    proof
      assume "b \<in> set ?new"
      then have "b \<in># mset bs" using mem in_set_dropD by fastforce
      then have "0 < count (mset bs) b" by (simp only: count_greater_zero_iff)
      moreover have "0 < count (H - mset bs) b" using that(1) by (simp only: count_greater_zero_iff)
      ultimately have "2 \<le> count H b" unfolding count_diff by linarith
      then show False using led that(2,3) by (simp add: ledger_def)
    qed
    then show ?thesis using p'(3,4) same unfolding keeps_def fresh_def by auto
  qed
  ultimately show ?thesis using p' pool_free_count[OF xs] pool_free_count[OF p'(2)] by auto
qed

end
