(* ===== verification/Single_Type_Manager.thy ===== *)
theory Single_Type_Manager
  imports Cache_Hits Block_Ledger
begin

text \<open>
  \<open>SingleTypeKVCacheManager\<close> and its subclasses (\<open>vllm/v1/core/single_type_kv_cache_manager.py\<close>): the
  block tables of the requests of one cache group.  The subclass is a tag of the record, an overridden
  method a case distinction on it.  Every operation takes the manager and the pool all managers share
  and returns both.  Comparing a block with the null block compares block ids first, which identify
  blocks, so it is equality of references.
\<close>

section \<open>State\<close>

record SingleTypeKVCacheManager =
  stm_class :: manager_class
  stm_block_size :: int
  stm_spec :: KVCacheSpec
  stm_enable_caching :: bool
  max_admission_blocks_per_request :: "int option"
  new_block_ids :: "int list"
  req_to_blocks :: "(string \<times> block_ref list) list"
  num_cached_block :: "string \<rightharpoonup> int"
  stm_group_id :: int
  cached_blocks_this_step :: "bytes set"
  last_state_block_idx :: "string \<rightharpoonup> int"
  allocated_block_reqs :: "string set"
  sink_blocks :: "block_ref list"

text \<open>Reading \<open>req_to_blocks[rid]\<close> of the \<open>defaultdict\<close> also creates the entry; \<open>.get\<close> does not.\<close>

definition req_blocks :: "SingleTypeKVCacheManager \<Rightarrow> string \<Rightarrow> block_ref list" where
  "req_blocks m rid = (case map_of (req_to_blocks m) rid of None \<Rightarrow> [] | Some bs \<Rightarrow> bs)"

definition set_req_blocks :: "string \<Rightarrow> block_ref list \<Rightarrow> SingleTypeKVCacheManager \<Rightarrow> SingleTypeKVCacheManager" where
  "set_req_blocks rid bs m = m\<lparr>req_to_blocks := AList.update rid bs (req_to_blocks m)\<rparr>"

definition touch_entry :: "string \<Rightarrow> SingleTypeKVCacheManager \<Rightarrow> SingleTypeKVCacheManager" where
  "touch_entry rid m = set_req_blocks rid (req_blocks m rid) m"

section \<open>Construction\<close>

definition single_type_init ::
    "manager_class \<Rightarrow> KVCacheSpec \<Rightarrow> bool \<Rightarrow> int \<Rightarrow> int \<Rightarrow> int \<Rightarrow> int option \<Rightarrow> SingleTypeKVCacheManager" where
  "single_type_init cls s caching gid dcp pcp cap =
     \<lparr>stm_class = cls, stm_block_size = parallel_block_size (block_size s) dcp pcp, stm_spec = s,
      stm_enable_caching = caching, max_admission_blocks_per_request = cap, new_block_ids = [],
      req_to_blocks = [], num_cached_block = Map.empty, stm_group_id = gid,
      cached_blocks_this_step = {}, last_state_block_idx = Map.empty, allocated_block_reqs = {}, sink_blocks = []\<rparr>"

text \<open>The sink manager takes its blocks straight out of the free queue.\<close>

definition sink_init ::
    "KVCacheSpec \<Rightarrow> bool \<Rightarrow> int \<Rightarrow> int \<Rightarrow> int \<Rightarrow> BlockPool \<Rightarrow> (SingleTypeKVCacheManager \<times> BlockPool) result" where
  "sink_init s caching gid dcp pcp p =
     (let m = single_type_init SinkFullAttentionManager s caching gid dcp pcp None in
      case sink_len s of
        None \<Rightarrow> Inl AssertionError
      | Some n \<Rightarrow>
          bind_r (assert_r (n > 0 \<and> n mod stm_block_size m = 0)) (\<lambda>_.
          bind_r (popleft_n (n div stm_block_size m) (free_block_queue p)) (\<lambda>(bs, q).
            Inr (m\<lparr>sink_blocks := bs\<rparr>, p\<lparr>free_block_queue := q\<rparr>))))"

definition get_manager_for_kv_cache_spec ::
    "KVCacheSpec \<Rightarrow> int \<Rightarrow> int \<Rightarrow> bool \<Rightarrow> int \<Rightarrow> int \<Rightarrow> int \<Rightarrow> BlockPool \<Rightarrow> (SingleTypeKVCacheManager \<times> BlockPool) result" where
  "get_manager_for_kv_cache_spec s batched mml caching gid dcp pcp p =
     (case spec_manager_map (spec_class s) of
        None \<Rightarrow> Inl KeyError
      | Some cls \<Rightarrow>
          bind_r (if is_sliding s
                  then map_r Some (sliding_max_admission_blocks_per_request batched mml s)
                  else if spec_class s = ChunkedLocalAttentionSpec
                  then map_r Some (chunked_max_admission_blocks_per_request batched mml s)
                  else Inr None) (\<lambda>cap.
            if cls = SinkFullAttentionManager then sink_init s caching gid dcp pcp p
            else Inr (single_type_init cls s caching gid dcp pcp cap, p)))"

section \<open>Skipped tokens and admission\<close>

text \<open>\<open>get_num_skipped_tokens\<close> of each class.\<close>

definition sliding_num_skipped_tokens :: "int \<Rightarrow> int \<Rightarrow> int" where
  "sliding_num_skipped_tokens w n = max 0 (n - w + 1)"

definition chunked_num_skipped_tokens :: "int \<Rightarrow> int \<Rightarrow> int" where
  "chunked_num_skipped_tokens c n = n div c * c"

definition mamba_num_skipped_tokens :: "int \<Rightarrow> int" where
  "mamba_num_skipped_tokens n = n - 1"

definition get_num_skipped_tokens :: "SingleTypeKVCacheManager \<Rightarrow> int \<Rightarrow> int result" where
  "get_num_skipped_tokens m n =
     (case stm_class m of
        SlidingWindowManager \<Rightarrow> (case sliding_window (stm_spec m) of
            None \<Rightarrow> Inl TypeError | Some w \<Rightarrow> Inr (sliding_num_skipped_tokens w n))
      | ChunkedLocalAttentionManager \<Rightarrow> (case attention_chunk_size (stm_spec m) of
            None \<Rightarrow> Inl TypeError | Some c \<Rightarrow> Inr (chunked_num_skipped_tokens c n))
      | MambaManager \<Rightarrow> Inr (mamba_num_skipped_tokens n)
      | _ \<Rightarrow> Inr 0)"

definition get_num_evictable_blocks :: "BlockPool \<Rightarrow> block_ref list \<Rightarrow> int" where
  "get_num_evictable_blocks p bs = int (length (filter (\<lambda>b. refs p b = 0 \<and> \<not> is_null (pool_store p b)) bs))"

definition base_num_blocks_to_allocate ::
    "string \<Rightarrow> int \<Rightarrow> block_ref list \<Rightarrow> int \<Rightarrow> bool \<Rightarrow> SingleTypeKVCacheManager \<Rightarrow> BlockPool \<Rightarrow> int result" where
  "base_num_blocks_to_allocate rid ntok new_computed_blocks total_computed_tokens apply_cap m p =
     (let required = cdiv ntok (stm_block_size m);
          required = (case max_admission_blocks_per_request m of
            Some cap \<Rightarrow> if apply_cap then min required cap else required | None \<Rightarrow> required);
          num_req_blocks = int (length (req_blocks m rid)) in
      if num_cached_block m rid \<noteq> None
      then bind_r (assert_r (new_computed_blocks = [])) (\<lambda>_. Inr (max (required - num_req_blocks) 0))
      else bind_r (get_num_skipped_tokens m total_computed_tokens) (\<lambda>skipped.
        let num_local = int (length new_computed_blocks) + num_req_blocks;
            skipped_blocks = skipped div stm_block_size m;
            new_blocks = max (required - max skipped_blocks num_local) 0;
            skipped_new = max 0 (skipped_blocks - num_req_blocks)
        in Inr (new_blocks + get_num_evictable_blocks p (slice_from new_computed_blocks skipped_new))))"

definition mamba_num_blocks_to_allocate ::
    "string \<Rightarrow> int \<Rightarrow> block_ref list \<Rightarrow> int \<Rightarrow> int \<Rightarrow> bool \<Rightarrow> SingleTypeKVCacheManager \<Rightarrow> BlockPool
      \<Rightarrow> (int \<times> SingleTypeKVCacheManager) result" where
  "mamba_num_blocks_to_allocate rid ntok new_computed_blocks total_computed_tokens num_tokens_main apply_cap m p =
     bind_r (assert_r (spec_class (stm_spec m) = MambaSpec)) (\<lambda>_.
       let spec_blocks = num_speculative_blocks (stm_spec m) in
       if new_computed_blocks \<noteq> []
          \<and> (case hash_of p (last new_computed_blocks) of None \<Rightarrow> False | Some h \<Rightarrow> h \<in> cached_blocks_this_step m)
       then Inr (num_gpu_blocks p + 1, m)
       else if mamba_cache_mode (stm_spec m) \<noteq> ''align''
       then let ntok = (if spec_blocks > 0 then ntok + block_size (stm_spec m) * spec_blocks else ntok)
         in map_r (\<lambda>n. (n, m))
              (base_num_blocks_to_allocate rid ntok new_computed_blocks total_computed_tokens apply_cap m p)
       else
         let required = cdiv num_tokens_main (stm_block_size m) + spec_blocks;
             m = touch_entry rid m;
             new_blocks = required - int (length new_computed_blocks) - int (length (req_blocks m rid));
             new_blocks = (if new_blocks > 0
               then if rid \<in> allocated_block_reqs m then 1 else 1 + spec_blocks
               else new_blocks)
         in Inr (new_blocks + get_num_evictable_blocks p new_computed_blocks, m))"

definition get_num_blocks_to_allocate ::
    "string \<Rightarrow> int \<Rightarrow> block_ref list \<Rightarrow> int \<Rightarrow> int \<Rightarrow> bool \<Rightarrow> SingleTypeKVCacheManager \<Rightarrow> BlockPool
      \<Rightarrow> (int \<times> SingleTypeKVCacheManager) result" where
  "get_num_blocks_to_allocate rid ntok new_computed_blocks total_computed_tokens num_tokens_main apply_cap m p =
     (if stm_class m = MambaManager
      then mamba_num_blocks_to_allocate rid ntok new_computed_blocks total_computed_tokens num_tokens_main apply_cap m p
      else map_r (\<lambda>n. (n, m))
        (base_num_blocks_to_allocate rid ntok new_computed_blocks total_computed_tokens apply_cap m p))"

section \<open>Growing a block table\<close>

text \<open>\<open>type(self.kv_cache_spec) in (FullAttentionSpec, TQFullAttentionSpec)\<close>: only these report the ids of
  newly allocated blocks, which the workers zero.\<close>

definition record_new_ids :: "BlockPool \<Rightarrow> block_ref list \<Rightarrow> SingleTypeKVCacheManager \<Rightarrow> SingleTypeKVCacheManager" where
  "record_new_ids p bs m =
     (if spec_class (stm_spec m) \<in> {FullAttentionSpec, TQFullAttentionSpec}
      then m\<lparr>new_block_ids := new_block_ids m @ map (\<lambda>b. block_id (pool_store p b)) bs\<rparr> else m)"

definition base_allocate_new_computed_blocks ::
    "bool \<Rightarrow> string \<Rightarrow> block_ref list \<Rightarrow> int \<Rightarrow> int \<Rightarrow> SingleTypeKVCacheManager \<Rightarrow> BlockPool
      \<Rightarrow> (SingleTypeKVCacheManager \<times> BlockPool) result" where
  "base_allocate_new_computed_blocks use_int rid new_computed_blocks num_local num_external m p =
     (if num_cached_block m rid \<noteq> None
      then bind_r (assert_r (new_computed_blocks = [])) (\<lambda>_. Inr (m, p))
      else
        let m = touch_entry rid m in
        bind_r (assert_r (req_blocks m rid = [])) (\<lambda>_.
        let total = num_local + num_external in
        bind_r (get_num_skipped_tokens m total) (\<lambda>skipped.
        let skipped_blocks = skipped div stm_block_size m;
            ncb = (if skipped_blocks > 0 then slice_from new_computed_blocks skipped_blocks else new_computed_blocks);
            external = (if skipped_blocks > 0 then min (total - skipped) num_external else num_external) in
        bind_r (if stm_enable_caching m then touch ncb p else bind_r (assert_r (ncb = [])) (\<lambda>_. Inr p)) (\<lambda>p.
        let bs = repeat_list (null_block p) skipped_blocks @ ncb;
            m = (set_req_blocks rid bs m)\<lparr>num_cached_block := (num_cached_block m)(rid \<mapsto> int (length bs))\<rparr> in
        if external > 0
        then bind_r (get_new_blocks use_int (cdiv total (stm_block_size m) - int (length bs)) p) (\<lambda>(new, p).
               Inr (record_new_ids p new (set_req_blocks rid (bs @ new) m), p))
        else Inr (m, p)))))"

definition cross_allocate_new_computed_blocks ::
    "block_ref list \<Rightarrow> SingleTypeKVCacheManager \<Rightarrow> BlockPool \<Rightarrow> (SingleTypeKVCacheManager \<times> BlockPool) result" where
  "cross_allocate_new_computed_blocks new_computed_blocks m p =
     bind_r (assert_r (new_computed_blocks = [])) (\<lambda>_. Inr (m, p))"

definition allocate_new_computed_blocks ::
    "bool \<Rightarrow> string \<Rightarrow> block_ref list \<Rightarrow> int \<Rightarrow> int \<Rightarrow> SingleTypeKVCacheManager \<Rightarrow> BlockPool
      \<Rightarrow> (SingleTypeKVCacheManager \<times> BlockPool) result" where
  "allocate_new_computed_blocks use_int rid new_computed_blocks num_local num_external m p =
     (if stm_class m = CrossAttentionManager then cross_allocate_new_computed_blocks new_computed_blocks m p
      else base_allocate_new_computed_blocks use_int rid new_computed_blocks num_local num_external m p)"

definition base_allocate_new_blocks ::
    "bool \<Rightarrow> string \<Rightarrow> int \<Rightarrow> SingleTypeKVCacheManager \<Rightarrow> BlockPool
      \<Rightarrow> (block_ref list \<times> SingleTypeKVCacheManager \<times> BlockPool) result" where
  "base_allocate_new_blocks use_int rid ntok m p =
     (let m = touch_entry rid m; bs = req_blocks m rid;
          num_new = cdiv ntok (stm_block_size m) - int (length bs) in
      if num_new \<le> 0 then Inr ([], m, p)
      else bind_r (get_new_blocks use_int num_new p) (\<lambda>(new, p).
        Inr (new, record_new_ids p new (set_req_blocks rid (bs @ new) m), p)))"

text \<open>The loop of the Mamba manager that moves the speculative blocks to the end of the table.\<close>

fun reuse_speculative :: "block_ref \<Rightarrow> int \<Rightarrow> int list \<Rightarrow> block_ref list \<Rightarrow> block_ref list result" where
  "reuse_speculative null skipped_blocks [] bs = Inr bs"
| "reuse_speculative null skipped_blocks (i # idxs) bs =
     (if i < skipped_blocks
      then bind_r (nth_r bs i) (\<lambda>b.
             let bs = bs @ [b] in
             reuse_speculative null skipped_blocks idxs (bs[nat (i mod int (length bs)) := null]))
      else Inr bs)"

definition mamba_allocate_new_blocks ::
    "bool \<Rightarrow> string \<Rightarrow> int \<Rightarrow> int \<Rightarrow> SingleTypeKVCacheManager \<Rightarrow> BlockPool
      \<Rightarrow> (block_ref list \<times> SingleTypeKVCacheManager \<times> BlockPool) result" where
  "mamba_allocate_new_blocks use_int rid ntok num_tokens_main m p =
     bind_r (assert_r (spec_class (stm_spec m) = MambaSpec)) (\<lambda>_.
       let spec_blocks = num_speculative_blocks (stm_spec m) in
       if mamba_cache_mode (stm_spec m) \<noteq> ''align''
       then base_allocate_new_blocks use_int rid
              (if spec_blocks > 0 then ntok + stm_block_size m * spec_blocks else ntok) m p
       else
         let m = touch_entry rid m; bs = req_blocks m rid;
             required = cdiv num_tokens_main (stm_block_size m) + spec_blocks; prev = int (length bs) in
         if required = prev then Inr ([], m, p)
         else bind_r (assert_r (required > prev)) (\<lambda>_.
           let allocated = rid \<in> allocated_block_reqs m;
               m = (if allocated then m\<lparr>last_state_block_idx := (last_state_block_idx m)(rid \<mapsto> prev - 1 - spec_blocks)\<rparr>
                    else if prev > 0 then m\<lparr>last_state_block_idx := (last_state_block_idx m)(rid \<mapsto> prev - 1)\<rparr>
                    else m);
               skipped_blocks = required - spec_blocks - 1;
               bs = bs @ repeat_list (null_block p) (skipped_blocks - prev) in
           bind_r (if allocated then reuse_speculative (null_block p) skipped_blocks [prev - spec_blocks..prev - 1] bs
                   else Inr bs) (\<lambda>bs.
           let num_new = required - int (length bs) in
           bind_r (assert_r (num_new \<le> (if allocated then 1 else spec_blocks + 1))) (\<lambda>_.
           bind_r (get_new_blocks use_int num_new p) (\<lambda>(new, p).
             let bs = bs @ new;
                 m = (set_req_blocks rid bs m)\<lparr>allocated_block_reqs := insert rid (allocated_block_reqs m)\<rparr>
             in Inr (slice_from bs prev, m, p))))))"

definition allocate_new_blocks ::
    "bool \<Rightarrow> string \<Rightarrow> int \<Rightarrow> int \<Rightarrow> SingleTypeKVCacheManager \<Rightarrow> BlockPool
      \<Rightarrow> (block_ref list \<times> SingleTypeKVCacheManager \<times> BlockPool) result" where
  "allocate_new_blocks use_int rid ntok num_tokens_main m p =
     (if stm_class m = MambaManager then mamba_allocate_new_blocks use_int rid ntok num_tokens_main m p
      else base_allocate_new_blocks use_int rid ntok m p)"

definition take_new_block_ids :: "SingleTypeKVCacheManager \<Rightarrow> int list \<times> SingleTypeKVCacheManager" where
  "take_new_block_ids m = (new_block_ids m, m\<lparr>new_block_ids := []\<rparr>)"

section \<open>Caching, freeing and recycling\<close>

definition base_cache_blocks ::
    "bool \<Rightarrow> (bytes \<Rightarrow> bytes) \<Rightarrow> Request \<Rightarrow> int \<Rightarrow> SingleTypeKVCacheManager \<Rightarrow> BlockPool
      \<Rightarrow> (Request \<times> SingleTypeKVCacheManager \<times> BlockPool) result" where
  "base_cache_blocks use_int sha256 r ntok m p =
     (let rid = request_id r;
          num_cached = (case num_cached_block m rid of None \<Rightarrow> 0 | Some n \<Rightarrow> n);
          num_full = ntok div stm_block_size m in
      if num_cached \<ge> num_full then Inr (r, m, p)
      else
        let m = touch_entry rid m in
        bind_r (cache_full_blocks use_int sha256 r (req_blocks m rid) num_cached num_full (stm_block_size m)
                  (stm_group_id m) p) (\<lambda>(r, p).
          Inr (r, m\<lparr>num_cached_block := (num_cached_block m)(rid \<mapsto> num_full)\<rparr>, p)))"

definition note_cached_block :: "BlockPool \<Rightarrow> block_ref \<Rightarrow> bytes set \<Rightarrow> bytes set result" where
  "note_cached_block p b seen =
     (if is_null (pool_store p b) then Inr seen
      else case hash_of p b of None \<Rightarrow> Inl AssertionError | Some h \<Rightarrow> Inr (insert h seen))"

definition mamba_cache_blocks ::
    "bool \<Rightarrow> (bytes \<Rightarrow> bytes) \<Rightarrow> Request \<Rightarrow> int \<Rightarrow> SingleTypeKVCacheManager \<Rightarrow> BlockPool
      \<Rightarrow> (Request \<times> SingleTypeKVCacheManager \<times> BlockPool) result" where
  "mamba_cache_blocks use_int sha256 r ntok m p =
     (let rid = request_id r;
          before = (case num_cached_block m rid of None \<Rightarrow> 0 | Some n \<Rightarrow> n) in
      bind_r (base_cache_blocks use_int sha256 r ntok m p) (\<lambda>(r, m, p).
      let after = (case num_cached_block m rid of None \<Rightarrow> 0 | Some n \<Rightarrow> n) in
      if after > before
      then let m = touch_entry rid m in
        bind_r (fold_r (note_cached_block p) (slice (req_blocks m rid) before after) (cached_blocks_this_step m)) (\<lambda>seen.
          Inr (r, m\<lparr>cached_blocks_this_step := seen\<rparr>, p))
      else Inr (r, m, p)))"

definition cache_blocks ::
    "bool \<Rightarrow> (bytes \<Rightarrow> bytes) \<Rightarrow> Request \<Rightarrow> int \<Rightarrow> SingleTypeKVCacheManager \<Rightarrow> BlockPool
      \<Rightarrow> (Request \<times> SingleTypeKVCacheManager \<times> BlockPool) result" where
  "cache_blocks use_int sha256 r ntok m p =
     (case stm_class m of
        CrossAttentionManager \<Rightarrow> Inl ValueError
      | MambaManager \<Rightarrow> mamba_cache_blocks use_int sha256 r ntok m p
      | _ \<Rightarrow> base_cache_blocks use_int sha256 r ntok m p)"

definition base_free :: "string \<Rightarrow> SingleTypeKVCacheManager \<Rightarrow> BlockPool \<Rightarrow> (SingleTypeKVCacheManager \<times> BlockPool) result" where
  "base_free rid m p =
     (let bs = req_blocks m rid; m = m\<lparr>req_to_blocks := AList.delete rid (req_to_blocks m)\<rparr> in
      bind_r (free_blocks (rev bs) p) (\<lambda>p.
        Inr (m\<lparr>num_cached_block := (num_cached_block m)(rid := None)\<rparr>, p)))"

definition mamba_free :: "string \<Rightarrow> SingleTypeKVCacheManager \<Rightarrow> BlockPool \<Rightarrow> (SingleTypeKVCacheManager \<times> BlockPool) result" where
  "mamba_free rid m p =
     base_free rid (if mamba_cache_mode (stm_spec m) = ''align''
       then m\<lparr>allocated_block_reqs := allocated_block_reqs m - {rid}, last_state_block_idx := (last_state_block_idx m)(rid := None)\<rparr>
       else m) p"

definition stm_free :: "string \<Rightarrow> SingleTypeKVCacheManager \<Rightarrow> BlockPool \<Rightarrow> (SingleTypeKVCacheManager \<times> BlockPool) result" where
  "stm_free rid m p = (if stm_class m = MambaManager then mamba_free rid m p else base_free rid m p)"

text \<open>The loop of \<open>remove_skipped_blocks\<close>: from index \<open>i - 1\<close> down to the first null block; the removed
  blocks come in the order they are appended.\<close>

fun remove_loop :: "block_ref \<Rightarrow> nat \<Rightarrow> block_ref list \<Rightarrow> block_ref list \<times> block_ref list" where
  "remove_loop null 0 bs = ([], bs)"
| "remove_loop null (Suc i) bs =
     (if bs ! i = null then ([], bs)
      else case remove_loop null i (bs[i := null]) of (removed, bs') \<Rightarrow> (bs ! i # removed, bs'))"

definition base_remove_skipped_blocks ::
    "string \<Rightarrow> int \<Rightarrow> SingleTypeKVCacheManager \<Rightarrow> BlockPool \<Rightarrow> (SingleTypeKVCacheManager \<times> BlockPool) result" where
  "base_remove_skipped_blocks rid total_computed_tokens m p =
     bind_r (get_num_skipped_tokens m total_computed_tokens) (\<lambda>skipped.
       if skipped \<le> 0 then Inr (m, p)
       else
         let m = touch_entry rid m; bs = req_blocks m rid;
             skipped_blocks = min (skipped div stm_block_size m) (int (length bs)) in
         case remove_loop (null_block p) (nat skipped_blocks) bs of (removed, bs) \<Rightarrow>
           map_r (\<lambda>p. (set_req_blocks rid bs m, p)) (free_blocks removed p))"

definition mamba_remove_skipped_blocks ::
    "string \<Rightarrow> int \<Rightarrow> SingleTypeKVCacheManager \<Rightarrow> BlockPool \<Rightarrow> (SingleTypeKVCacheManager \<times> BlockPool) result" where
  "mamba_remove_skipped_blocks rid ncomp m p =
     bind_r (assert_r (spec_class (stm_spec m) = MambaSpec)) (\<lambda>_.
       let n = max 0 (ncomp - num_speculative_blocks (stm_spec m)) in
       bind_r (base_remove_skipped_blocks rid n m p) (\<lambda>(m, p).
       case (mamba_cache_mode (stm_spec m) = ''align'', last_state_block_idx m rid) of
         (True, Some i) \<Rightarrow>
           if i < cdiv n (stm_block_size m) - 1
           then let m = touch_entry rid m; bs = req_blocks m rid in
             bind_r (nth_r bs i) (\<lambda>b.
               if b \<noteq> null_block p
               then map_r (\<lambda>p. (set_req_blocks rid (bs[nat (i mod int (length bs)) := null_block p]) m, p)) (free_blocks [b] p)
               else Inr (m, p))
           else Inr (m, p)
       | _ \<Rightarrow> Inr (m, p)))"

definition remove_skipped_blocks ::
    "string \<Rightarrow> int \<Rightarrow> SingleTypeKVCacheManager \<Rightarrow> BlockPool \<Rightarrow> (SingleTypeKVCacheManager \<times> BlockPool) result" where
  "remove_skipped_blocks rid n m p =
     (if stm_class m = MambaManager then mamba_remove_skipped_blocks rid n m p else base_remove_skipped_blocks rid n m p)"

definition full_num_common_prefix_blocks :: "string \<Rightarrow> SingleTypeKVCacheManager \<Rightarrow> BlockPool \<Rightarrow> int \<times> SingleTypeKVCacheManager" where
  "full_num_common_prefix_blocks rid m p =
     (let m = touch_entry rid m; n = int (length (req_to_blocks m))
      in (int (length (takeWhile (\<lambda>b. refs p b = n) (req_blocks m rid))), m))"

definition get_num_common_prefix_blocks :: "string \<Rightarrow> SingleTypeKVCacheManager \<Rightarrow> BlockPool \<Rightarrow> int \<times> SingleTypeKVCacheManager" where
  "get_num_common_prefix_blocks rid m p =
     (if stm_class m \<in> {FullAttentionManager, SinkFullAttentionManager} then full_num_common_prefix_blocks rid m p
      else (0, m))"

definition new_step_starts :: "SingleTypeKVCacheManager \<Rightarrow> SingleTypeKVCacheManager" where
  "new_step_starts m = (if stm_class m = MambaManager then m\<lparr>cached_blocks_this_step := {}\<rparr> else m)"

end
