(* ===== verification/Manager_Steps.thy ===== *)
theory Manager_Steps
  imports Single_Type_Manager
begin

text \<open>
  What the operations of an attention manager do to its block tables and to the pool.  Every operation
  is shown to succeed on a manager in order (\<open>mgr_inv\<close>), to keep it in order, to keep the ledger over its
  own tables and the rest \<open>R\<close> of the tables of the engine, and to leave that rest alone (\<open>keeps\<close>).  The
  Mamba manager has operations of its own and is not covered.
\<close>

section \<open>Managers in order\<close>

definition tabs :: "SingleTypeKVCacheManager \<Rightarrow> block_ref multiset" where
  "tabs m = sum_list (map (\<lambda>e. mset (snd e)) (req_to_blocks m))"

definition others :: "string \<Rightarrow> SingleTypeKVCacheManager \<Rightarrow> block_ref multiset" where
  "others rid m = sum_list (map (\<lambda>e. mset (snd e)) (AList.delete rid (req_to_blocks m)))"

definition ncached :: "SingleTypeKVCacheManager \<Rightarrow> string \<Rightarrow> nat" where
  "ncached m rid = (case num_cached_block m rid of None \<Rightarrow> 0 | Some n \<Rightarrow> nat n)"

definition mgr_wf :: "SingleTypeKVCacheManager \<Rightarrow> bool" where
  "mgr_wf m \<longleftrightarrow> 0 < stm_block_size m \<and> stm_class m \<noteq> MambaManager \<and> 0 \<le> stm_group_id m \<and> stm_group_id m < 2 ^ 32
     \<and> (stm_class m = SlidingWindowManager \<longrightarrow> (\<exists>w\<ge>1. sliding_window (stm_spec m) = Some w))
     \<and> (stm_class m = ChunkedLocalAttentionManager \<longrightarrow> (\<exists>c>0. attention_chunk_size (stm_spec m) = Some c))"

definition mgr_inv :: "BlockPool \<Rightarrow> SingleTypeKVCacheManager \<Rightarrow> bool" where
  "mgr_inv p m \<longleftrightarrow> mgr_wf m \<and> stm_enable_caching m = enable_caching p \<and> distinct (map fst (req_to_blocks m))
     \<and> (\<forall>rid. table_ok p (req_blocks m rid) (ncached m rid)) \<and> (\<forall>rid n. num_cached_block m rid = Some n \<longrightarrow> 0 \<le> n)"

text \<open>What no operation changes.\<close>

definition mgr_static :: "SingleTypeKVCacheManager \<Rightarrow> SingleTypeKVCacheManager \<Rightarrow> bool" where
  "mgr_static m m' \<longleftrightarrow> stm_class m' = stm_class m \<and> stm_block_size m' = stm_block_size m \<and> stm_spec m' = stm_spec m
     \<and> stm_enable_caching m' = stm_enable_caching m \<and> stm_group_id m' = stm_group_id m
     \<and> max_admission_blocks_per_request m' = max_admission_blocks_per_request m"

lemma mgr_static_refl [simp]: "mgr_static m m"
  by (simp add: mgr_static_def)

lemma mgr_static_trans: "mgr_static m m' \<Longrightarrow> mgr_static m' m'' \<Longrightarrow> mgr_static m m''"
  by (simp add: mgr_static_def)

lemma mgr_static_wf: "mgr_static m m' \<Longrightarrow> mgr_wf m' = mgr_wf m"
  by (simp add: mgr_static_def mgr_wf_def)

lemma map_of_sum_split:
  fixes al :: "(string \<times> block_ref list) list"
  assumes "distinct (map fst al)"
  shows "sum_list (map (\<lambda>e. mset (snd e)) al) =
    mset (case map_of al rid of None \<Rightarrow> [] | Some bs \<Rightarrow> bs) + sum_list (map (\<lambda>e. mset (snd e)) (AList.delete rid al))"
  using assms
proof (induction al)
  case (Cons e al)
  show ?case
  proof (cases "fst e = rid")
    case True
    with Cons.prems have "rid \<notin> fst ` set al" by auto
    then have "AList.delete rid al = al" by (simp add: delete_id)
    with True show ?thesis by (cases e) simp
  next
    case False
    with Cons show ?thesis by (cases e) (simp add: ac_simps)
  qed
qed simp

lemma tabs_split: "distinct (map fst (req_to_blocks m)) \<Longrightarrow> tabs m = mset (req_blocks m rid) + others rid m"
  unfolding tabs_def others_def req_blocks_def by (rule map_of_sum_split)

lemma set_req_blocks_simps [simp]:
  "req_blocks (set_req_blocks rid bs m) rid' = (if rid' = rid then bs else req_blocks m rid')"
  "num_cached_block (set_req_blocks rid bs m) = num_cached_block m"
  "mgr_static m' (set_req_blocks rid bs m) = mgr_static m' m"
  "mgr_static (set_req_blocks rid bs m) m' = mgr_static m m'"
  "stm_class (set_req_blocks rid bs m) = stm_class m" "stm_block_size (set_req_blocks rid bs m) = stm_block_size m"
  "stm_spec (set_req_blocks rid bs m) = stm_spec m" "stm_enable_caching (set_req_blocks rid bs m) = stm_enable_caching m"
  "stm_group_id (set_req_blocks rid bs m) = stm_group_id m"
  "max_admission_blocks_per_request (set_req_blocks rid bs m) = max_admission_blocks_per_request m"
  "ncached (set_req_blocks rid bs m) = ncached m"
  by (auto simp: set_req_blocks_def req_blocks_def update_conv' mgr_static_def ncached_def fun_eq_iff)

lemma set_req_blocks_keys:
  "distinct (map fst (req_to_blocks m)) \<Longrightarrow> distinct (map fst (req_to_blocks (set_req_blocks rid bs m)))"
  by (simp add: set_req_blocks_def distinct_update)

lemma others_set_req_blocks [simp]: "others rid (set_req_blocks rid bs m) = others rid m"
  by (simp add: others_def set_req_blocks_def delete_update_same)

lemma tabs_set_req_blocks:
  "distinct (map fst (req_to_blocks m)) \<Longrightarrow> tabs (set_req_blocks rid bs m) = mset bs + others rid m"
  using tabs_split[OF set_req_blocks_keys, of m rid bs rid] by simp

lemma touch_entry_simps [simp]:
  "req_blocks (touch_entry rid m) = req_blocks m" "num_cached_block (touch_entry rid m) = num_cached_block m"
  "mgr_static m' (touch_entry rid m) = mgr_static m' m" "others rid (touch_entry rid m) = others rid m"
  "stm_class (touch_entry rid m) = stm_class m" "stm_block_size (touch_entry rid m) = stm_block_size m"
  "stm_spec (touch_entry rid m) = stm_spec m" "stm_enable_caching (touch_entry rid m) = stm_enable_caching m"
  "stm_group_id (touch_entry rid m) = stm_group_id m"
  "max_admission_blocks_per_request (touch_entry rid m) = max_admission_blocks_per_request m"
  by (simp_all add: touch_entry_def fun_eq_iff)

lemma set_touch_entry [simp]: "set_req_blocks rid bs (touch_entry rid m) = set_req_blocks rid bs m"
  by (simp add: touch_entry_def set_req_blocks_def update_last)

lemma get_num_skipped_touch [simp]: "get_num_skipped_tokens (touch_entry rid m) n = get_num_skipped_tokens m n"
  by (simp add: get_num_skipped_tokens_def cong: manager_class.case_cong)

lemma mgr_invD:
  assumes "mgr_inv p m"
  shows "mgr_wf m" "stm_enable_caching m = enable_caching p" "distinct (map fst (req_to_blocks m))"
    "table_ok p (req_blocks m rid) (ncached m rid)" "num_cached_block m rid = Some n \<Longrightarrow> 0 \<le> n"
    "0 < stm_block_size m"
  using assms by (auto simp: mgr_inv_def mgr_wf_def)

lemma req_blocks_others:
  assumes "distinct (map fst (req_to_blocks m))" and "rid' \<noteq> rid"
  shows "mset (req_blocks m rid') \<subseteq># others rid m"
proof -
  let ?m = "m\<lparr>req_to_blocks := AList.delete rid (req_to_blocks m)\<rparr>"
  have "distinct (map fst (req_to_blocks ?m))" using assms(1) by (simp add: distinct_delete)
  from tabs_split[OF this, of rid'] have "mset (req_blocks ?m rid') \<subseteq># tabs ?m" by simp
  then show ?thesis using assms(2) by (simp add: tabs_def others_def req_blocks_def delete_conv')
qed

lemma mgr_inv_keeps:
  assumes "mgr_inv p m" and "keeps p p' (tabs m)"
  shows "mgr_inv p' m"
proof -
  have "mset (req_blocks m rid) \<subseteq># tabs m" for rid using tabs_split[OF mgr_invD(3)[OF assms(1)], of rid] by simp
  then have "table_ok p' (req_blocks m rid) (ncached m rid)" for rid
    using table_ok_keeps[OF mgr_invD(4)[OF assms(1)] assms(2)] by blast
  with assms show ?thesis by (auto simp: mgr_inv_def pool_staticD(3)[OF keepsD[OF assms(2)]])
qed

text \<open>One table is replaced; the others keep their order.\<close>

lemma mgr_inv_update:
  assumes inv: "mgr_inv p m" and k: "keeps p p' (others rid m)" and t: "table_ok p' bs nc"
    and st: "mgr_static m m'" and rb: "\<And>r. req_blocks m' r = (if r = rid then bs else req_blocks m r)"
    and ks: "distinct (map fst (req_to_blocks m'))"
    and nc: "\<And>r. r \<noteq> rid \<Longrightarrow> num_cached_block m' r = num_cached_block m r" "nc = ncached m' rid"
      "\<And>n. num_cached_block m' rid = Some n \<Longrightarrow> 0 \<le> n"
  shows "mgr_inv p' m'"
proof -
  have "table_ok p' (req_blocks m' r) (ncached m' r)" for r
  proof (cases "r = rid")
    case False
    then have "ncached m' r = ncached m r" using nc(1) by (simp add: ncached_def)
    with False show ?thesis
      using table_ok_keeps[OF mgr_invD(4)[OF inv] k req_blocks_others[OF mgr_invD(3)[OF inv] False]] rb by simp
  qed (use t nc(2) rb in simp)
  moreover have "0 \<le> n" if "num_cached_block m' r = Some n" for r n
    using that nc(1,3) mgr_invD(5)[OF inv, of r n] by (cases "r = rid") auto
  ultimately show ?thesis using inv ks st unfolding mgr_inv_def mgr_static_wf[OF st]
    by (simp add: mgr_static_def pool_staticD(3)[OF keepsD[OF k]])
qed

lemma div_times_le_int: "0 < (c :: int) \<Longrightarrow> n div c * c \<le> n"
  using le_div_iff_int[of c "n div c" n] by simp

lemma skipped_total: "mgr_wf m \<Longrightarrow> \<exists>k. get_num_skipped_tokens m n = Inr k \<and> (0 \<le> n \<longrightarrow> 0 \<le> k \<and> k \<le> n)"
  by (cases "stm_class m")
    (auto simp: mgr_wf_def get_num_skipped_tokens_def sliding_num_skipped_tokens_def chunked_num_skipped_tokens_def
      pos_imp_zdiv_nonneg_iff div_times_le_int)

section \<open>Recycling\<close>

lemma remove_loop_spec:
  assumes "remove_loop null k bs = (removed, bs')" and "k \<le> length bs"
  shows "length bs' = length bs" "mset bs' + mset removed = mset bs + replicate_mset (length removed) null"
    "null \<notin> set removed" "\<forall>i<length bs. bs' ! i = bs ! i \<or> bs' ! i = null \<and> i < k" "length removed \<le> k"
    "\<forall>i<k. i + length removed \<ge> k \<longrightarrow> bs' ! i = null"
    "length removed < k \<longrightarrow> bs ! (k - length removed - 1) = null"
  using assms
proof (induction k arbitrary: bs removed bs')
  case (Suc k)
  { case 1
    show ?case using Suc 1 by (auto split: if_splits prod.splits)
  next
    case 2
    show ?case
    proof (cases "bs ! k = null")
      case False
      then obtain r where r: "remove_loop null k (bs[k := null]) = (r, bs')" "removed = bs ! k # r"
        using 2 by (auto split: prod.splits)
      have k: "k < length bs" using 2 by simp
      then have "mset (bs[k := null]) + {#bs ! k#} = mset bs + {#null#}"
        by (simp add: mset_update nth_mem_mset)
      with Suc.IH(2)[OF r(1)] k r(2) show ?thesis by (simp add: union_assoc add_mset_commute)
    qed (use 2 in auto)
  next
    case 3
    show ?case using Suc 3 by (auto split: if_splits prod.splits)
  next
    case 4
    show ?case
    proof (cases "bs ! k = null")
      case False
      then obtain r where r: "remove_loop null k (bs[k := null]) = (r, bs')" using 4 by (auto split: prod.splits)
      have "\<forall>i<length bs. bs' ! i = bs[k := null] ! i \<or> bs' ! i = null \<and> i < k" using Suc.IH(4)[OF r] 4 by simp
      then show ?thesis by (metis less_SucI lessI nth_list_update_eq nth_list_update_neq)
    qed (use 4 in auto)
  next
    case 5
    show ?case using Suc 5 by (auto split: if_splits prod.splits)
  next
    case 6
    show ?case
    proof (cases "bs ! k = null")
      case False
      then obtain r where r: "remove_loop null k (bs[k := null]) = (r, bs')" "removed = bs ! k # r"
        using 6 by (auto split: prod.splits)
      have le: "k \<le> length (bs[k := null])" using 6 by simp
      have "bs' ! k = null" using Suc.IH(4)[OF r(1) le] 6(2) by (metis Suc_le_eq length_list_update nth_list_update_eq)
      with Suc.IH(6)[OF r(1) le] r(2) show ?thesis by (auto simp: less_Suc_eq)
    qed (use 6 in \<open>auto simp: less_Suc_eq\<close>)
  next
    case 7
    show ?case
    proof (cases "bs ! k = null")
      case False
      then obtain r where r: "remove_loop null k (bs[k := null]) = (r, bs')" "removed = bs ! k # r"
        using 7 by (auto split: prod.splits)
      with Suc.IH(7)[OF r(1)] 7 show ?thesis by (auto simp: nth_list_update)
    qed (use 7 in auto)
  }
qed auto

lemma ledger_cong:
  "(\<And>b. usable p b \<Longrightarrow> count H b = count H' b) \<Longrightarrow> ledger p H = ledger p H'"
  by (simp add: ledger_def)

lemma holds_sub:
  assumes "holds p bs" and "\<forall>b\<in>set bs'. b \<in> set bs \<or> b = null_block p"
    and "\<And>b. usable p b \<Longrightarrow> count (mset bs') b \<le> count (mset bs) b"
  shows "holds p bs'"
proof -
  have "count (mset (filter (usable p) bs')) b \<le> 1" for b
  proof (cases "usable p b")
    case True
    have "count (mset (filter (usable p) bs)) b \<le> 1"
      using assms(1) unfolding holds_def distinct_count_atmost_1 by (metis le_numeral_extra(4) zero_le)
    then show ?thesis using assms(3)[OF True] True by (simp add: mset_filter)
  qed (simp add: mset_filter)
  then have "distinct (filter (usable p) bs')"
    unfolding distinct_count_atmost_1 by (metis count_greater_zero_iff less_Suc0 less_one nless_le set_mset_mset)
  with assms(1,2) show ?thesis by (auto simp: holds_def)
qed

lemma table_ok_nulled:
  assumes tab: "table_ok p bs nc" and kp: "keeps p p' H" and len: "length bs' = length bs"
    and nth: "\<And>i. i < length bs \<Longrightarrow> bs' ! i = bs ! i \<or> bs' ! i = null_block p \<and> P i"
    and cnt: "\<And>b. usable p b \<Longrightarrow> count (mset bs') b \<le> count (mset bs) b"
    and nu: "\<not> usable p (null_block p)" and sub: "mset bs' \<subseteq># H"
  shows "table_ok p' bs' nc"
proof -
  note st = keepsD[OF kp]
  have mem: "\<forall>b\<in>set bs'. b \<in> set bs \<or> b = null_block p"
  proof
    fix b assume "b \<in> set bs'"
    then obtain i where "i < length bs" "b = bs' ! i" using len by (auto simp: in_set_conv_nth)
    with nth[of i] nth_mem[of i bs] show "b \<in> set bs \<or> b = null_block p" by auto
  qed
  have "holds p bs" using tab by (simp add: table_ok_def)
  then have "holds p bs'" using mem cnt by (rule holds_sub)
  moreover have "fresh p' b" if H: "enable_caching p" "b \<in> set (drop nc bs')" "usable p b" for b
  proof -
    obtain i where i: "i < length bs - nc" "b = bs' ! (nc + i)" using H(2) len by (auto simp: in_set_conv_nth)
    then have "nc + i < length bs" by simp
    with nth[of "nc + i"] nu H(3) i(2) have "b = drop nc bs ! i" by auto
    then have "b \<in> set (drop nc bs)" using i(1) nth_mem[of i "drop nc bs"] by simp
    then have "fresh p b" using tab H(1,3) by (auto simp: table_ok_def)
    moreover have "b \<in># H" using mset_subset_eqD[OF sub, of b] in_set_dropD[OF H(2)] by simp
    ultimately show ?thesis using kp H(3) by (auto simp: keeps_def)
  qed
  ultimately show ?thesis using tab len
    unfolding table_ok_def holds_static[OF st] pool_staticD(3)[OF st] pool_static_usable[OF st] by auto
qed

lemma base_remove_step:
  assumes inv: "mgr_inv p m" and led: "ledger p (tabs m + R)"
  shows "\<exists>m' p'. base_remove_skipped_blocks rid n m p = Inr (m', p') \<and> mgr_inv p' m' \<and> ledger p' (tabs m' + R)
    \<and> keeps p p' R \<and> mgr_static m m' \<and> get_num_free_blocks p \<le> get_num_free_blocks p'
    \<and> num_cached_block m' = num_cached_block m \<and> (\<forall>b. hash_of p' b = hash_of p b)
    \<and> (\<forall>r. length (req_blocks m' r) = length (req_blocks m r) \<and> (r \<noteq> rid \<longrightarrow> req_blocks m' r = req_blocks m r))
    \<and> (\<forall>i<length (req_blocks m rid). req_blocks m' rid ! i = req_blocks m rid ! i
         \<or> req_blocks m' rid ! i = null_block p \<and> (\<exists>k. get_num_skipped_tokens m n = Inr k \<and> (int i + 1) * stm_block_size m \<le> k))"
proof -
  obtain skipped where sk: "get_num_skipped_tokens m n = Inr skipped" using skipped_total[OF mgr_invD(1)[OF inv]] by blast
  show ?thesis
  proof (cases "skipped \<le> 0")
    case True
    then show ?thesis using sk inv led by (auto simp: base_remove_skipped_blocks_def)
  next
    case False
    let ?bs = "req_blocks m rid" and ?null = "null_block p"
    let ?k = "nat (min (skipped div stm_block_size m) (int (length ?bs)))"
    obtain rs bs' where loop: "remove_loop ?null ?k ?bs = (rs, bs')" by fastforce
    have "?k \<le> length ?bs" by simp
    note L = remove_loop_spec[OF loop this]
    note D = mgr_invD(3)[OF inv]
    have tab: "table_ok p ?bs (ncached m rid)" by (rule mgr_invD(4)[OF inv])
    have H: "tabs m + R = mset ?bs + (others rid m + R)" using tabs_split[OF D, of rid] by (simp add: union_assoc)
    have nu: "\<not> usable p ?null" using null_not_usable ledger_ok[OF led] by blast
    have cnt: "count (mset bs') b + count (mset rs) b = count (mset ?bs) b" if "usable p b" for b
      using arg_cong[OF L(2), of "\<lambda>M. count M b"] that nu by auto
    have holds: "holds p ?bs" using tab by (simp add: table_ok_def)
    have sub: "b \<in> set ?bs" if "b \<in> set rs" for b
    proof -
      have "b \<in># mset bs' + mset rs" using that by simp
      then have "b \<in># mset ?bs + replicate_mset (length rs) ?null" unfolding L(2) .
      then show ?thesis using L(3) that by (auto split: if_splits)
    qed
    have rs: "holds p rs" by (rule holds_sub[OF holds]) (use sub cnt in \<open>auto, metis le_add2\<close>)
    have "filter_mset (usable p) (mset rs) \<subseteq># tabs m + R"
      unfolding H by (rule mset_subset_eqI) (use cnt in \<open>auto, metis le_add2 le_add_same_cancel1 order_trans trans_le_add1\<close>)
    from release_table[OF led rs this] obtain p' where p': "free_blocks rs p = Inr p'" "ledger p' (tabs m + R - mset rs)"
      "keeps p p' (tabs m + R - mset rs)" "get_num_free_blocks p \<le> get_num_free_blocks p'" "\<forall>b. hash_of p' b = hash_of p b" by blast
    note st = keepsD[OF p'(3)]
    let ?m = "set_req_blocks rid bs' m"
    have T: "tabs ?m + R = mset bs' + (others rid m + R)" using tabs_set_req_blocks[OF D, of rid bs'] by (simp add: union_assoc)
    have cH: "count (tabs m + R - mset rs) b = count (tabs ?m + R) b" if "usable p b" for b
      unfolding H T count_diff count_union using cnt[OF that] by simp
    have led': "ledger p' (tabs ?m + R)"
      using p'(2) cH by (subst ledger_cong[where H' = "tabs m + R - mset rs"]) (auto simp: pool_static_usable[OF st])
    have kp: "keeps p p' (tabs ?m + R)"
    proof -
      have "b \<in># tabs m + R - mset rs" if "b \<in># tabs ?m + R" "usable p b" for b
        using that(1) cH[OF that(2)] by (metis count_eq_zero_iff)
      with p'(3) show ?thesis unfolding keeps_def by blast
    qed
    have nth: "bs' ! i = ?bs ! i \<or> bs' ! i = ?null \<and> i < ?k" if "i < length ?bs" for i using L(4) that by blast
    have tab': "table_ok p' bs' (ncached m rid)"
      by (rule table_ok_nulled[OF tab kp L(1) nth]) (use cnt T nu in \<open>auto, metis le_add1\<close>)
    have inv': "mgr_inv p' ?m"
      by (rule mgr_inv_update[OF inv keeps_mono[OF kp] tab'])
        (use D T set_req_blocks_keys mgr_invD(5)[OF inv] in \<open>auto simp: union_assoc\<close>)
    have "base_remove_skipped_blocks rid n m p = Inr (?m, p')"
      using sk False loop p'(1) by (simp add: base_remove_skipped_blocks_def Let_def)
    moreover have "keeps p p' R" by (rule keeps_mono[OF kp]) simp
    moreover have "(int i + 1) * stm_block_size m \<le> skipped" if "i < ?k" for i
      using that le_div_iff_int[OF mgr_invD(6)[OF inv], of "int i + 1" skipped] by linarith
    ultimately show ?thesis
      using inv' led' p'(4,5) L(1) nth sk by (intro exI[of _ ?m] exI[of _ p']) auto
  qed
qed

section \<open>Growing\<close>

lemma record_new_ids_simps [simp]:
  "req_blocks (record_new_ids p bs m) = req_blocks m" "num_cached_block (record_new_ids p bs m) = num_cached_block m"
  "mgr_static m' (record_new_ids p bs m) = mgr_static m' m" "req_to_blocks (record_new_ids p bs m) = req_to_blocks m"
  "tabs (record_new_ids p bs m) = tabs m" "ncached (record_new_ids p bs m) = ncached m"
  by (auto simp: record_new_ids_def req_blocks_def mgr_static_def tabs_def ncached_def fun_eq_iff)

lemma holds_append:
  assumes "holds p bs" and "\<forall>b\<in>set new. usable p b \<and> b \<notin> set bs" and "distinct new"
  shows "holds p (bs @ new)"
  using assms by (auto simp: holds_def)

lemma base_allocate_step:
  assumes inv: "mgr_inv p m" and led: "ledger p (tabs m + R)"
    and room: "max 0 (cdiv n (stm_block_size m) - int (length (req_blocks m rid))) \<le> get_num_free_blocks p"
  shows "\<exists>new m' p'. base_allocate_new_blocks u rid n m p = Inr (new, m', p') \<and> mgr_inv p' m' \<and> ledger p' (tabs m' + R)
    \<and> keeps p p' R \<and> mgr_static m m' \<and> num_cached_block m' = num_cached_block m
    \<and> get_num_free_blocks p' = get_num_free_blocks p - max 0 (cdiv n (stm_block_size m) - int (length (req_blocks m rid)))
    \<and> (\<forall>r. req_blocks m' r = (if r = rid then req_blocks m rid @ new else req_blocks m r))
    \<and> int (length (req_blocks m' rid)) = max (int (length (req_blocks m rid))) (cdiv n (stm_block_size m))
    \<and> (\<forall>b\<in>set new. usable p b \<and> b \<notin># tabs m + R)"
proof (cases "cdiv n (stm_block_size m) - int (length (req_blocks m rid)) \<le> 0")
  case True
  note D = mgr_invD(3)[OF inv]
  have "mgr_inv p (touch_entry rid m)"
    by (rule mgr_inv_update[OF inv keeps_refl mgr_invD(4)[OF inv, of rid]])
      (auto simp: touch_entry_def D set_req_blocks_keys mgr_invD(5)[OF inv])
  moreover have "tabs (touch_entry rid m) = tabs m"
    using tabs_set_req_blocks[OF D, of rid] tabs_split[OF D, of rid] by (simp add: touch_entry_def)
  ultimately show ?thesis using True led
    by (intro exI[of _ "[]"] exI[of _ "touch_entry rid m"] exI[of _ p]) (auto simp: base_allocate_new_blocks_def Let_def)
next
  case False
  let ?bs = "req_blocks m rid" and ?n = "cdiv n (stm_block_size m) - int (length (req_blocks m rid))"
  note D = mgr_invD(3)[OF inv]
  have H: "tabs m + R = mset ?bs + (others rid m + R)" using tabs_split[OF D, of rid] by (simp add: union_assoc)
  have "ledger p (mset ?bs + (others rid m + R))" using led H by simp
  from alloc_table[OF this, of ?n u] False room obtain new p' where
    p': "get_new_blocks u ?n p = Inr (new, p')" "int (length new) = ?n" "ledger p' (mset (?bs @ new) + (others rid m + R))"
      "keeps p p' (mset ?bs + (others rid m + R))" "get_num_free_blocks p' = get_num_free_blocks p - ?n"
      "\<forall>b\<in>set new. usable p b \<and> b \<notin># mset ?bs + (others rid m + R) \<and> (enable_caching p \<longrightarrow> fresh p' b)" "distinct new"
    by auto
  let ?m = "record_new_ids p' new (set_req_blocks rid (?bs @ new) m)"
  note st = keepsD[OF p'(4)]
  have tab: "table_ok p' ?bs (ncached m rid)" by (rule table_ok_keeps[OF mgr_invD(4)[OF inv] p'(4)]) simp
  have "holds p' (?bs @ new)"
    using tab p'(6,7) unfolding table_ok_def pool_static_usable[OF st, symmetric] by (intro holds_append) auto
  then have tab': "table_ok p' (?bs @ new) (ncached m rid)"
    using tab p'(6) unfolding table_ok_def pool_staticD(3)[OF st] by auto
  have "mgr_inv p' ?m"
    by (rule mgr_inv_update[OF inv keeps_mono[OF p'(4)] tab']) (auto simp: set_req_blocks_keys[OF D] mgr_invD(5)[OF inv])
  moreover have "ledger p' (tabs ?m + R)"
    using p'(3) tabs_set_req_blocks[OF D, of rid "?bs @ new"] by (simp add: union_assoc)
  moreover have "keeps p p' R" by (rule keeps_mono[OF p'(4)]) simp
  moreover have "base_allocate_new_blocks u rid n m p = Inr (new, ?m, p')"
    using False p'(1) by (simp add: base_allocate_new_blocks_def Let_def)
  ultimately show ?thesis using False p'(2,3,5,6) H
    by (intro exI[of _ new] exI[of _ ?m] exI[of _ p']) auto
qed

definition computed_cost :: "string \<Rightarrow> block_ref list \<Rightarrow> int \<Rightarrow> SingleTypeKVCacheManager \<Rightarrow> BlockPool \<Rightarrow> int" where
  "computed_cost rid ncb n m p =
     (if num_cached_block m rid \<noteq> None then 0
      else case get_num_skipped_tokens m n of
          Inl _ \<Rightarrow> 0
        | Inr k \<Rightarrow> int (length (filter (\<lambda>b. refs p b = 0 \<and> usable p b) (slice_from ncb (k div stm_block_size m)))))"

text \<open>Blocks a prefix-cache lookup may return.\<close>

definition hit_blocks :: "BlockPool \<Rightarrow> block_ref list \<Rightarrow> bool" where
  "hit_blocks p bs \<longleftrightarrow> holds p bs \<and> (\<forall>b\<in>set bs. usable p b \<longrightarrow> hash_of p b \<noteq> None) \<and> (bs \<noteq> [] \<longrightarrow> enable_caching p)"

lemma hit_blocks_drop: "hit_blocks p bs \<Longrightarrow> hit_blocks p (drop k bs)"
proof -
  assume hb: "hit_blocks p bs"
  have "bs = take k bs @ drop k bs" by simp
  with hb have "distinct (filter (usable p) (drop k bs))" unfolding hit_blocks_def holds_def by (metis distinct_append filter_append)
  with hb show ?thesis by (auto simp: hit_blocks_def holds_def dest: in_set_dropD)
qed

lemma evictable_usable:
  assumes "pool_ok p" and "\<forall>b\<in>set bs. usable p b \<or> b = null_block p"
  shows "get_num_evictable_blocks p bs = int (length (filter (\<lambda>b. refs p b = 0 \<and> usable p b) bs))"
proof -
  obtain xs where xs: "pool_inv p xs" using assms(1) by (auto simp: pool_ok_def)
  have "filter (\<lambda>b. refs p b = 0 \<and> \<not> is_null (pool_store p b)) bs = filter (\<lambda>b. refs p b = 0 \<and> usable p b) bs"
    using assms(2) null_facts[OF xs] usable_facts(1)[OF xs] by (intro filter_cong) auto
  then show ?thesis by (simp add: get_num_evictable_blocks_def)
qed

lemma base_computed_step:
  assumes inv: "mgr_inv p m" and led: "ledger p (tabs m + R)" and n: "0 \<le> n"
    and run: "num_cached_block m rid \<noteq> None \<Longrightarrow> ncb = []" and new: "num_cached_block m rid = None \<Longrightarrow> req_blocks m rid = []"
    and hit: "hit_blocks p ncb"
  shows "\<exists>m' p'. base_allocate_new_computed_blocks u rid ncb n 0 m p = Inr (m', p') \<and> mgr_inv p' m' \<and> ledger p' (tabs m' + R)
    \<and> keeps p p' R \<and> mgr_static m m' \<and> get_num_free_blocks p \<le> get_num_free_blocks p' + computed_cost rid ncb n m p
    \<and> (\<forall>b. hash_of p' b = hash_of p b) \<and> (\<forall>b. refs p b \<le> refs p' b) \<and> (\<forall>r. r \<noteq> rid \<longrightarrow> req_blocks m' r = req_blocks m r)
    \<and> num_cached_block m' rid \<noteq> None
    \<and> (\<forall>k. num_cached_block m rid = None \<longrightarrow> get_num_skipped_tokens m n = Inr k \<longrightarrow>
         req_blocks m' rid = replicate (nat (k div stm_block_size m)) (null_block p) @ drop (nat (k div stm_block_size m)) ncb)
    \<and> (num_cached_block m rid \<noteq> None \<longrightarrow> m' = m)"
proof (cases "num_cached_block m rid = None")
  case False
  then show ?thesis using run[OF False] inv led
    by (intro exI[of _ m] exI[of _ p]) (auto simp: base_allocate_new_computed_blocks_def computed_cost_def)
next
  case True
  obtain k where k: "get_num_skipped_tokens m n = Inr k" "0 \<le> k" using skipped_total[OF mgr_invD(1)[OF inv]] n by blast
  let ?s = "k div stm_block_size m"
  have s: "0 \<le> ?s" using k(2) mgr_invD(6)[OF inv] by (simp add: pos_imp_zdiv_nonneg_iff)
  let ?ncb = "drop (nat ?s) ncb" and ?null = "null_block p"
  note D = mgr_invD(3)[OF inv]
  have hb: "hit_blocks p ?ncb" by (rule hit_blocks_drop[OF hit])
  have tabs: "tabs m = others rid m" using tabs_split[OF D, of rid] new[OF True] by simp
  have cost: "computed_cost rid ncb n m p = int (length (filter (\<lambda>b. refs p b = 0 \<and> usable p b) ?ncb))"
    using True k(1) s by (simp add: computed_cost_def)
  have "\<forall>b\<in>set ?ncb. usable p b \<and> hash_of p b \<noteq> None \<or> b = ?null" using hb by (auto simp: hit_blocks_def holds_def)
  from share_table[OF led this] obtain p1 where p1: "touch ?ncb p = Inr p1" "ledger p1 (mset ?ncb + (tabs m + R))" "keeps p p1 (tabs m + R)"
    "get_num_free_blocks p \<le> get_num_free_blocks p1 + computed_cost rid ncb n m p" "\<forall>b. hash_of p1 b = hash_of p b"
    "\<forall>b. refs p b \<le> refs p1 b" unfolding cost by blast
  have touch: "(if enable_caching p then touch ?ncb p else bind_r (assert_r (?ncb = [])) (\<lambda>_. Inr p)) = Inr p1"
    using p1(1) hb by (cases "?ncb = []") (auto simp: hit_blocks_def touch_def)
  note st = keepsD[OF p1(3)]
  have nu: "\<not> usable p ?null" using null_not_usable ledger_ok[OF led] by blast
  let ?bs = "replicate (nat ?s) ?null @ ?ncb"
  let ?m = "(set_req_blocks rid ?bs m)\<lparr>num_cached_block := (num_cached_block m)(rid \<mapsto> int (length ?bs))\<rparr>"
  have "holds p ?bs" using hb nu by (auto simp: hit_blocks_def holds_def)
  then have tab: "table_ok p1 ?bs (length ?bs)" by (simp add: table_ok_def holds_static[OF st])
  have "mgr_inv p1 ?m"
    by (rule mgr_inv_update[OF inv keeps_mono[OF p1(3)] tab])
      (use tabs set_req_blocks_keys[OF D, of rid ?bs] in \<open>auto simp: mgr_static_def set_req_blocks_def req_blocks_def update_conv' ncached_def\<close>)
  moreover have "ledger p1 (tabs ?m + R)"
  proof -
    have "tabs ?m + R = mset ?bs + (others rid m + R)"
      using tabs_set_req_blocks[OF D, of rid ?bs] by (simp add: tabs_def union_assoc)
    then show ?thesis using p1(2) tabs nu
      by (subst ledger_cong[where H' = "mset ?ncb + (tabs m + R)"]) (auto simp: pool_static_usable[OF st])
  qed
  moreover have "keeps p p1 R" by (rule keeps_mono[OF p1(3)]) simp
  moreover have "base_allocate_new_computed_blocks u rid ncb n 0 m p = Inr (?m, p1)"
  proof -
    have ncb: "(if ?s > 0 then slice_from ncb ?s else ncb) = ?ncb" using s by (cases "?s = 0") auto
    have ext: "((if 0 < ?s then min (n - k) 0 else 0) > 0) = False" by auto
    show ?thesis
      unfolding base_allocate_new_computed_blocks_def Let_def add_0_right get_num_skipped_touch touch_entry_simps k(1) bind_r_simps
        ncb mgr_invD(2)[OF inv] touch ext new[OF True] True repeat_list_def pool_staticD(2)[OF st] set_touch_entry
      by (simp only: simp_thms if_False if_True assert_r_True bind_r_simps)
  qed
  ultimately show ?thesis using p1(4-6) True k(1)
    by (intro exI[of _ ?m] exI[of _ p1]) (auto simp: req_blocks_def set_req_blocks_def update_conv' mgr_static_def)
qed

section \<open>Caching and freeing\<close>

text \<open>The request's hashes cover \<open>n\<close> tokens at the block size of the manager.\<close>

definition hashed_up_to :: "Request \<Rightarrow> int \<Rightarrow> SingleTypeKVCacheManager \<Rightarrow> BlockPool \<Rightarrow> bool" where
  "hashed_up_to r n m p \<longleftrightarrow> n div stm_block_size m \<le> int (length (block_hashes r))
     \<and> (\<exists>hs. group_hashes r (hash_block_size p) (stm_block_size m) = Inr hs \<and> n div stm_block_size m \<le> int (length hs))"

lemma base_cache_step:
  assumes inv: "mgr_inv p m" and led: "ledger p (tabs m + R)" and c: "enable_caching p"
    and len: "n div stm_block_size m \<le> int (length (req_blocks m (request_id r)))" and hs: "hashed_up_to r n m p"
  shows "\<exists>c m' p'. base_cache_blocks u sha r n m p = Inr (r\<lparr>embeds_hashes := c\<rparr>, m', p') \<and> mgr_inv p' m'
    \<and> ledger p' (tabs m' + R) \<and> keeps p p' R \<and> mgr_static m m' \<and> get_num_free_blocks p' = get_num_free_blocks p
    \<and> req_blocks m' = req_blocks m \<and> (\<forall>b. refs p' b = refs p b)
    \<and> ncached m' (request_id r) = max (ncached m (request_id r)) (nat (n div stm_block_size m))"
proof -
  let ?rid = "request_id r" let ?bs = "req_blocks m ?rid" and ?nc = "ncached m ?rid" and ?nf = "n div stm_block_size m"
  have nc: "(case num_cached_block m ?rid of None \<Rightarrow> 0 | Some n \<Rightarrow> n) = int ?nc"
    using mgr_invD(5)[OF inv, of ?rid] by (auto simp: ncached_def split: option.splits)
  have id: "r\<lparr>embeds_hashes := embeds_hashes r\<rparr> = r" by simp
  show ?thesis
  proof (cases "int ?nc \<ge> ?nf")
    case True
    then have "base_cache_blocks u sha r n m p = Inr (r\<lparr>embeds_hashes := embeds_hashes r\<rparr>, m, p)"
      unfolding base_cache_blocks_def Let_def nc by simp
    with True inv led show ?thesis
      by (intro exI[of _ "embeds_hashes r"] exI[of _ m] exI[of _ p]) (auto simp: max_def)
  next
    case False
    note D = mgr_invD(3)[OF inv]
    have H: "tabs m + R = mset ?bs + (others ?rid m + R)" using tabs_split[OF D, of ?rid] by (simp add: union_assoc)
    have tab: "table_ok p ?bs ?nc" by (rule mgr_invD(4)[OF inv])
    obtain hs where hs': "group_hashes r (hash_block_size p) (stm_block_size m) = Inr hs" "?nf \<le> int (length hs)" "?nf \<le> int (length (block_hashes r))"
      using hs by (auto simp: hashed_up_to_def)
    have g: "0 \<le> stm_group_id m" "stm_group_id m < 2 ^ 32" using mgr_invD(1)[OF inv] by (auto simp: mgr_wf_def)
    have sub: "mset ?bs \<subseteq># tabs m + R" unfolding H by simp
    obtain c' p' where p': "cache_full_blocks u sha r ?bs (int ?nc) ?nf (stm_block_size m) (stm_group_id m) p = Inr (r\<lparr>embeds_hashes := c'\<rparr>, p')"
      "ledger p' (tabs m + R)" "table_ok p' ?bs (nat ?nf)" "keeps p p' (tabs m + R - mset ?bs)" "\<forall>b. refs p' b = refs p b"
      "get_num_free_blocks p' = get_num_free_blocks p"
      using cache_table[OF led sub tab c _ len hs'(3,1,2) g, of u sha] False by auto
    let ?m = "(touch_entry ?rid m)\<lparr>num_cached_block := (num_cached_block m)(?rid \<mapsto> ?nf)\<rparr>"
    have kp: "keeps p p' (others ?rid m + R)" using p'(4) H by simp
    have rb: "req_blocks ?m = req_blocks m" by (simp add: req_blocks_def touch_entry_def set_req_blocks_def update_conv' fun_eq_iff)
    have "mgr_inv p' ?m"
      by (rule mgr_inv_update[OF inv keeps_mono[OF kp] p'(3)])
        (use rb set_req_blocks_keys[OF D, of ?rid ?bs] False in \<open>auto simp: mgr_static_def ncached_def touch_entry_def\<close>)
    moreover have "tabs ?m = tabs m"
      using tabs_set_req_blocks[OF D, of ?rid ?bs] tabs_split[OF D, of ?rid] by (simp add: touch_entry_def tabs_def)
    moreover have "keeps p p' R" by (rule keeps_mono[OF kp]) simp
    moreover have "base_cache_blocks u sha r n m p = Inr (r\<lparr>embeds_hashes := c'\<rparr>, ?m, p')"
      unfolding base_cache_blocks_def Let_def nc using False p'(1) by simp
    moreover have "ncached ?m ?rid = max ?nc (nat ?nf)" using False by (simp add: ncached_def max_def nat_le_eq_zle)
    moreover have "mgr_static m ?m" by (simp add: mgr_static_def touch_entry_def set_req_blocks_def)
    ultimately show ?thesis using p'(2,5,6) rb by (intro exI[of _ c'] exI[of _ ?m] exI[of _ p']) auto
  qed
qed

lemma base_free_step:
  assumes inv: "mgr_inv p m" and led: "ledger p (tabs m + R)"
  shows "\<exists>m' p'. base_free rid m p = Inr (m', p') \<and> mgr_inv p' m' \<and> ledger p' (tabs m' + R) \<and> keeps p p' R
    \<and> mgr_static m m' \<and> get_num_free_blocks p \<le> get_num_free_blocks p' \<and> req_blocks m' rid = []
    \<and> num_cached_block m' rid = None \<and> (\<forall>r. r \<noteq> rid \<longrightarrow> req_blocks m' r = req_blocks m r) \<and> (\<forall>b. hash_of p' b = hash_of p b)
    \<and> rid \<notin> fst ` set (req_to_blocks m')"
proof -
  note D = mgr_invD(3)[OF inv]
  let ?bs = "req_blocks m rid"
  let ?m = "m\<lparr>req_to_blocks := AList.delete rid (req_to_blocks m), num_cached_block := (num_cached_block m)(rid := None)\<rparr>"
  have H: "tabs m + R = mset ?bs + (others rid m + R)" using tabs_split[OF D, of rid] by (simp add: union_assoc)
  have tab: "table_ok p ?bs (ncached m rid)" by (rule mgr_invD(4)[OF inv])
  then have "holds p (rev ?bs)" by (simp add: table_ok_def holds_def rev_filter[symmetric])
  moreover have "filter_mset (usable p) (mset (rev ?bs)) \<subseteq># tabs m + R"
    unfolding H mset_rev using multiset_filter_subset[of "usable p" "mset ?bs"] by (simp add: subset_mset.add_increasing2)
  ultimately obtain p' where p': "free_blocks (rev ?bs) p = Inr p'" "ledger p' (tabs m + R - mset (rev ?bs))"
    "keeps p p' (tabs m + R - mset (rev ?bs))" "get_num_free_blocks p \<le> get_num_free_blocks p'" "\<forall>b. hash_of p' b = hash_of p b"
    using release_table[OF led, of "rev ?bs"] by blast
  have eq: "tabs m + R - mset (rev ?bs) = others rid m + R" unfolding H by simp
  have rb: "req_blocks ?m r = (if r = rid then [] else req_blocks m r)" for r by (simp add: req_blocks_def delete_conv')
  have k: "keeps p p' (others rid m + R)" using p'(3) unfolding eq .
  have "mgr_inv p' ?m"
    by (rule mgr_inv_update[OF inv keeps_mono[OF k] table_ok_Nil])
      (use rb D in \<open>auto simp: mgr_static_def ncached_def distinct_delete\<close>)
  moreover have "tabs ?m = others rid m" by (simp add: tabs_def others_def)
  moreover have "keeps p p' R" by (rule keeps_mono[OF k]) simp
  moreover have "base_free rid m p = Inr (?m, p')" using p'(1) by (simp add: base_free_def Let_def)
  ultimately show ?thesis using p'(2,4,5) eq rb
    by (intro exI[of _ ?m] exI[of _ p']) (auto simp: mgr_static_def delete_notin_dom)
qed

end
