(* ===== verification/Coordinator.thy ===== *)
theory Coordinator
  imports Manager_Steps
begin

text \<open>
  \<open>vllm/v1/core/kv_cache_coordinator.py\<close>: one manager per cache group over a shared block pool, and the
  three coordinators, without prefix cache, for one group, and for several.  The lookup of the hybrid
  coordinator is a loop that lowers the hit length until every kind of attention accepts it; its model
  takes fuel, one unit per round, and \<open>max_cache_hit_length + 1\<close> rounds are enough.
\<close>

section \<open>State and construction\<close>

datatype coordinator_class = KVCacheCoordinatorNoPrefixCache | UnitaryKVCacheCoordinator | HybridKVCacheCoordinator

type_synonym attention_group = "KVCacheSpec \<times> int list \<times> manager_class"

record KVCacheCoordinator =
  co_class :: coordinator_class
  co_config :: KVCacheConfig
  co_enable_caching :: bool
  block_pool :: BlockPool
  eagle_group_ids :: "int set"
  single_type_managers :: "SingleTypeKVCacheManager list"
  co_block_size :: int
  co_dcp :: int
  co_pcp :: int
  co_hash_block_size :: int
  attention_groups :: "attention_group list"
  lcm_block_size :: int
  eagle_attn_group_indices :: "int set"

fun enumerate_from :: "int \<Rightarrow> 'a list \<Rightarrow> (int \<times> 'a) list" where
  "enumerate_from i [] = []"
| "enumerate_from i (x # xs) = (i, x) # enumerate_from (i + 1) xs"

definition make_managers ::
    "KVCacheConfig \<Rightarrow> int \<Rightarrow> int \<Rightarrow> bool \<Rightarrow> int \<Rightarrow> int \<Rightarrow> BlockPool \<Rightarrow> (SingleTypeKVCacheManager list \<times> BlockPool) result" where
  "make_managers cfg batched mml caching dcp pcp p =
     fold_r (\<lambda>(i, g) (ms, p).
         map_r (\<lambda>(m, p). (ms @ [m], p)) (get_manager_for_kv_cache_spec (kv_cache_spec g) batched mml caching i dcp pcp p))
       (enumerate_from 0 (kv_cache_groups cfg)) ([], p)"

definition coordinator_init ::
    "coordinator_class \<Rightarrow> KVCacheConfig \<Rightarrow> int \<Rightarrow> int \<Rightarrow> bool \<Rightarrow> bool \<Rightarrow> bool \<Rightarrow> int \<Rightarrow> int \<Rightarrow> int \<Rightarrow> bool
      \<Rightarrow> KVCacheCoordinator result" where
  "coordinator_init cls cfg mml batched use_eagle caching events dcp pcp hbs metrics =
     bind_r (block_pool_init (num_blocks cfg) caching hbs events metrics) (\<lambda>p.
     let groups = enumerate_from 0 (kv_cache_groups cfg);
         flagged = fst ` set (filter (\<lambda>(i, g). is_eagle_group g) groups);
         eagle = (if use_eagle \<and> flagged = {} then fst ` set groups else flagged) in
     bind_r (make_managers cfg batched mml caching dcp pcp p) (\<lambda>(ms, p).
       Inr \<lparr>co_class = cls, co_config = cfg, co_enable_caching = caching, block_pool = p, eagle_group_ids = eagle,
            single_type_managers = ms, co_block_size = 0, co_dcp = dcp, co_pcp = pcp, co_hash_block_size = hbs,
            attention_groups = [], lcm_block_size = 0, eagle_attn_group_indices = {}\<rparr>))"

definition no_prefix_cache_init ::
    "KVCacheConfig \<Rightarrow> int \<Rightarrow> int \<Rightarrow> bool \<Rightarrow> bool \<Rightarrow> int \<Rightarrow> int \<Rightarrow> int \<Rightarrow> bool \<Rightarrow> KVCacheCoordinator result" where
  "no_prefix_cache_init cfg mml batched use_eagle events dcp pcp hbs metrics =
     coordinator_init KVCacheCoordinatorNoPrefixCache cfg mml batched use_eagle False events dcp pcp hbs metrics"

definition unitary_init ::
    "KVCacheConfig \<Rightarrow> int \<Rightarrow> int \<Rightarrow> bool \<Rightarrow> bool \<Rightarrow> bool \<Rightarrow> int \<Rightarrow> int \<Rightarrow> int \<Rightarrow> bool \<Rightarrow> KVCacheCoordinator result" where
  "unitary_init cfg mml batched use_eagle caching events dcp pcp hbs metrics =
     bind_r (coordinator_init UnitaryKVCacheCoordinator cfg mml batched use_eagle caching events dcp pcp hbs metrics) (\<lambda>co.
     bind_r (nth_r (kv_cache_groups cfg) 0) (\<lambda>g.
     let bsz = block_size (kv_cache_spec g);
         bsz = (if dcp > 1 then bsz * dcp else bsz);
         bsz = (if pcp > 1 then bsz * pcp else bsz) in
     bind_r (assert_r (\<not> caching \<or> hbs = bsz)) (\<lambda>_.
     bind_r (assert_r (length (kv_cache_groups cfg) = 1)) (\<lambda>_.
       Inr (co\<lparr>co_block_size := bsz\<rparr>)))))"

text \<open>\<open>verify_and_split_kv_cache_groups\<close>: groups with equal specs are looked up together, full attention
  first.\<close>

fun add_to_attention_groups ::
    "int \<Rightarrow> KVCacheSpec \<Rightarrow> manager_class \<Rightarrow> attention_group list \<Rightarrow> attention_group list result" where
  "add_to_attention_groups i spec cls [] = Inr [(spec, [i], cls)]"
| "add_to_attention_groups i spec cls ((s, gids, c) # gs) =
     (if s = spec then bind_r (assert_r (cls = c)) (\<lambda>_. Inr ((s, gids @ [i], c) # gs))
      else map_r (\<lambda>gs. (s, gids, c) # gs) (add_to_attention_groups i spec cls gs))"

definition verify_and_split_kv_cache_groups :: "KVCacheCoordinator \<Rightarrow> KVCacheCoordinator result" where
  "verify_and_split_kv_cache_groups co =
     bind_r (fold_r (\<lambda>(i, g) gs.
         bind_r (nth_r (single_type_managers co) i) (\<lambda>m. add_to_attention_groups i (kv_cache_spec g) (stm_class m) gs))
       (enumerate_from 0 (kv_cache_groups (co_config co))) []) (\<lambda>gs.
     bind_r (assert_r (length gs > 1)) (\<lambda>_.
       let sorted = filter (\<lambda>(s, _). is_full s) gs @ filter (\<lambda>(s, _). \<not> is_full s) gs
       in Inr (co\<lparr>attention_groups := sorted,
                  lcm_block_size := fold lcm (map (\<lambda>(s, _). block_size s) gs) 1,
                  eagle_attn_group_indices :=
                    fst ` set (filter (\<lambda>(i, (_, gids, _)). \<exists>g\<in>set gids. g \<in> eagle_group_ids co) (enumerate_from 0 sorted))\<rparr>)))"

definition hybrid_init ::
    "KVCacheConfig \<Rightarrow> int \<Rightarrow> int \<Rightarrow> bool \<Rightarrow> bool \<Rightarrow> bool \<Rightarrow> int \<Rightarrow> int \<Rightarrow> int \<Rightarrow> bool \<Rightarrow> KVCacheCoordinator result" where
  "hybrid_init cfg mml batched use_eagle caching events dcp pcp hbs metrics =
     bind_r (coordinator_init HybridKVCacheCoordinator cfg mml batched use_eagle caching events dcp pcp hbs metrics) (\<lambda>co.
     bind_r (guard_r (hbs \<noteq> 0 \<or> kv_cache_groups cfg = []) ZeroDivisionError) (\<lambda>_.
     bind_r (assert_r (\<forall>g\<in>set (kv_cache_groups cfg). block_size (kv_cache_spec g) mod hbs = 0)) (\<lambda>_.
     bind_r (assert_r (dcp = 1)) (\<lambda>_.
     bind_r (assert_r (pcp = 1)) (\<lambda>_.
       verify_and_split_kv_cache_groups co)))))"

definition get_kv_cache_coordinator ::
    "KVCacheConfig \<Rightarrow> int \<Rightarrow> int \<Rightarrow> bool \<Rightarrow> bool \<Rightarrow> bool \<Rightarrow> int \<Rightarrow> int \<Rightarrow> int \<Rightarrow> bool \<Rightarrow> KVCacheCoordinator result" where
  "get_kv_cache_coordinator cfg mml batched use_eagle caching events dcp pcp hbs metrics =
     (if \<not> caching then no_prefix_cache_init cfg mml batched use_eagle events dcp pcp hbs metrics
      else if length (kv_cache_groups cfg) = 1
      then unitary_init cfg mml batched use_eagle caching events dcp pcp hbs metrics
      else hybrid_init cfg mml batched use_eagle caching events dcp pcp hbs metrics)"

section \<open>Operations over all managers\<close>

text \<open>\<open>for i, manager in enumerate(self.single_type_managers)\<close>: the body may change the manager, the pool
  and a value the loop carries.\<close>

fun over_managers ::
    "(int \<Rightarrow> SingleTypeKVCacheManager \<Rightarrow> 'x \<Rightarrow> BlockPool \<Rightarrow> (SingleTypeKVCacheManager \<times> 'x \<times> BlockPool) result)
      \<Rightarrow> int \<Rightarrow> SingleTypeKVCacheManager list \<Rightarrow> 'x \<Rightarrow> BlockPool \<Rightarrow> (SingleTypeKVCacheManager list \<times> 'x \<times> BlockPool) result" where
  "over_managers f i [] x p = Inr ([], x, p)"
| "over_managers f i (m # ms) x p =
     bind_r (f i m x p) (\<lambda>(m, x, p). map_r (\<lambda>(ms, x, p). (m # ms, x, p)) (over_managers f (i + 1) ms x p))"

definition with_managers ::
    "(int \<Rightarrow> SingleTypeKVCacheManager \<Rightarrow> 'x \<Rightarrow> BlockPool \<Rightarrow> (SingleTypeKVCacheManager \<times> 'x \<times> BlockPool) result)
      \<Rightarrow> 'x \<Rightarrow> KVCacheCoordinator \<Rightarrow> ('x \<times> KVCacheCoordinator) result" where
  "with_managers f x co =
     map_r (\<lambda>(ms, x, p). (x, co\<lparr>single_type_managers := ms, block_pool := p\<rparr>))
       (over_managers f 0 (single_type_managers co) x (block_pool co))"

definition co_num_blocks_step ::
    "string \<Rightarrow> int \<Rightarrow> block_ref list list \<Rightarrow> int \<Rightarrow> int \<Rightarrow> int \<Rightarrow> bool
      \<Rightarrow> int \<Rightarrow> SingleTypeKVCacheManager \<Rightarrow> int \<Rightarrow> BlockPool \<Rightarrow> (SingleTypeKVCacheManager \<times> int \<times> BlockPool) result" where
  "co_num_blocks_step rid ntok ncbs enc computed main cap i m acc p =
     (if stm_class m = CrossAttentionManager
      then map_r (\<lambda>(n, m). (m, acc + n, p)) (get_num_blocks_to_allocate rid enc [] 0 enc cap m p)
      else bind_r (nth_r ncbs i) (\<lambda>ncb.
        map_r (\<lambda>(n, m). (m, acc + n, p)) (get_num_blocks_to_allocate rid ntok ncb computed main cap m p)))"

definition co_get_num_blocks_to_allocate ::
    "string \<Rightarrow> int \<Rightarrow> block_ref list list \<Rightarrow> int \<Rightarrow> int \<Rightarrow> int \<Rightarrow> bool \<Rightarrow> KVCacheCoordinator \<Rightarrow> (int \<times> KVCacheCoordinator) result" where
  "co_get_num_blocks_to_allocate rid ntok ncbs enc computed main cap =
     with_managers (co_num_blocks_step rid ntok ncbs enc computed main cap) 0"

definition co_computed_step ::
    "bool \<Rightarrow> string \<Rightarrow> block_ref list list \<Rightarrow> int \<Rightarrow> int
      \<Rightarrow> int \<Rightarrow> SingleTypeKVCacheManager \<Rightarrow> unit \<Rightarrow> BlockPool \<Rightarrow> (SingleTypeKVCacheManager \<times> unit \<times> BlockPool) result" where
  "co_computed_step use_int rid ncbs num_local num_external i m x p =
     bind_r (nth_r ncbs i) (\<lambda>ncb.
       map_r (\<lambda>(m, p). (m, (), p)) (allocate_new_computed_blocks use_int rid ncb num_local num_external m p))"

definition co_allocate_new_computed_blocks ::
    "bool \<Rightarrow> string \<Rightarrow> block_ref list list \<Rightarrow> int \<Rightarrow> int \<Rightarrow> KVCacheCoordinator \<Rightarrow> (unit \<times> KVCacheCoordinator) result" where
  "co_allocate_new_computed_blocks use_int rid ncbs num_local num_external =
     with_managers (co_computed_step use_int rid ncbs num_local num_external) ()"

definition co_allocate_step ::
    "bool \<Rightarrow> string \<Rightarrow> int \<Rightarrow> int \<Rightarrow> int
      \<Rightarrow> int \<Rightarrow> SingleTypeKVCacheManager \<Rightarrow> block_ref list list \<Rightarrow> BlockPool
      \<Rightarrow> (SingleTypeKVCacheManager \<times> block_ref list list \<times> BlockPool) result" where
  "co_allocate_step use_int rid ntok main enc i m acc p =
     map_r (\<lambda>(new, m, p). (m, acc @ [new], p))
       (allocate_new_blocks use_int rid (if stm_class m = CrossAttentionManager then enc else ntok) main m p)"

definition co_allocate_new_blocks ::
    "bool \<Rightarrow> string \<Rightarrow> int \<Rightarrow> int \<Rightarrow> int \<Rightarrow> KVCacheCoordinator \<Rightarrow> (block_ref list list \<times> KVCacheCoordinator) result" where
  "co_allocate_new_blocks use_int rid ntok main enc = with_managers (co_allocate_step use_int rid ntok main enc) []"

definition co_cache_step ::
    "bool \<Rightarrow> (bytes \<Rightarrow> bytes) \<Rightarrow> int
      \<Rightarrow> int \<Rightarrow> SingleTypeKVCacheManager \<Rightarrow> Request \<Rightarrow> BlockPool \<Rightarrow> (SingleTypeKVCacheManager \<times> Request \<times> BlockPool) result" where
  "co_cache_step use_int sha256 n i m r p = map_r (\<lambda>(r, m, p). (m, r, p)) (cache_blocks use_int sha256 r n m p)"

definition co_cache_blocks ::
    "bool \<Rightarrow> (bytes \<Rightarrow> bytes) \<Rightarrow> Request \<Rightarrow> int \<Rightarrow> KVCacheCoordinator \<Rightarrow> (Request \<times> KVCacheCoordinator) result" where
  "co_cache_blocks use_int sha256 r n = with_managers (co_cache_step use_int sha256 n) r"

definition co_free_step ::
    "string \<Rightarrow> int \<Rightarrow> SingleTypeKVCacheManager \<Rightarrow> unit \<Rightarrow> BlockPool \<Rightarrow> (SingleTypeKVCacheManager \<times> unit \<times> BlockPool) result" where
  "co_free_step rid i m x p = map_r (\<lambda>(m, p). (m, (), p)) (stm_free rid m p)"

definition co_free :: "string \<Rightarrow> KVCacheCoordinator \<Rightarrow> (unit \<times> KVCacheCoordinator) result" where
  "co_free rid = with_managers (co_free_step rid) ()"

definition co_remove_step ::
    "string \<Rightarrow> int \<Rightarrow> int \<Rightarrow> SingleTypeKVCacheManager \<Rightarrow> unit \<Rightarrow> BlockPool \<Rightarrow> (SingleTypeKVCacheManager \<times> unit \<times> BlockPool) result" where
  "co_remove_step rid n i m x p = map_r (\<lambda>(m, p). (m, (), p)) (remove_skipped_blocks rid n m p)"

definition co_remove_skipped_blocks :: "string \<Rightarrow> int \<Rightarrow> KVCacheCoordinator \<Rightarrow> (unit \<times> KVCacheCoordinator) result" where
  "co_remove_skipped_blocks rid n = with_managers (co_remove_step rid n) ()"

definition co_get_num_common_prefix_blocks :: "string \<Rightarrow> KVCacheCoordinator \<Rightarrow> (int list \<times> KVCacheCoordinator) result" where
  "co_get_num_common_prefix_blocks rid co =
     (if co_class co = KVCacheCoordinatorNoPrefixCache then Inr (map (\<lambda>_. 0) (single_type_managers co), co)
      else with_managers (\<lambda>i m acc p. case get_num_common_prefix_blocks rid m p of (n, m) \<Rightarrow> Inr (m, acc @ [n], p)) [] co)"

definition co_get_blocks :: "string \<Rightarrow> KVCacheCoordinator \<Rightarrow> block_ref list list" where
  "co_get_blocks rid co = map (\<lambda>m. req_blocks m rid) (single_type_managers co)"

definition co_new_step_starts :: "KVCacheCoordinator \<Rightarrow> KVCacheCoordinator" where
  "co_new_step_starts co = co\<lparr>single_type_managers := map new_step_starts (single_type_managers co)\<rparr>"

section \<open>Prefix-cache lookup\<close>

definition no_prefix_find :: "KVCacheCoordinator \<Rightarrow> (block_ref list list \<times> int) result" where
  "no_prefix_find co = Inr (map (\<lambda>_. []) (single_type_managers co), 0)"

definition unitary_find :: "bytes list \<Rightarrow> int \<Rightarrow> KVCacheCoordinator \<Rightarrow> (block_ref list list \<times> int) result" where
  "unitary_find hs max_len co =
     bind_r (nth_r (single_type_managers co) 0) (\<lambda>m.
     bind_r (nth_r (kv_cache_groups (co_config co)) 0) (\<lambda>g.
     bind_r (find_longest_cache_hit (stm_class m) (Hashes hs) max_len [0] (block_pool co) (kv_cache_spec g)
               (0 \<in> eagle_group_ids co) (co_block_size co) (co_dcp co) (co_pcp co)) (\<lambda>hit.
     bind_r (nth_r hit 0) (\<lambda>c. Inr (hit, int (length c) * co_block_size co)))))"

definition get_block_hashes_for :: "bytes list \<Rightarrow> KVCacheSpec \<Rightarrow> KVCacheCoordinator \<Rightarrow> BlockHashList result" where
  "get_block_hashes_for hs s co =
     (if block_size s = co_hash_block_size co then Inr (Hashes hs)
      else map_r ScaledHashes (bhl_init hs (co_hash_block_size co) (block_size s)))"

type_synonym hybrid_state = "int \<times> int set \<times> block_ref list option list"

text \<open>\<open>for group_id, blocks in zip(group_ids, hit_blocks): hit_blocks_by_group[group_id] = blocks\<close>\<close>

definition set_group_blocks :: "int list \<Rightarrow> block_ref list list \<Rightarrow> block_ref list option list \<Rightarrow> block_ref list option list" where
  "set_group_blocks gids hit by = fold (\<lambda>(g, c) by. by[nat g := Some c]) (zip gids hit) by"

definition hybrid_group_step ::
    "bytes list \<Rightarrow> int \<Rightarrow> KVCacheCoordinator \<Rightarrow> int \<times> attention_group \<Rightarrow> hybrid_state \<Rightarrow> hybrid_state result" where
  "hybrid_group_step hs max_len co ig st =
     (case (ig, st) of ((idx, (spec, gids, cls)), (curr_len, verified, by)) \<Rightarrow>
      bind_r (nth_r gids 0) (\<lambda>g0.
      bind_r (nth_r by g0) (\<lambda>known.
        if is_full spec \<and> known \<noteq> None
        then Inr (curr_len div block_size spec * block_size spec, verified, by)
        else
          let use_eagle = (idx \<in> eagle_attn_group_indices co \<and> idx \<notin> verified);
              len = (if use_eagle then min (curr_len + block_size spec) max_len else curr_len) in
          bind_r (get_block_hashes_for hs spec co) (\<lambda>hashes.
          bind_r (find_longest_cache_hit cls hashes len gids (block_pool co) spec use_eagle (lcm_block_size co) 1 1) (\<lambda>hit.
          bind_r (nth_r hit 0) (\<lambda>c.
            let new_len = int (length c) * block_size spec;
                verified = (if use_eagle then insert idx verified else if new_len < curr_len then {} else verified)
            in Inr (new_len, verified, set_group_blocks gids hit by)))))))"

definition is_simple_hybrid :: "KVCacheCoordinator \<Rightarrow> bool" where
  "is_simple_hybrid co \<longleftrightarrow> length (attention_groups co) = 2 \<and> is_full (fst (hd (attention_groups co)))"

fun hybrid_loop ::
    "nat \<Rightarrow> bytes list \<Rightarrow> int \<Rightarrow> KVCacheCoordinator \<Rightarrow> hybrid_state \<Rightarrow> (int \<times> block_ref list option list) result" where
  "hybrid_loop 0 hs max_len co st = Inl NonTermination"
| "hybrid_loop (Suc fuel) hs max_len co (hit_len, verified, by) =
     bind_r (fold_r (hybrid_group_step hs max_len co) (enumerate_from 0 (attention_groups co)) (hit_len, verified, by))
       (\<lambda>(new_len, verified, by).
         if new_len \<ge> hit_len then Inr (hit_len, by)
         else if is_simple_hybrid co then Inr (new_len, by)
         else hybrid_loop fuel hs max_len co (new_len, verified, by))"

definition truncate_groups :: "int list \<Rightarrow> int \<Rightarrow> block_ref list option list \<Rightarrow> block_ref list option list" where
  "truncate_groups gids n by = fold (\<lambda>g by. by[nat g := map_option (\<lambda>c. slice_to c n) (by ! nat g)]) gids by"

definition hybrid_find :: "bytes list \<Rightarrow> int \<Rightarrow> KVCacheCoordinator \<Rightarrow> (block_ref list list \<times> int) result" where
  "hybrid_find hs max_len co =
     bind_r (hybrid_loop (Suc (nat max_len)) hs max_len co (max_len, {}, map (\<lambda>_. None) (kv_cache_groups (co_config co))))
       (\<lambda>(hit_len, by).
     bind_r (nth_r (attention_groups co) 0) (\<lambda>(spec, gids, _).
       let by = (if is_full spec then truncate_groups gids (hit_len div block_size spec) by else by)
       in Inr (map (\<lambda>b. case b of None \<Rightarrow> [] | Some c \<Rightarrow> c) by, hit_len)))"

definition co_find_longest_cache_hit :: "bytes list \<Rightarrow> int \<Rightarrow> KVCacheCoordinator \<Rightarrow> (block_ref list list \<times> int) result" where
  "co_find_longest_cache_hit hs max_len co =
     (case co_class co of
        KVCacheCoordinatorNoPrefixCache \<Rightarrow> no_prefix_find co
      | UnitaryKVCacheCoordinator \<Rightarrow> unitary_find hs max_len co
      | HybridKVCacheCoordinator \<Rightarrow> hybrid_find hs max_len co)"

end
