(* ===== verification/KV_Cache_Manager.thy ===== *)
theory KV_Cache_Manager
  imports Coordinator
begin

text \<open>
  \<open>vllm/v1/core/kv_cache_manager.py\<close>: the interface between the scheduler and the block tables.  The
  scheduler sees \<open>KVCacheBlocks\<close>; the one shared empty instance of a manager is told apart from others by
  identity, which \<open>allocate_slots\<close> tests, so it is a constructor of its own.
\<close>

section \<open>Blocks as the scheduler sees them\<close>

datatype kv_cache_blocks = EmptyKVCacheBlocks | KVCacheBlocks (kvb_blocks: "block_ref list list")

definition blocks_of :: "nat \<Rightarrow> kv_cache_blocks \<Rightarrow> block_ref list list" where
  "blocks_of n b = (case b of EmptyKVCacheBlocks \<Rightarrow> replicate n [] | KVCacheBlocks bs \<Rightarrow> bs)"

definition kvb_add :: "nat \<Rightarrow> kv_cache_blocks \<Rightarrow> kv_cache_blocks \<Rightarrow> kv_cache_blocks" where
  "kvb_add n a b = KVCacheBlocks (map2 (@) (blocks_of n a) (blocks_of n b))"

definition kvb_get_block_ids :: "nat \<Rightarrow> bool \<Rightarrow> BlockPool \<Rightarrow> kv_cache_blocks \<Rightarrow> int list list option" where
  "kvb_get_block_ids n allow_none p b =
     (if allow_none \<and> (\<forall>g\<in>set (blocks_of n b). g = []) then None
      else Some (map (map (\<lambda>c. block_id (pool_store p c))) (blocks_of n b)))"

definition get_unhashed_block_ids :: "nat \<Rightarrow> BlockPool \<Rightarrow> kv_cache_blocks \<Rightarrow> int list result" where
  "get_unhashed_block_ids n p b =
     bind_r (assert_r (length (blocks_of n b) = 1)) (\<lambda>_.
     bind_r (nth_r (blocks_of n b) 0) (\<lambda>g.
       Inr (map (\<lambda>c. block_id (pool_store p c)) (filter (\<lambda>c. hash_of p c = None) g))))"

definition get_unhashed_block_ids_all_groups :: "nat \<Rightarrow> BlockPool \<Rightarrow> kv_cache_blocks \<Rightarrow> int list list" where
  "get_unhashed_block_ids_all_groups n p b =
     map (\<lambda>g. map (\<lambda>c. block_id (pool_store p c)) (filter (\<lambda>c. hash_of p c = None \<and> \<not> is_null (pool_store p c)) g))
       (blocks_of n b)"

definition new_empty :: "nat \<Rightarrow> kv_cache_blocks \<Rightarrow> kv_cache_blocks" where
  "new_empty n b = KVCacheBlocks (map (\<lambda>_. []) (blocks_of n b))"

section \<open>The manager\<close>

text \<open>\<open>PrefixCacheStats\<close> of \<open>vllm/v1/metrics/stats.py\<close>.\<close>

record PrefixCacheStats =
  stats_reset :: bool
  stats_requests :: int
  stats_queries :: int
  stats_hits :: int
  preempted_requests :: int
  preempted_queries :: int
  preempted_hits :: int

definition prefix_cache_stats_init :: PrefixCacheStats where
  "prefix_cache_stats_init =
     \<lparr>stats_reset = False, stats_requests = 0, stats_queries = 0, stats_hits = 0,
      preempted_requests = 0, preempted_queries = 0, preempted_hits = 0\<rparr>"

definition stats_record :: "int \<Rightarrow> int \<Rightarrow> bool \<Rightarrow> PrefixCacheStats \<Rightarrow> PrefixCacheStats" where
  "stats_record n hits preempted s =
     (if preempted
      then s\<lparr>preempted_requests := preempted_requests s + 1, preempted_queries := preempted_queries s + n,
             preempted_hits := preempted_hits s + hits\<rparr>
      else s\<lparr>stats_requests := stats_requests s + 1, stats_queries := stats_queries s + n, stats_hits := stats_hits s + hits\<rparr>)"

record KVCacheManager =
  kvm_max_model_len :: int
  kvm_enable_caching :: bool
  kvm_log_stats :: bool
  prefix_cache_stats :: "PrefixCacheStats option"
  coordinator :: KVCacheCoordinator
  num_kv_cache_groups :: nat

definition kv_cache_manager_init ::
    "KVCacheConfig \<Rightarrow> int \<Rightarrow> int \<Rightarrow> int option \<Rightarrow> bool \<Rightarrow> bool \<Rightarrow> bool \<Rightarrow> bool \<Rightarrow> int \<Rightarrow> int \<Rightarrow> bool \<Rightarrow> KVCacheManager result" where
  "kv_cache_manager_init cfg mml hbs batched caching use_eagle log_stats events dcp pcp metrics =
     map_r (\<lambda>co. \<lparr>kvm_max_model_len = mml, kvm_enable_caching = caching, kvm_log_stats = log_stats,
          prefix_cache_stats = (if log_stats then Some prefix_cache_stats_init else None), coordinator = co,
          num_kv_cache_groups = length (kv_cache_groups cfg)\<rparr>)
       (get_kv_cache_coordinator cfg mml (case batched of None \<Rightarrow> mml | Some b \<Rightarrow> b) use_eagle caching events dcp pcp hbs metrics)"

abbreviation kvm_pool :: "KVCacheManager \<Rightarrow> BlockPool" where
  "kvm_pool k \<equiv> block_pool (coordinator k)"

definition kvm_usage :: "KVCacheManager \<Rightarrow> rat" where
  "kvm_usage k = get_usage (kvm_pool k)"

definition make_prefix_cache_stats :: "KVCacheManager \<Rightarrow> PrefixCacheStats option \<times> KVCacheManager" where
  "make_prefix_cache_stats k =
     (if \<not> kvm_log_stats k then (None, k)
      else (prefix_cache_stats k, k\<lparr>prefix_cache_stats := Some prefix_cache_stats_init\<rparr>))"

definition create_kv_cache_blocks :: "block_ref list list \<Rightarrow> kv_cache_blocks" where
  "create_kv_cache_blocks bs = (if \<exists>b\<in>set bs. b \<noteq> [] then KVCacheBlocks bs else EmptyKVCacheBlocks)"

definition get_computed_blocks :: "Request \<Rightarrow> KVCacheManager \<Rightarrow> ((kv_cache_blocks \<times> int) \<times> KVCacheManager) result" where
  "get_computed_blocks r k =
     (if \<not> kvm_enable_caching k \<or> skip_reading_prefix_cache r then Inr ((EmptyKVCacheBlocks, 0), k)
      else
        bind_r (co_find_longest_cache_hit (block_hashes r) (num_tokens r - 1) (coordinator k)) (\<lambda>(computed, n).
        bind_r (if kvm_log_stats k
                then (case prefix_cache_stats k of
                    None \<Rightarrow> Inl AssertionError
                  | Some s \<Rightarrow> Inr (k\<lparr>prefix_cache_stats := Some (stats_record (num_tokens r) n (num_preemptions r > 0) s)\<rparr>))
                else Inr k) (\<lambda>k.
          Inr ((create_kv_cache_blocks computed, n), k))))"

definition computed_block_list :: "kv_cache_blocks option \<Rightarrow> KVCacheManager \<Rightarrow> block_ref list list" where
  "computed_block_list ncb k = blocks_of (num_kv_cache_groups k) (case ncb of None \<Rightarrow> EmptyKVCacheBlocks | Some b \<Rightarrow> b)"

definition can_fit_full_sequence ::
    "Request \<Rightarrow> int \<Rightarrow> kv_cache_blocks option \<Rightarrow> int \<Rightarrow> int \<Rightarrow> KVCacheManager \<Rightarrow> (bool \<times> KVCacheManager) result" where
  "can_fit_full_sequence r num_new_computed ncb num_external enc k =
     (let num_local = num_computed_tokens r + num_new_computed;
          computed = min (num_local + num_external) (kvm_max_model_len k);
          full = min (num_tokens r) (kvm_max_model_len k) in
      bind_r (co_get_num_blocks_to_allocate (request_id r) full (computed_block_list ncb k) enc computed full True (coordinator k))
        (\<lambda>(n, co). Inr (n \<le> get_num_free_blocks (block_pool co), k\<lparr>coordinator := co\<rparr>)))"

definition allocate_slots ::
    "bool \<Rightarrow> (bytes \<Rightarrow> bytes) \<Rightarrow> Request \<Rightarrow> int \<Rightarrow> int \<Rightarrow> kv_cache_blocks option \<Rightarrow> int \<Rightarrow> int \<Rightarrow> bool \<Rightarrow> int \<Rightarrow> KVCacheManager
      \<Rightarrow> (kv_cache_blocks option \<times> Request \<times> KVCacheManager) result" where
  "allocate_slots use_int sha256 r num_new num_new_computed ncb lookahead num_external delay_cache enc k =
     bind_r (guard_r (\<not> (num_new = 0 \<and> num_external = 0)) ValueError) (\<lambda>_.
     let blocks = computed_block_list ncb k; rid = request_id r;
         num_local = num_computed_tokens r + num_new_computed;
         computed = min (num_local + num_external) (kvm_max_model_len k);
         main = computed + num_new;
         need_slot = min (main + lookahead) (kvm_max_model_len k) in
     bind_r (co_remove_skipped_blocks rid computed (coordinator k)) (\<lambda>(_, co).
     bind_r (co_get_num_blocks_to_allocate rid need_slot blocks enc (num_local + num_external) main False co) (\<lambda>(n, co).
       if n > get_num_free_blocks (block_pool co) then Inr (None, r, k\<lparr>coordinator := co\<rparr>)
       else
         bind_r (if ncb \<noteq> None \<and> ncb \<noteq> Some EmptyKVCacheBlocks \<or> num_external > 0
                 then co_allocate_new_computed_blocks use_int rid blocks num_local num_external co
                 else Inr ((), co)) (\<lambda>(_, co).
         bind_r (co_allocate_new_blocks use_int rid need_slot main enc co) (\<lambda>(new, co).
           if \<not> kvm_enable_caching k \<or> delay_cache then Inr (Some (create_kv_cache_blocks new), r, k\<lparr>coordinator := co\<rparr>)
           else bind_r (co_cache_blocks use_int sha256 r (min (computed + num_new) (num_tokens r)) co) (\<lambda>(r, co).
             Inr (Some (create_kv_cache_blocks new), r, k\<lparr>coordinator := co\<rparr>)))))))"

definition kvm_free :: "Request \<Rightarrow> KVCacheManager \<Rightarrow> KVCacheManager result" where
  "kvm_free r k = map_r (\<lambda>(_, co). k\<lparr>coordinator := co\<rparr>) (co_free (request_id r) (coordinator k))"

definition kvm_remove_skipped_blocks :: "string \<Rightarrow> int \<Rightarrow> KVCacheManager \<Rightarrow> KVCacheManager result" where
  "kvm_remove_skipped_blocks rid n k = map_r (\<lambda>(_, co). k\<lparr>coordinator := co\<rparr>) (co_remove_skipped_blocks rid n (coordinator k))"

definition set_kvm_pool :: "BlockPool \<Rightarrow> KVCacheManager \<Rightarrow> KVCacheManager" where
  "set_kvm_pool p k = k\<lparr>coordinator := (coordinator k)\<lparr>block_pool := p\<rparr>\<rparr>"

definition kvm_evict_blocks :: "bool \<Rightarrow> int list \<Rightarrow> KVCacheManager \<Rightarrow> KVCacheManager result" where
  "kvm_evict_blocks use_int ids k = map_r (\<lambda>p. set_kvm_pool p k) (evict_blocks use_int ids (kvm_pool k))"

definition kvm_reset_prefix_cache :: "KVCacheManager \<Rightarrow> (bool \<times> KVCacheManager) result" where
  "kvm_reset_prefix_cache k =
     (case reset_prefix_cache_pool (kvm_pool k) of (ok, p) \<Rightarrow>
      let k = set_kvm_pool p k in
      if \<not> ok then Inr (False, k)
      else if kvm_log_stats k
      then (case prefix_cache_stats k of
          None \<Rightarrow> Inl AssertionError
        | Some s \<Rightarrow> Inr (True, k\<lparr>prefix_cache_stats := Some (s\<lparr>stats_reset := True\<rparr>)\<rparr>))
      else Inr (True, k))"

definition kvm_get_num_common_prefix_blocks :: "string \<Rightarrow> KVCacheManager \<Rightarrow> (int list \<times> KVCacheManager) result" where
  "kvm_get_num_common_prefix_blocks rid k =
     map_r (\<lambda>(ns, co). (ns, k\<lparr>coordinator := co\<rparr>)) (co_get_num_common_prefix_blocks rid (coordinator k))"

definition kvm_take_events :: "KVCacheManager \<Rightarrow> KVCacheEvent list \<times> KVCacheManager" where
  "kvm_take_events k = (case take_events (kvm_pool k) of (evs, p) \<Rightarrow> (evs, set_kvm_pool p k))"

definition get_blocks :: "string \<Rightarrow> KVCacheManager \<Rightarrow> kv_cache_blocks" where
  "get_blocks rid k = create_kv_cache_blocks (co_get_blocks rid (coordinator k))"

definition get_block_ids :: "string \<Rightarrow> KVCacheManager \<Rightarrow> int list list option" where
  "get_block_ids rid k = kvb_get_block_ids (num_kv_cache_groups k) False (kvm_pool k) (get_blocks rid k)"

definition kvm_cache_blocks :: "bool \<Rightarrow> (bytes \<Rightarrow> bytes) \<Rightarrow> Request \<Rightarrow> int \<Rightarrow> KVCacheManager \<Rightarrow> (Request \<times> KVCacheManager) result" where
  "kvm_cache_blocks use_int sha256 r n k =
     (if kvm_enable_caching k
      then map_r (\<lambda>(r, co). (r, k\<lparr>coordinator := co\<rparr>)) (co_cache_blocks use_int sha256 r n (coordinator k))
      else Inr (r, k))"

definition kvm_take_new_block_ids :: "KVCacheManager \<Rightarrow> int list \<times> KVCacheManager" where
  "kvm_take_new_block_ids k =
     (let ms = single_type_managers (coordinator k)
      in (concat (map (\<lambda>m. fst (take_new_block_ids m)) ms),
          k\<lparr>coordinator := (coordinator k)\<lparr>single_type_managers := map (\<lambda>m. snd (take_new_block_ids m)) ms\<rparr>\<rparr>))"

definition kvm_new_step_starts :: "KVCacheManager \<Rightarrow> KVCacheManager" where
  "kvm_new_step_starts k = k\<lparr>coordinator := co_new_step_starts (coordinator k)\<rparr>"

end
