(* ===== verification/Slot_Allocation.thy ===== *)
theory Slot_Allocation
  imports KV_Cache_Manager
begin

text \<open>
  The operations of the KV cache manager over all groups at once.  A step on one manager that meets its
  contract (locale \<open>manager_step\<close>) can be run over every manager in turn; the operations of the
  coordinator are such runs.  From this: allocating slots never fails half-way, and the reference counts
  of the pool are the occurrences in the block tables.
\<close>

section \<open>A contract for one manager, run over all\<close>

definition all_tabs :: "SingleTypeKVCacheManager list \<Rightarrow> block_ref multiset" where
  "all_tabs ms = sum_list (map tabs ms)"

lemma all_tabs_simps [simp]: "all_tabs [] = {#}" "all_tabs (m # ms) = tabs m + all_tabs ms"
  by (simp_all add: all_tabs_def)

definition managers_ok :: "SingleTypeKVCacheManager list \<Rightarrow> BlockPool \<Rightarrow> bool" where
  "managers_ok ms p \<longleftrightarrow> (\<forall>m\<in>set ms. mgr_inv p m) \<and> ledger p (all_tabs ms)"

lemma all_mgr_inv_keeps:
  "\<forall>m\<in>set ms. mgr_inv p m \<Longrightarrow> keeps p p' (all_tabs ms) \<Longrightarrow> \<forall>m\<in>set ms. mgr_inv p' m"
proof (induction ms)
  case (Cons m ms)
  have "keeps p p' (tabs m)" "keeps p p' (all_tabs ms)" using Cons.prems(2) by (auto intro: keeps_mono)
  with Cons show ?case using mgr_inv_keeps by auto
qed simp

text \<open>
  \<open>pre\<close> is what the step needs, \<open>cost\<close> the free blocks it may use up, \<open>post\<close> what it guarantees of the
  manager; \<open>evo\<close> relates the states before and after steps on other managers, which may not spoil \<open>pre\<close>
  nor raise \<open>cost\<close>.
\<close>

locale manager_step =
  fixes f :: "int \<Rightarrow> SingleTypeKVCacheManager \<Rightarrow> 'x \<Rightarrow> BlockPool \<Rightarrow> (SingleTypeKVCacheManager \<times> 'x \<times> BlockPool) result"
    and pre :: "int \<Rightarrow> SingleTypeKVCacheManager \<Rightarrow> 'x \<Rightarrow> BlockPool \<Rightarrow> bool"
    and cost :: "int \<Rightarrow> SingleTypeKVCacheManager \<Rightarrow> BlockPool \<Rightarrow> int"
    and post :: "int \<Rightarrow> SingleTypeKVCacheManager \<Rightarrow> SingleTypeKVCacheManager \<Rightarrow> bool"
    and evo :: "'x \<Rightarrow> BlockPool \<Rightarrow> 'x \<Rightarrow> BlockPool \<Rightarrow> bool"
  assumes step_law: "mgr_inv p m \<Longrightarrow> ledger p (tabs m + R) \<Longrightarrow> pre i m x p \<Longrightarrow> cost i m p \<le> get_num_free_blocks p \<Longrightarrow>
      \<exists>m' x' p'. f i m x p = Inr (m', x', p') \<and> mgr_inv p' m' \<and> ledger p' (tabs m' + R) \<and> keeps p p' R
        \<and> mgr_static m m' \<and> post i m m' \<and> get_num_free_blocks p \<le> get_num_free_blocks p' + cost i m p \<and> evo x p x' p'"
    and evo_refl: "evo x p x p"
    and evo_trans: "evo x p x' p' \<Longrightarrow> evo x' p' x'' p'' \<Longrightarrow> evo x p x'' p''"
    and evo_pre: "evo x p x' p' \<Longrightarrow> pool_static p p' \<Longrightarrow> pre i m x p \<Longrightarrow> pre i m x' p'"
    and evo_cost: "evo x p x' p' \<Longrightarrow> pool_static p p' \<Longrightarrow> cost i m p' \<le> cost i m p"
    and cost_nonneg: "0 \<le> cost i m p"
begin

lemma run:
  assumes "\<forall>m\<in>set ms. mgr_inv p m" and "ledger p (all_tabs ms + R)" and "\<forall>(j, m)\<in>set (enumerate_from i ms). pre j m x p"
    and "sum_list (map (\<lambda>(j, m). cost j m p) (enumerate_from i ms)) \<le> get_num_free_blocks p"
  shows "\<exists>ms' x' p'. over_managers f i ms x p = Inr (ms', x', p') \<and> (\<forall>m\<in>set ms'. mgr_inv p' m) \<and> ledger p' (all_tabs ms' + R)
    \<and> keeps p p' R \<and> list_all2 (\<lambda>(j, m) m'. mgr_static m m' \<and> post j m m') (enumerate_from i ms) ms'
    \<and> get_num_free_blocks p \<le> get_num_free_blocks p' + sum_list (map (\<lambda>(j, m). cost j m p) (enumerate_from i ms))
    \<and> evo x p x' p'"
  using assms
proof (induction ms arbitrary: i x p R)
  case Nil
  then show ?case by (intro exI[of _ "[]"] exI[of _ x] exI[of _ p]) (simp add: evo_refl)
next
  case (Cons m ms)
  let ?sum = "\<lambda>p. sum_list (map (\<lambda>(j, m). cost j m p) (enumerate_from (i + 1) ms))"
  have nn: "0 \<le> ?sum p" by (rule sum_list_nonneg) (auto simp: cost_nonneg)
  have "ledger p (tabs m + (all_tabs ms + R))" using Cons.prems(2) by (simp add: union_assoc)
  from step_law[OF _ this, of i x] Cons.prems nn obtain m' x1 p1 where
    s: "f i m x p = Inr (m', x1, p1)" "mgr_inv p1 m'" "ledger p1 (tabs m' + (all_tabs ms + R))" "keeps p p1 (all_tabs ms + R)"
      "mgr_static m m'" "post i m m'" "get_num_free_blocks p \<le> get_num_free_blocks p1 + cost i m p" "evo x p x1 p1"
    by auto
  note st = keepsD[OF s(4)]
  have mi: "\<forall>m\<in>set ms. mgr_inv p1 m"
    using all_mgr_inv_keeps[of ms p p1] Cons.prems(1) keeps_mono[OF s(4), of "all_tabs ms"] by auto
  have "ledger p1 (all_tabs ms + (tabs m' + R))" using s(3) by (simp add: ac_simps)
  moreover have "\<forall>(j, m)\<in>set (enumerate_from (i + 1) ms). pre j m x1 p1" using Cons.prems(3) evo_pre[OF s(8) st] by auto
  moreover have le: "?sum p1 \<le> ?sum p" using evo_cost[OF s(8) st] by (intro sum_list_mono) auto
  then have "?sum p1 \<le> get_num_free_blocks p1" using Cons.prems(4) s(7) by simp
  ultimately obtain ms' x' p' where
    r: "over_managers f (i + 1) ms x1 p1 = Inr (ms', x', p')" "\<forall>m\<in>set ms'. mgr_inv p' m" "ledger p' (all_tabs ms' + (tabs m' + R))"
      "keeps p1 p' (tabs m' + R)" "list_all2 (\<lambda>(j, m) m'. mgr_static m m' \<and> post j m m') (enumerate_from (i + 1) ms) ms'"
      "get_num_free_blocks p1 \<le> get_num_free_blocks p' + ?sum p1" "evo x1 p1 x' p'"
    using Cons.IH[OF mi, of "tabs m' + R" "i + 1" x1] by blast
  have "mgr_inv p' m'" using mgr_inv_keeps[OF s(2) keeps_mono[OF r(4)]] by simp
  moreover have "keeps p p' R" using keeps_trans[OF keeps_mono[OF s(4)] keeps_mono[OF r(4)], of R] by simp
  moreover have "evo x p x' p'" using evo_trans[OF s(8) r(7)] .
  moreover have "ledger p' (all_tabs (m' # ms') + R)" using r(3) by (simp add: ac_simps)
  ultimately show ?case using s(1,5,6,7) r(1,2,5,6) le
    by (intro exI[of _ "m' # ms'"] exI[of _ x'] exI[of _ p']) auto
qed

end

section \<open>The steps of the coordinator\<close>

lemma attention_class: "mgr_inv p m \<Longrightarrow> stm_class m \<noteq> MambaManager"
  by (simp add: mgr_inv_def mgr_wf_def)

definition hash_evo :: "'x \<Rightarrow> BlockPool \<Rightarrow> 'x \<Rightarrow> BlockPool \<Rightarrow> bool" where
  "hash_evo x p x' p' \<longleftrightarrow> pool_static p p' \<and> (\<forall>b. hash_of p' b = hash_of p b)"

definition grow_evo :: "'x \<Rightarrow> BlockPool \<Rightarrow> 'x \<Rightarrow> BlockPool \<Rightarrow> bool" where
  "grow_evo x p x' p' \<longleftrightarrow> pool_static p p' \<and> (\<forall>b. hash_of p' b = hash_of p b)
     \<and> (\<forall>b. usable p b \<longrightarrow> refs p' b = 0 \<longrightarrow> refs p b = 0)"

definition request_evo :: "Request \<Rightarrow> BlockPool \<Rightarrow> Request \<Rightarrow> BlockPool \<Rightarrow> bool" where
  "request_evo r p r' p' \<longleftrightarrow> pool_static p p' \<and> (\<exists>c. r' = r\<lparr>embeds_hashes := c\<rparr>)"

lemma hash_evo_laws: "hash_evo x p x p" "hash_evo x p x' p' \<Longrightarrow> hash_evo x' p' x'' p'' \<Longrightarrow> hash_evo x p x'' p''"
  by (auto simp: hash_evo_def intro: pool_static_trans)

lemma grow_evo_laws: "grow_evo x p x p" "grow_evo x p x' p' \<Longrightarrow> grow_evo x' p' x'' p'' \<Longrightarrow> grow_evo x p x'' p''"
  by (auto simp: grow_evo_def pool_static_usable intro: pool_static_trans)

lemma request_evo_laws: "request_evo x p x p" "request_evo x p x' p' \<Longrightarrow> request_evo x' p' x'' p'' \<Longrightarrow> request_evo x p x'' p''"
proof -
  show "request_evo x p x p" by (auto simp: request_evo_def intro: exI[of _ "embeds_hashes x"])
  show "request_evo x p x' p' \<Longrightarrow> request_evo x' p' x'' p'' \<Longrightarrow> request_evo x p x'' p''"
    by (auto simp: request_evo_def intro: pool_static_trans)
qed

text \<open>Recycling.\<close>

definition remove_post :: "string \<Rightarrow> SingleTypeKVCacheManager \<Rightarrow> SingleTypeKVCacheManager \<Rightarrow> bool" where
  "remove_post rid m m' \<longleftrightarrow> num_cached_block m' = num_cached_block m
     \<and> (\<forall>r. length (req_blocks m' r) = length (req_blocks m r) \<and> (r \<noteq> rid \<longrightarrow> req_blocks m' r = req_blocks m r))"

interpretation rem: manager_step "co_remove_step rid n" "\<lambda>_ _ _ _. True" "\<lambda>_ _ _. 0" "\<lambda>_. remove_post rid" hash_evo
  for rid n
proof
  fix p m R i and x :: unit
  assume A: "mgr_inv p m" "ledger p (tabs m + R)"
  from base_remove_step[OF A, of rid n] attention_class[OF A(1)]
  show "\<exists>m' x' p'. co_remove_step rid n i m x p = Inr (m', x', p') \<and> mgr_inv p' m' \<and> ledger p' (tabs m' + R) \<and> keeps p p' R
      \<and> mgr_static m m' \<and> remove_post rid m m' \<and> get_num_free_blocks p \<le> get_num_free_blocks p' + 0 \<and> hash_evo x p x' p'"
    by (fastforce simp: co_remove_step_def remove_skipped_blocks_def remove_post_def hash_evo_def dest: keepsD)
qed (auto intro: hash_evo_laws)

text \<open>Freeing.\<close>

definition free_post :: "string \<Rightarrow> SingleTypeKVCacheManager \<Rightarrow> SingleTypeKVCacheManager \<Rightarrow> bool" where
  "free_post rid m m' \<longleftrightarrow> req_blocks m' rid = [] \<and> num_cached_block m' rid = None \<and> rid \<notin> fst ` set (req_to_blocks m')
     \<and> (\<forall>r. r \<noteq> rid \<longrightarrow> req_blocks m' r = req_blocks m r)"

interpretation fre: manager_step "co_free_step rid" "\<lambda>_ _ _ _. True" "\<lambda>_ _ _. 0" "\<lambda>_. free_post rid" hash_evo
  for rid
proof
  fix p m R i and x :: unit
  assume A: "mgr_inv p m" "ledger p (tabs m + R)"
  from base_free_step[OF A, of rid] attention_class[OF A(1)]
  show "\<exists>m' x' p'. co_free_step rid i m x p = Inr (m', x', p') \<and> mgr_inv p' m' \<and> ledger p' (tabs m' + R) \<and> keeps p p' R
      \<and> mgr_static m m' \<and> free_post rid m m' \<and> get_num_free_blocks p \<le> get_num_free_blocks p' + 0 \<and> hash_evo x p x' p'"
    by (fastforce simp: co_free_step_def stm_free_def free_post_def hash_evo_def dest: keepsD)
qed (auto intro: hash_evo_laws)

text \<open>Growing to a number of tokens.\<close>

definition slots_for :: "int \<Rightarrow> int \<Rightarrow> SingleTypeKVCacheManager \<Rightarrow> int" where
  "slots_for ntok enc m = cdiv (if stm_class m = CrossAttentionManager then enc else ntok) (stm_block_size m)"

definition grow_cost :: "string \<Rightarrow> int \<Rightarrow> int \<Rightarrow> SingleTypeKVCacheManager \<Rightarrow> int" where
  "grow_cost rid ntok enc m = max 0 (slots_for ntok enc m - int (length (req_blocks m rid)))"

definition grow_post :: "string \<Rightarrow> int \<Rightarrow> int \<Rightarrow> SingleTypeKVCacheManager \<Rightarrow> SingleTypeKVCacheManager \<Rightarrow> bool" where
  "grow_post rid ntok enc m m' \<longleftrightarrow> num_cached_block m' = num_cached_block m
     \<and> int (length (req_blocks m' rid)) = max (int (length (req_blocks m rid))) (slots_for ntok enc m)
     \<and> (\<forall>r. r \<noteq> rid \<longrightarrow> req_blocks m' r = req_blocks m r)"

interpretation grow: manager_step "co_allocate_step u rid ntok main enc" "\<lambda>_ _ _ _. True" "\<lambda>_ m _. grow_cost rid ntok enc m"
    "\<lambda>_. grow_post rid ntok enc" "\<lambda>_ p _. pool_static p"
  for u rid ntok main enc
proof
  fix p m R i and x :: "block_ref list list"
  assume A: "mgr_inv p m" "ledger p (tabs m + R)" and c: "grow_cost rid ntok enc m \<le> get_num_free_blocks p"
  let ?n = "if stm_class m = CrossAttentionManager then enc else ntok"
  have "max 0 (cdiv ?n (stm_block_size m) - int (length (req_blocks m rid))) \<le> get_num_free_blocks p"
    using c by (simp add: grow_cost_def slots_for_def)
  from base_allocate_step[OF A this, of u] obtain new m' p' where
    "base_allocate_new_blocks u rid ?n m p = Inr (new, m', p')" "mgr_inv p' m'" "ledger p' (tabs m' + R)" "keeps p p' R"
    "mgr_static m m'" "num_cached_block m' = num_cached_block m"
    "get_num_free_blocks p' = get_num_free_blocks p - max 0 (cdiv ?n (stm_block_size m) - int (length (req_blocks m rid)))"
    "\<forall>r. req_blocks m' r = (if r = rid then req_blocks m rid @ new else req_blocks m r)"
    "int (length (req_blocks m' rid)) = max (int (length (req_blocks m rid))) (cdiv ?n (stm_block_size m))" by blast
  then show "\<exists>m' x' p'. co_allocate_step u rid ntok main enc i m x p = Inr (m', x', p') \<and> mgr_inv p' m' \<and> ledger p' (tabs m' + R)
      \<and> keeps p p' R \<and> mgr_static m m' \<and> grow_post rid ntok enc m m'
      \<and> get_num_free_blocks p \<le> get_num_free_blocks p' + grow_cost rid ntok enc m \<and> pool_static p p'"
    using attention_class[OF A(1)]
    by (intro exI[of _ m'] exI[of _ "x @ [new]"] exI[of _ p'])
      (auto simp: co_allocate_step_def allocate_new_blocks_def grow_post_def grow_cost_def slots_for_def dest: keepsD)
qed (auto intro: pool_static_trans simp: grow_cost_def)

text \<open>Taking over the blocks a lookup found.\<close>

definition hits_at :: "block_ref list list \<Rightarrow> int \<Rightarrow> block_ref list" where
  "hits_at ncbs i = (case nth_r ncbs i of Inl _ \<Rightarrow> [] | Inr b \<Rightarrow> b)"

definition take_pre :: "string \<Rightarrow> block_ref list list \<Rightarrow> int \<Rightarrow> SingleTypeKVCacheManager \<Rightarrow> unit \<Rightarrow> BlockPool \<Rightarrow> bool" where
  "take_pre rid ncbs i m x p \<longleftrightarrow> nth_r ncbs i = Inr (hits_at ncbs i)
     \<and> (if stm_class m = CrossAttentionManager then hits_at ncbs i = []
        else hit_blocks p (hits_at ncbs i)
          \<and> (if num_cached_block m rid \<noteq> None then hits_at ncbs i = [] else req_blocks m rid = []))"

definition take_cost :: "string \<Rightarrow> block_ref list list \<Rightarrow> int \<Rightarrow> int \<Rightarrow> SingleTypeKVCacheManager \<Rightarrow> BlockPool \<Rightarrow> int" where
  "take_cost rid ncbs n i m p =
     (if stm_class m = CrossAttentionManager then 0 else computed_cost rid (hits_at ncbs i) n m p)"

definition take_post :: "string \<Rightarrow> block_ref list list \<Rightarrow> int \<Rightarrow> int \<Rightarrow> SingleTypeKVCacheManager \<Rightarrow> SingleTypeKVCacheManager \<Rightarrow> bool" where
  "take_post rid ncbs n i m m' \<longleftrightarrow> (\<forall>r. r \<noteq> rid \<longrightarrow> req_blocks m' r = req_blocks m r)
     \<and> (if stm_class m = CrossAttentionManager \<or> num_cached_block m rid \<noteq> None then m' = m
        else num_cached_block m' rid \<noteq> None \<and> (\<forall>k. get_num_skipped_tokens m n = Inr k \<longrightarrow>
          int (length (req_blocks m' rid)) = max (k div stm_block_size m) (int (length (hits_at ncbs i)))))"

lemma hit_blocks_evo: "grow_evo x p x' p' \<Longrightarrow> hit_blocks p bs \<Longrightarrow> hit_blocks p' bs"
  by (auto simp: grow_evo_def hit_blocks_def holds_static pool_static_usable pool_staticD)

lemma computed_cost_evo: "grow_evo x p x' p' \<Longrightarrow> computed_cost rid ncb n m p' \<le> computed_cost rid ncb n m p"
proof -
  assume e: "grow_evo x p x' p'"
  have "length (filter (\<lambda>b. refs p' b = 0 \<and> usable p' b) bs) \<le> length (filter (\<lambda>b. refs p b = 0 \<and> usable p b) bs)" for bs
    using e by (induction bs) (auto simp: grow_evo_def pool_static_usable)
  then show ?thesis by (auto simp: computed_cost_def split: sum.splits)
qed

lemma refs_zero_back:
  "pool_ok p \<Longrightarrow> \<forall>b. refs p b \<le> refs p' b \<Longrightarrow> usable p b \<Longrightarrow> refs p' b = 0 \<Longrightarrow> refs p b = 0"
  by (metis pool_coreD(5) pool_ok_def antisym)

interpretation tak: manager_step "co_computed_step u rid ncbs (int n) 0" "take_pre rid ncbs" "take_cost rid ncbs (int n)"
    "take_post rid ncbs (int n)" grow_evo
  for u rid ncbs n
proof
  fix p m R i and x :: unit
  assume A: "mgr_inv p m" "ledger p (tabs m + R)" and pre: "take_pre rid ncbs i m x p"
  let ?ncb = "hits_at ncbs i"
  have nth: "nth_r ncbs i = Inr ?ncb" using pre by (simp add: take_pre_def)
  show "\<exists>m' x' p'. co_computed_step u rid ncbs (int n) 0 i m x p = Inr (m', x', p') \<and> mgr_inv p' m' \<and> ledger p' (tabs m' + R)
      \<and> keeps p p' R \<and> mgr_static m m' \<and> take_post rid ncbs (int n) i m m'
      \<and> get_num_free_blocks p \<le> get_num_free_blocks p' + take_cost rid ncbs (int n) i m p \<and> grow_evo x p x' p'"
  proof (cases "stm_class m = CrossAttentionManager")
    case True
    then show ?thesis using A pre nth
      by (intro exI[of _ m] exI[of _ x] exI[of _ p])
        (auto simp: co_computed_step_def allocate_new_computed_blocks_def cross_allocate_new_computed_blocks_def take_pre_def
          take_post_def take_cost_def grow_evo_laws)
  next
    case False
    obtain k where k: "get_num_skipped_tokens m (int n) = Inr k" "0 \<le> k" using skipped_total[OF mgr_invD(1)[OF A(1)], of "int n"] by auto
    have s: "0 \<le> k div stm_block_size m" using k(2) mgr_invD(6)[OF A(1)] by (simp add: pos_imp_zdiv_nonneg_iff)
    have pr: "num_cached_block m rid \<noteq> None \<Longrightarrow> ?ncb = []" "num_cached_block m rid = None \<Longrightarrow> req_blocks m rid = []" "hit_blocks p ?ncb"
      using pre False by (auto simp: take_pre_def)
    obtain m' p' where B: "base_allocate_new_computed_blocks u rid ?ncb (int n) 0 m p = Inr (m', p')" "mgr_inv p' m'"
      "ledger p' (tabs m' + R)" "keeps p p' R" "mgr_static m m'"
      "get_num_free_blocks p \<le> get_num_free_blocks p' + computed_cost rid ?ncb (int n) m p"
      "\<forall>b. hash_of p' b = hash_of p b" "\<forall>b. refs p b \<le> refs p' b" "\<forall>r. r \<noteq> rid \<longrightarrow> req_blocks m' r = req_blocks m r"
      "num_cached_block m' rid \<noteq> None"
      "num_cached_block m rid = None \<longrightarrow> req_blocks m' rid
         = replicate (nat (k div stm_block_size m)) (null_block p) @ drop (nat (k div stm_block_size m)) ?ncb"
      "num_cached_block m rid \<noteq> None \<longrightarrow> m' = m"
      using base_computed_step[OF A _ pr, of "int n" u] k(1) by auto
    have "grow_evo x p () p'"
      using B(4,7) refs_zero_back[OF ledger_ok[OF A(2)] B(8)] by (auto simp: grow_evo_def dest: keepsD)
    moreover have "take_post rid ncbs (int n) i m m'"
      using B(9-12) False k(1) s by (auto simp: take_post_def max_def)
    moreover have "co_computed_step u rid ncbs (int n) 0 i m x p = Inr (m', (), p')"
      using nth B(1) False by (simp add: co_computed_step_def allocate_new_computed_blocks_def)
    ultimately show ?thesis using B(2-6) False by (auto simp: take_cost_def)
  qed
next
  fix x x' :: unit and p p' i m
  assume e: "grow_evo x p x' p'"
  then show "take_pre rid ncbs i m x p \<Longrightarrow> take_pre rid ncbs i m x' p'" using hit_blocks_evo[OF e] by (auto simp: take_pre_def)
  show "take_cost rid ncbs (int n) i m p' \<le> take_cost rid ncbs (int n) i m p" using computed_cost_evo[OF e] by (simp add: take_cost_def)
next
  show "0 \<le> take_cost rid ncbs (int n) i m p" for i m p by (simp add: take_cost_def computed_cost_def split: sum.splits)
qed (auto intro: grow_evo_laws)

text \<open>Caching full blocks.\<close>

definition cache_pre :: "int \<Rightarrow> int \<Rightarrow> SingleTypeKVCacheManager \<Rightarrow> Request \<Rightarrow> BlockPool \<Rightarrow> bool" where
  "cache_pre n i m r p \<longleftrightarrow> stm_class m \<noteq> CrossAttentionManager \<and> enable_caching p
     \<and> n div stm_block_size m \<le> int (length (req_blocks m (request_id r))) \<and> hashed_up_to r n m p"

interpretation cac: manager_step "co_cache_step u sha n" "cache_pre n" "\<lambda>_ _ _. 0" "\<lambda>_ m m'. req_blocks m' = req_blocks m" request_evo
  for u sha n
proof
  fix p m R i r
  assume A: "mgr_inv p m" "ledger p (tabs m + R)" and pre: "cache_pre n i m r p"
  then obtain c m' p' where B: "base_cache_blocks u sha r n m p = Inr (r\<lparr>embeds_hashes := c\<rparr>, m', p')" "mgr_inv p' m'"
    "ledger p' (tabs m' + R)" "keeps p p' R" "mgr_static m m'" "get_num_free_blocks p' = get_num_free_blocks p" "req_blocks m' = req_blocks m"
    using base_cache_step[OF A, of n r u sha] by (auto simp: cache_pre_def)
  have "co_cache_step u sha n i m r p = Inr (m', r\<lparr>embeds_hashes := c\<rparr>, p')"
    using B(1) pre attention_class[OF A(1)] by (cases "stm_class m") (auto simp: co_cache_step_def cache_blocks_def cache_pre_def)
  with B show "\<exists>m' x' p'. co_cache_step u sha n i m r p = Inr (m', x', p') \<and> mgr_inv p' m' \<and> ledger p' (tabs m' + R) \<and> keeps p p' R
      \<and> mgr_static m m' \<and> req_blocks m' = req_blocks m \<and> get_num_free_blocks p \<le> get_num_free_blocks p' + 0 \<and> request_evo r p x' p'"
    by (auto simp: request_evo_def dest: keepsD)
next
  fix r p r' p' i m
  assume "request_evo r p r' p'" "cache_pre n i m r p"
  then show "cache_pre n i m r' p'"
    by (auto simp: request_evo_def cache_pre_def hashed_up_to_def group_hashes_def pool_staticD)
qed (auto intro: request_evo_laws)

section \<open>The prediction is what allocation uses\<close>

definition predicted :: "string \<Rightarrow> int \<Rightarrow> int \<Rightarrow> block_ref list list \<Rightarrow> int \<Rightarrow> int \<Rightarrow> SingleTypeKVCacheManager \<Rightarrow> BlockPool \<Rightarrow> int" where
  "predicted rid ntok enc ncbs n i m p =
     (let cross = (stm_class m = CrossAttentionManager) in
      case base_num_blocks_to_allocate rid (if cross then enc else ntok) (if cross then [] else hits_at ncbs i)
        (if cross then 0 else n) False m p of Inl _ \<Rightarrow> 0 | Inr k \<Rightarrow> k)"

lemma base_num_blocks_value:
  assumes "mgr_inv p m" and "num_cached_block m rid \<noteq> None \<Longrightarrow> ncb = []" and "get_num_skipped_tokens m n = Inr k"
  shows "base_num_blocks_to_allocate rid ntok ncb n False m p = Inr
    (let req = cdiv ntok (stm_block_size m); len = int (length (req_blocks m rid)); s = k div stm_block_size m in
     if num_cached_block m rid \<noteq> None then max (req - len) 0
     else max (req - max s (int (length ncb) + len)) 0 + get_num_evictable_blocks p (slice_from ncb (max 0 (s - len))))"
  using assms by (cases "max_admission_blocks_per_request m") (auto simp: base_num_blocks_to_allocate_def Let_def)

definition count_pre :: "string \<Rightarrow> block_ref list list \<Rightarrow> int \<Rightarrow> SingleTypeKVCacheManager \<Rightarrow> bool" where
  "count_pre rid ncbs i m \<longleftrightarrow> nth_r ncbs i = Inr (hits_at ncbs i) \<and> (num_cached_block m rid \<noteq> None \<longrightarrow> hits_at ncbs i = [])"

lemma num_blocks_run:
  assumes "\<forall>m\<in>set ms. mgr_inv p m" and "\<forall>(j, m)\<in>set (enumerate_from i ms). count_pre rid ncbs j m"
  shows "over_managers (co_num_blocks_step rid ntok ncbs enc n main False) i ms acc p =
    Inr (ms, acc + sum_list (map (\<lambda>(j, m). predicted rid ntok enc ncbs n j m p) (enumerate_from i ms)), p)"
  using assms
proof (induction ms arbitrary: i acc)
  case (Cons m ms)
  let ?cross = "stm_class m = CrossAttentionManager"
  have pre: "count_pre rid ncbs i m" and inv: "mgr_inv p m" using Cons.prems by auto
  let ?ncb = "if ?cross then [] else hits_at ncbs i" and ?n = "if ?cross then 0 else n" and ?t = "if ?cross then enc else ntok"
  obtain k where k: "get_num_skipped_tokens m ?n = Inr k" using skipped_total[OF mgr_invD(1)[OF inv]] by blast
  have "num_cached_block m rid \<noteq> None \<Longrightarrow> ?ncb = []" using pre by (auto simp: count_pre_def split: if_splits)
  note V = base_num_blocks_value[OF inv this k, where ntok = ?t]
  have step: "co_num_blocks_step rid ntok ncbs enc n main False i m acc p = Inr (m, acc + predicted rid ntok enc ncbs n i m p, p)"
    using V pre attention_class[OF inv]
    by (cases ?cross) (simp_all add: co_num_blocks_step_def get_num_blocks_to_allocate_def predicted_def count_pre_def)
  have "over_managers (co_num_blocks_step rid ntok ncbs enc n main False) i (m # ms) acc p =
    map_r (\<lambda>(ms, x, p). (m # ms, x, p))
      (over_managers (co_num_blocks_step rid ntok ncbs enc n main False) (i + 1) ms (acc + predicted rid ntok enc ncbs n i m p) p)"
    using step by simp
  also have "\<dots> = Inr (m # ms, acc + predicted rid ntok enc ncbs n i m p
      + sum_list (map (\<lambda>(j, m). predicted rid ntok enc ncbs n j m p) (enumerate_from (i + 1) ms)), p)"
    using Cons by simp
  finally show ?case by (simp add: add.assoc)
qed simp

lemma predicted_covers_taken:
  assumes inv: "mgr_inv p m" and ok: "pool_ok p" and pre: "take_pre rid ncbs i m () p" and post: "take_post rid ncbs (int n) i m m'"
    and st: "mgr_static m m'"
  shows "take_cost rid ncbs (int n) i m p + grow_cost rid ntok enc m' \<le> predicted rid ntok enc ncbs (int n) i m p"
proof -
  let ?cross = "stm_class m = CrossAttentionManager"
  let ?ncb = "if ?cross then [] else hits_at ncbs i" and ?n = "if ?cross then 0 else int n" and ?t = "if ?cross then enc else ntok"
  obtain k where k: "get_num_skipped_tokens m ?n = Inr k" "0 \<le> k" using skipped_total[OF mgr_invD(1)[OF inv], of ?n] by (auto split: if_splits)
  have s: "0 \<le> k div stm_block_size m" using k(2) mgr_invD(6)[OF inv] by (simp add: pos_imp_zdiv_nonneg_iff)
  have run: "num_cached_block m rid \<noteq> None \<Longrightarrow> ?ncb = []" using pre by (auto simp: take_pre_def split: if_splits)
  have P: "predicted rid ntok enc ncbs (int n) i m p =
    (let req = cdiv ?t (stm_block_size m); len = int (length (req_blocks m rid)); s = k div stm_block_size m in
     if num_cached_block m rid \<noteq> None then max (req - len) 0
     else max (req - max s (int (length ?ncb) + len)) 0 + get_num_evictable_blocks p (slice_from ?ncb (max 0 (s - len))))"
    using base_num_blocks_value[OF inv run k(1), where ntok = ?t] by (simp add: predicted_def)
  have bs: "stm_block_size m' = stm_block_size m" "stm_class m' = stm_class m" using st by (auto simp: mgr_static_def)
  show ?thesis
  proof (cases "?cross \<or> num_cached_block m rid \<noteq> None")
    case True
    then have m': "m' = m" using post by (auto simp: take_post_def)
    have "k = 0" if ?cross using k(1) that by (simp add: get_num_skipped_tokens_def)
    then show ?thesis unfolding P m' using True
      by (auto simp: Let_def grow_cost_def slots_for_def take_cost_def computed_cost_def get_num_evictable_blocks_def)
  next
    case False
    then have r: "req_blocks m rid = []" "hit_blocks p ?ncb" using pre by (auto simp: take_pre_def)
    have len: "int (length (req_blocks m' rid)) = max (k div stm_block_size m) (int (length ?ncb))"
      using post False k(1) by (auto simp: take_post_def)
    have "hit_blocks p (slice_from ?ncb (k div stm_block_size m))" using hit_blocks_drop[OF r(2)] s by simp
    then have "get_num_evictable_blocks p (slice_from ?ncb (k div stm_block_size m))
        = int (length (filter (\<lambda>b. refs p b = 0 \<and> usable p b) (slice_from ?ncb (k div stm_block_size m))))"
      by (intro evictable_usable[OF ok]) (auto simp: hit_blocks_def holds_def)
    then show ?thesis unfolding P using False k(1) r(1) len s
      by (simp add: Let_def grow_cost_def slots_for_def take_cost_def computed_cost_def bs)
  qed
qed

lemma take_cost_le_predicted:
  assumes inv: "mgr_inv p m" and ok: "pool_ok p" and pre: "take_pre rid ncbs i m () p"
  shows "take_cost rid ncbs (int n) i m p \<le> predicted rid ntok enc ncbs (int n) i m p"
proof (cases "stm_class m = CrossAttentionManager \<or> num_cached_block m rid \<noteq> None")
  case True
  moreover from this pre have "take_post rid ncbs (int n) i m m" by (auto simp: take_post_def)
  ultimately show ?thesis using predicted_covers_taken[OF inv ok pre, of n m ntok enc] by (simp add: grow_cost_def)
next
  case False
  let ?ncb = "hits_at ncbs i"
  obtain k where k: "get_num_skipped_tokens m (int n) = Inr k" "0 \<le> k" using skipped_total[OF mgr_invD(1)[OF inv], of "int n"] by auto
  have s: "0 \<le> k div stm_block_size m" using k(2) mgr_invD(6)[OF inv] by (simp add: pos_imp_zdiv_nonneg_iff)
  have r: "req_blocks m rid = []" "hit_blocks p ?ncb" using pre False by (auto simp: take_pre_def)
  have "hit_blocks p (slice_from ?ncb (k div stm_block_size m))" using hit_blocks_drop[OF r(2)] s by simp
  then have "get_num_evictable_blocks p (slice_from ?ncb (k div stm_block_size m))
      = int (length (filter (\<lambda>b. refs p b = 0 \<and> usable p b) (slice_from ?ncb (k div stm_block_size m))))"
    by (intro evictable_usable[OF ok]) (auto simp: hit_blocks_def holds_def)
  then show ?thesis using base_num_blocks_value[OF inv _ k(1), where rid = rid and ncb = ?ncb and ntok = ntok] False k(1) r(1) s
    by (simp add: Let_def predicted_def take_cost_def computed_cost_def)
qed

lemma predicted_covers_grown:
  assumes inv: "mgr_inv p m" and none: "hits_at ncbs i = []" and n: "0 \<le> n"
    and len: "stm_class m = CrossAttentionManager \<or> num_cached_block m rid \<noteq> None \<or> n \<le> int (length (req_blocks m rid)) * stm_block_size m"
  shows "grow_cost rid ntok enc m \<le> predicted rid ntok enc ncbs n i m p"
proof -
  let ?cross = "stm_class m = CrossAttentionManager"
  let ?n = "if ?cross then 0 else n" and ?t = "if ?cross then enc else ntok"
  obtain k where k: "get_num_skipped_tokens m ?n = Inr k" "0 \<le> k" "k \<le> ?n" using skipped_total[OF mgr_invD(1)[OF inv], of ?n] n by (auto split: if_splits)
  have P: "predicted rid ntok enc ncbs n i m p =
    (let req = cdiv ?t (stm_block_size m); len = int (length (req_blocks m rid)); s = k div stm_block_size m in
     if num_cached_block m rid \<noteq> None then max (req - len) 0
     else max (req - max s len) 0 + get_num_evictable_blocks p (slice_from [] (max 0 (s - len))))"
    using base_num_blocks_value[OF inv _ k(1), where rid = rid and ncb = "[]" and ntok = ?t] none by (auto simp: predicted_def Let_def)
  have "k div stm_block_size m \<le> int (length (req_blocks m rid))" if "num_cached_block m rid = None"
  proof -
    have "k \<le> int (length (req_blocks m rid)) * stm_block_size m"
      using that len k mgr_invD(6)[OF inv] by (cases ?cross) auto
    from zdiv_mono1[OF this mgr_invD(6)[OF inv]] show ?thesis using mgr_invD(6)[OF inv] by simp
  qed
  then show ?thesis unfolding P by (auto simp: Let_def grow_cost_def slots_for_def get_num_evictable_blocks_def)
qed

section \<open>Allocating slots\<close>

lemma list_all2_compose:
  "list_all2 P xs ys \<Longrightarrow> list_all2 Q ys zs \<Longrightarrow> (\<And>x y z. P x y \<Longrightarrow> Q y z \<Longrightarrow> S x z) \<Longrightarrow> list_all2 S xs zs"
  by (auto simp: list_all2_conv_all_nth)

lemma zero_costs [simp]: "sum_list (map (\<lambda>(j, m). 0) xs) = (0 :: int)"
  by (induction xs) auto

lemma enum_transfer:
  assumes "list_all2 (\<lambda>(j, m) m'. S j m m') (enumerate_from i ms) ms'"
    and "\<forall>(j, m)\<in>set (enumerate_from i ms). P j m" and "\<And>j m m'. P j m \<Longrightarrow> S j m m' \<Longrightarrow> Q j m'"
  shows "\<forall>(j, m')\<in>set (enumerate_from i ms'). Q j m'"
  using assms(1,2)
proof (induction ms arbitrary: i ms')
  case (Cons m ms)
  then obtain m' zs where "ms' = m' # zs" "S i m m'" "list_all2 (\<lambda>(j, m) m'. S j m m') (enumerate_from (i + 1) ms) zs"
    by (auto simp: list_all2_Cons1)
  with Cons.IH[of "i + 1" zs] Cons.prems(2) assms(3)[of i m m'] show ?case by auto
qed simp

lemma enum_sum_le:
  assumes "list_all2 (\<lambda>(j, m) m'. S j m m') (enumerate_from i ms) ms'"
    and "\<forall>(j, m)\<in>set (enumerate_from i ms). P j m" and "\<And>j m m'. P j m \<Longrightarrow> S j m m' \<Longrightarrow> (g j m :: int) + h j m' \<le> q j m"
  shows "sum_list (map (\<lambda>(j, m). g j m) (enumerate_from i ms)) + sum_list (map (\<lambda>(j, m). h j m) (enumerate_from i ms'))
    \<le> sum_list (map (\<lambda>(j, m). q j m) (enumerate_from i ms))"
  using assms(1,2)
proof (induction ms arbitrary: i ms')
  case (Cons m ms)
  then obtain m' ms'' where "ms' = m' # ms''" "S i m m'" "list_all2 (\<lambda>(j, m) m'. S j m m') (enumerate_from (i + 1) ms) ms''"
    by (auto simp: list_all2_Cons1)
  with Cons assms(3)[of i m m'] show ?case by fastforce
qed simp

lemma enum_list_all2: "list_all2 (\<lambda>(j, m) m'. S j m m') (enumerate_from i ms) ms' \<Longrightarrow>
    (\<And>j m m'. S j m m' \<Longrightarrow> T m m') \<Longrightarrow> list_all2 T ms ms'"
  by (induction ms arbitrary: i ms') (auto simp: list_all2_Cons1)

lemma enum_mem: "(j, m) \<in> set (enumerate_from i ms) \<Longrightarrow> m \<in> set ms"
  by (induction ms arbitrary: i) auto

lemma mem_enum: "m \<in> set ms \<Longrightarrow> \<exists>j. (j, m) \<in> set (enumerate_from i ms)"
  by (induction ms arbitrary: i) auto

text \<open>What the scheduler owes a call: the blocks it passes came from a lookup for a request without
  blocks; without such blocks the tables cover the computed tokens.\<close>

definition blocks_pre :: "string \<Rightarrow> int \<Rightarrow> kv_cache_blocks option \<Rightarrow> nat \<Rightarrow> SingleTypeKVCacheManager list \<Rightarrow> BlockPool \<Rightarrow> bool" where
  "blocks_pre rid n ncb ng ms p \<longleftrightarrow>
     (case ncb of
        Some (KVCacheBlocks bs) \<Rightarrow> \<forall>(j, m)\<in>set (enumerate_from 0 ms). take_pre rid bs j m () p
      | _ \<Rightarrow> length ms \<le> ng \<and> (\<forall>m\<in>set ms. stm_class m = CrossAttentionManager \<or> num_cached_block m rid \<noteq> None
               \<or> n \<le> int (length (req_blocks m rid)) * stm_block_size m))"

lemma take_pre_removed:
  assumes "take_pre rid bs j m () p" "mgr_static m m'" "remove_post rid m m'" "hash_evo x p x' p'"
  shows "take_pre rid bs j m' () p'"
proof -
  have "hit_blocks p' c = hit_blocks p c" for c
    using assms(4) by (auto simp: hash_evo_def hit_blocks_def holds_static pool_static_usable pool_staticD)
  moreover have "req_blocks m' rid = [] \<longleftrightarrow> req_blocks m rid = []" using assms(3) by (metis remove_post_def length_0_conv)
  ultimately show ?thesis using assms(1-3) by (auto simp: take_pre_def mgr_static_def remove_post_def)
qed

lemma take_phase:
  assumes inv: "\<forall>m\<in>set ms. mgr_inv p m" and led: "ledger p (all_tabs ms)"
    and pre: "\<forall>(j, m)\<in>set (enumerate_from 0 ms). take_pre rid bs j m () p"
    and room: "sum_list (map (\<lambda>(j, m). predicted rid ntok enc bs (int n) j m p) (enumerate_from 0 ms)) \<le> get_num_free_blocks p"
  shows "\<exists>ms' p'. over_managers (co_computed_step u rid bs (int n) 0) 0 ms () p = Inr (ms', (), p') \<and> managers_ok ms' p'
    \<and> pool_static p p' \<and> list_all2 (\<lambda>m m'. mgr_static m m' \<and> (\<forall>r. r \<noteq> rid \<longrightarrow> req_blocks m' r = req_blocks m r)) ms ms'
    \<and> sum_list (map (\<lambda>(j, m). grow_cost rid ntok enc m) (enumerate_from 0 ms')) \<le> get_num_free_blocks p'"
proof -
  have ok: "pool_ok p" by (rule ledger_ok[OF led])
  have pm: "\<forall>(j, m)\<in>set (enumerate_from 0 ms). take_pre rid bs j m () p \<and> mgr_inv p m" using pre inv enum_mem by fastforce
  have "sum_list (map (\<lambda>(j, m). take_cost rid bs (int n) j m p) (enumerate_from 0 ms))
      \<le> sum_list (map (\<lambda>(j, m). predicted rid ntok enc bs (int n) j m p) (enumerate_from 0 ms))"
    using pm take_cost_le_predicted[OF _ ok] by (intro sum_list_mono) auto
  with room tak.run[OF inv _ pre, of "{#}" n u] led obtain ms' p' where
    r: "over_managers (co_computed_step u rid bs (int n) 0) 0 ms () p = Inr (ms', (), p')" "\<forall>m\<in>set ms'. mgr_inv p' m" "ledger p' (all_tabs ms')"
      "keeps p p' {#}" "list_all2 (\<lambda>(j, m) m'. mgr_static m m' \<and> take_post rid bs (int n) j m m') (enumerate_from 0 ms) ms'"
      "get_num_free_blocks p \<le> get_num_free_blocks p' + sum_list (map (\<lambda>(j, m). take_cost rid bs (int n) j m p) (enumerate_from 0 ms))"
    by auto
  have "sum_list (map (\<lambda>(j, m). take_cost rid bs (int n) j m p) (enumerate_from 0 ms))
      + sum_list (map (\<lambda>(j, m). grow_cost rid ntok enc m) (enumerate_from 0 ms'))
      \<le> sum_list (map (\<lambda>(j, m). predicted rid ntok enc bs (int n) j m p) (enumerate_from 0 ms))"
    by (rule enum_sum_le[OF r(5) pm]) (use predicted_covers_taken[OF _ ok] in blast)
  moreover have "list_all2 (\<lambda>m m'. mgr_static m m' \<and> (\<forall>r. r \<noteq> rid \<longrightarrow> req_blocks m' r = req_blocks m r)) ms ms'"
    by (rule enum_list_all2[OF r(5)]) (auto simp: take_post_def)
  ultimately show ?thesis using r(1-4,6) room by (auto simp: managers_ok_def dest: keepsD)
qed

text \<open>The managers after a call that granted slots: every table reaches \<open>need\<close> tokens (\<open>enc\<close> for cross
  attention), and no other request is touched.\<close>

definition granted :: "string \<Rightarrow> int \<Rightarrow> int \<Rightarrow> SingleTypeKVCacheManager list \<Rightarrow> SingleTypeKVCacheManager list \<Rightarrow> bool" where
  "granted rid need enc ms ms' \<longleftrightarrow> list_all2 (\<lambda>m m'. mgr_static m m' \<and> slots_for need enc m \<le> int (length (req_blocks m' rid))
     \<and> (\<forall>r. r \<noteq> rid \<longrightarrow> req_blocks m' r = req_blocks m r)) ms ms'"

lemma grow_phase:
  assumes ok: "managers_ok ms p" and st: "list_all2 (\<lambda>m m'. mgr_static m m' \<and> (\<forall>r. r \<noteq> rid \<longrightarrow> req_blocks m' r = req_blocks m r)) ms0 ms"
    and room: "sum_list (map (\<lambda>(j, m). grow_cost rid ntok enc m) (enumerate_from 0 ms)) \<le> get_num_free_blocks p"
  shows "\<exists>new ms' p'. over_managers (co_allocate_step u rid ntok main enc) 0 ms [] p = Inr (ms', new, p') \<and> managers_ok ms' p'
    \<and> pool_static p p' \<and> granted rid ntok enc ms0 ms'"
proof -
  from grow.run[where ms = ms and p = p and R = "{#}" and i = 0 and x = "[]" and rid = rid and ntok = ntok and enc = enc
      and u = u and main = main] ok room obtain ms' new p' where
    r: "over_managers (co_allocate_step u rid ntok main enc) 0 ms [] p = Inr (ms', new, p')" "\<forall>m\<in>set ms'. mgr_inv p' m" "ledger p' (all_tabs ms')"
      "pool_static p p'" "list_all2 (\<lambda>(j, m) m'. mgr_static m m' \<and> grow_post rid ntok enc m m') (enumerate_from 0 ms) ms'"
    by (auto simp: managers_ok_def)
  have "list_all2 (\<lambda>m m'. mgr_static m m' \<and> grow_post rid ntok enc m m') ms ms'" by (rule enum_list_all2[OF r(5)]) auto
  then have "granted rid ntok enc ms0 ms'"
    unfolding granted_def by (rule list_all2_compose[OF st]) (auto simp: grow_post_def slots_for_def mgr_static_def)
  with r(1-4) show ?thesis by (auto simp: managers_ok_def)
qed

lemma cache_phase:
  assumes ok: "managers_ok ms p" and g: "granted (request_id r) need enc ms0 ms"
    and pre: "\<forall>m\<in>set ms0. stm_class m \<noteq> CrossAttentionManager \<and> hashed_up_to r n m p" and c: "enable_caching p" and n: "n \<le> need"
  shows "\<exists>c ms' p'. over_managers (co_cache_step u sha n) 0 ms r p = Inr (ms', r\<lparr>embeds_hashes := c\<rparr>, p') \<and> managers_ok ms' p'
    \<and> granted (request_id r) need enc ms0 ms' \<and> pool_static p p'"
proof -
  have "cache_pre n j m r p" if m: "m \<in> set ms" for j m
  proof -
    obtain i where i: "i < length ms" "m = ms ! i" using m by (auto simp: in_set_conv_nth)
    with g have l: "i < length ms0" "mgr_static (ms0 ! i) m" "slots_for need enc (ms0 ! i) \<le> int (length (req_blocks m (request_id r)))"
      by (auto simp: granted_def list_all2_conv_all_nth)
    have m0: "stm_class (ms0 ! i) \<noteq> CrossAttentionManager" "hashed_up_to r n (ms0 ! i) p" using pre nth_mem[OF l(1)] by auto
    have b: "0 < stm_block_size m" using ok m by (auto simp: managers_ok_def dest: mgr_invD(6))
    have "n div stm_block_size m \<le> cdiv need (stm_block_size m)"
      using div_le_cdiv[OF b, of n] cdiv_mono[OF b n] by linarith
    then show ?thesis using l m0 c by (auto simp: cache_pre_def slots_for_def mgr_static_def hashed_up_to_def)
  qed
  then have "\<forall>(j, m)\<in>set (enumerate_from 0 ms). cache_pre n j m r p" using enum_mem by fastforce
  from cac.run[OF _ _ this, of "{#}" u sha] ok obtain ms' r' p' where
    r: "over_managers (co_cache_step u sha n) 0 ms r p = Inr (ms', r', p')" "\<forall>m\<in>set ms'. mgr_inv p' m" "ledger p' (all_tabs ms')"
      "list_all2 (\<lambda>(j, m) m'. mgr_static m m' \<and> req_blocks m' = req_blocks m) (enumerate_from 0 ms) ms'" "request_evo r p r' p'"
    using ledger_free_nonneg[of p "all_tabs ms"] by (auto simp: managers_ok_def comp_def case_prod_beta)
  have "list_all2 (\<lambda>m m'. mgr_static m m' \<and> req_blocks m' = req_blocks m) ms ms'" by (rule enum_list_all2[OF r(4)]) auto
  then have "granted (request_id r) need enc ms0 ms'"
    unfolding granted_def by (rule list_all2_compose[OF g[unfolded granted_def]]) (auto intro: mgr_static_trans)
  with r(1-3,5) show ?thesis by (auto simp: managers_ok_def request_evo_def)
qed

lemma remove_phase:
  assumes ok: "managers_ok ms p" and pre: "blocks_pre rid n ncb ng ms p"
  shows "\<exists>ms' p'. over_managers (co_remove_step rid c) 0 ms () p = Inr (ms', (), p') \<and> managers_ok ms' p' \<and> pool_static p p'
    \<and> list_all2 (\<lambda>m m'. mgr_static m m' \<and> remove_post rid m m') ms ms' \<and> blocks_pre rid n ncb ng ms' p'"
proof -
  from rem.run[where ms = ms and p = p and R = "{#}" and i = 0 and x = "()" and rid = rid and n = c] ok ledger_free_nonneg[of p "all_tabs ms"]
  obtain ms' p' where r: "over_managers (co_remove_step rid c) 0 ms () p = Inr (ms', (), p')" "\<forall>m\<in>set ms'. mgr_inv p' m"
      "ledger p' (all_tabs ms')" "list_all2 (\<lambda>(j, m) m'. mgr_static m m' \<and> remove_post rid m m') (enumerate_from 0 ms) ms'" "hash_evo () p () p'"
    by (auto simp: managers_ok_def)
  have l: "list_all2 (\<lambda>m m'. mgr_static m m' \<and> remove_post rid m m') ms ms'" by (rule enum_list_all2[OF r(4)]) auto
  have "blocks_pre rid n ncb ng ms' p'"
  proof (cases "\<exists>bs. ncb = Some (KVCacheBlocks bs)")
    case True
    then obtain bs where b: "ncb = Some (KVCacheBlocks bs)" by blast
    then have "\<forall>(j, m)\<in>set (enumerate_from 0 ms'). take_pre rid bs j m () p'"
      using enum_transfer[OF r(4), where P = "\<lambda>j m. take_pre rid bs j m () p"] take_pre_removed[OF _ _ _ r(5)] pre
      by (auto simp: blocks_pre_def)
    with b show ?thesis by (simp add: blocks_pre_def)
  next
    case False
    then show ?thesis using pre l
      by (auto simp: blocks_pre_def list_all2_conv_all_nth all_set_conv_all_nth mgr_static_def remove_post_def
          split: option.splits kv_cache_blocks.splits)
  qed
  with r l show ?thesis by (auto simp: managers_ok_def hash_evo_def)
qed

lemma enum_index: "(j, m) \<in> set (enumerate_from i ms) \<Longrightarrow> i \<le> j \<and> j < i + int (length ms)"
  by (induction ms arbitrary: i) fastforce+

lemma no_hits: "length ms \<le> ng \<Longrightarrow> (j, m) \<in> set (enumerate_from 0 ms) \<Longrightarrow>
    nth_r (replicate ng []) j = Inr [] \<and> hits_at (replicate ng []) j = []"
  using enum_index[of j m 0 ms] by (auto simp: nth_r_def hits_at_def)

definition takes_blocks :: "kv_cache_blocks option \<Rightarrow> bool" where
  "takes_blocks ncb \<longleftrightarrow> ncb \<noteq> None \<and> ncb \<noteq> Some EmptyKVCacheBlocks"

lemma blocks_preD:
  assumes "blocks_pre rid n ncb (num_kv_cache_groups k) ms p" and "(j, m) \<in> set (enumerate_from 0 ms)"
  shows "count_pre rid (computed_block_list ncb k) j m"
    and "takes_blocks ncb \<Longrightarrow> take_pre rid (computed_block_list ncb k) j m () p"
    and "\<not> takes_blocks ncb \<Longrightarrow> hits_at (computed_block_list ncb k) j = []
      \<and> (stm_class m = CrossAttentionManager \<or> num_cached_block m rid \<noteq> None \<or> n \<le> int (length (req_blocks m rid)) * stm_block_size m)"
  using assms no_hits[of ms "num_kv_cache_groups k" j m] enum_mem[OF assms(2)]
  by (auto simp: blocks_pre_def computed_block_list_def blocks_of_def takes_blocks_def count_pre_def take_pre_def
      split: option.splits kv_cache_blocks.splits if_splits)

text \<open>Both ways to the point where only new blocks are missing.\<close>

lemma ready_phase:
  assumes ok: "managers_ok ms p" and pre: "blocks_pre rid (int n) ncb (num_kv_cache_groups k) ms p"
    and room: "sum_list (map (\<lambda>(j, m). predicted rid ntok enc (computed_block_list ncb k) (int n) j m p) (enumerate_from 0 ms))
      \<le> get_num_free_blocks p"
  shows "\<exists>ms' p'. (if takes_blocks ncb then over_managers (co_computed_step u rid (computed_block_list ncb k) (int n) 0) 0 ms () p
        else Inr (ms, (), p)) = Inr (ms', (), p') \<and> managers_ok ms' p' \<and> pool_static p p'
    \<and> list_all2 (\<lambda>m m'. mgr_static m m' \<and> (\<forall>r. r \<noteq> rid \<longrightarrow> req_blocks m' r = req_blocks m r)) ms ms'
    \<and> sum_list (map (\<lambda>(j, m). grow_cost rid ntok enc m) (enumerate_from 0 ms')) \<le> get_num_free_blocks p'"
proof (cases "takes_blocks ncb")
  case True
  then have "\<forall>(j, m)\<in>set (enumerate_from 0 ms). take_pre rid (computed_block_list ncb k) j m () p"
    using blocks_preD(2)[OF pre] by auto
  from take_phase[OF _ _ this room] ok True show ?thesis by (auto simp: managers_ok_def)
next
  case False
  have "sum_list (map (\<lambda>(j, m). grow_cost rid ntok enc m) (enumerate_from 0 ms))
      \<le> sum_list (map (\<lambda>(j, m). predicted rid ntok enc (computed_block_list ncb k) (int n) j m p) (enumerate_from 0 ms))"
  proof (rule sum_list_mono, clarify)
    fix j m assume jm: "(j, m) \<in> set (enumerate_from 0 ms)"
    then have "mgr_inv p m" using enum_mem ok by (fastforce simp: managers_ok_def)
    then show "grow_cost rid ntok enc m \<le> predicted rid ntok enc (computed_block_list ncb k) (int n) j m p"
      using blocks_preD(3)[OF pre jm False] by (intro predicted_covers_grown) auto
  qed
  with room ok False show ?thesis by (auto simp: list_all2_refl)
qed

definition kvm_tables :: "KVCacheManager \<Rightarrow> SingleTypeKVCacheManager list" where
  "kvm_tables k = single_type_managers (coordinator k)"

definition kvm_ok :: "KVCacheManager \<Rightarrow> bool" where
  "kvm_ok k \<longleftrightarrow> managers_ok (kvm_tables k) (kvm_pool k)"

definition caching_pre :: "Request \<Rightarrow> int \<Rightarrow> KVCacheManager \<Rightarrow> bool" where
  "caching_pre r n k \<longleftrightarrow> enable_caching (kvm_pool k)
     \<and> (\<forall>m\<in>set (kvm_tables k). stm_class m \<noteq> CrossAttentionManager \<and> hashed_up_to r n m (kvm_pool k))"

definition same_lengths :: "string \<Rightarrow> SingleTypeKVCacheManager list \<Rightarrow> SingleTypeKVCacheManager list \<Rightarrow> bool" where
  "same_lengths rid ms ms' \<longleftrightarrow> list_all2 (\<lambda>m m'. mgr_static m m' \<and> remove_post rid m m') ms ms'"

lemma caching_pre_static:
  assumes "caching_pre r n k" and "pool_static (kvm_pool k) p"
  shows "enable_caching p" "\<forall>m\<in>set (kvm_tables k). stm_class m \<noteq> CrossAttentionManager \<and> hashed_up_to r n m p"
  using assms by (auto simp: caching_pre_def hashed_up_to_def pool_staticD)

lemma allocate_slots_run:
  fixes r k ncb num_new ncomp lookahead
  defines "need \<equiv> min (min (num_computed_tokens r + ncomp) (kvm_max_model_len k) + num_new + lookahead) (kvm_max_model_len k)"
    and "cached \<equiv> min (min (num_computed_tokens r + ncomp) (kvm_max_model_len k) + num_new) (num_tokens r)"
  assumes ok: "kvm_ok k" and n: "num_computed_tokens r + ncomp = int n" and new: "num_new \<noteq> 0"
    and pre: "blocks_pre (request_id r) (int n) ncb (num_kv_cache_groups k) (kvm_tables k) (kvm_pool k)"
    and c: "kvm_enable_caching k \<and> \<not> delay \<Longrightarrow> caching_pre r cached k \<and> cached \<le> need"
  shows "\<exists>res r' k'. allocate_slots u sha r num_new ncomp ncb lookahead 0 delay enc k = Inr (res, r', k') \<and> kvm_ok k'
    \<and> (\<exists>co'. k' = k\<lparr>coordinator := co'\<rparr> \<and> pool_static (kvm_pool k) (block_pool co')) \<and> (\<exists>c. r' = r\<lparr>embeds_hashes := c\<rparr>)
    \<and> (case res of None \<Rightarrow> same_lengths (request_id r) (kvm_tables k) (kvm_tables k')
       | Some _ \<Rightarrow> granted (request_id r) need enc (kvm_tables k) (kvm_tables k'))"
proof -
  let ?rid = "request_id r" and ?bs = "computed_block_list ncb k" and ?co = "coordinator k"
  let ?main = "min (int n) (kvm_max_model_len k) + num_new"
  note defs = kvm_tables_def kvm_ok_def same_lengths_def
  have takes: "(ncb \<noteq> None \<and> ncb \<noteq> Some EmptyKVCacheBlocks \<or> 0 < (0 :: int)) = takes_blocks ncb" by (simp add: takes_blocks_def)
  obtain ms1 p1 where R: "over_managers (co_remove_step ?rid (min (int n) (kvm_max_model_len k))) 0 (single_type_managers ?co) () (block_pool ?co) = Inr (ms1, (), p1)"
    "managers_ok ms1 p1" "pool_static (block_pool ?co) p1" "list_all2 (\<lambda>m m'. mgr_static m m' \<and> remove_post ?rid m m') (single_type_managers ?co) ms1"
    "blocks_pre ?rid (int n) ncb (num_kv_cache_groups k) ms1 p1"
    using remove_phase[OF ok[unfolded defs] pre[unfolded defs]] by blast
  let ?n = "sum_list (map (\<lambda>(j, m). predicted ?rid need enc ?bs (int n) j m p1) (enumerate_from 0 ms1))"
  have "\<forall>(j, m)\<in>set (enumerate_from 0 ms1). count_pre ?rid ?bs j m" using blocks_preD(1)[OF R(5)] by auto
  from num_blocks_run[OF _ this, of p1 need enc "int n" ?main 0] R(2)
  have N: "over_managers (co_num_blocks_step ?rid need ?bs enc (int n) ?main False) 0 ms1 0 p1 = Inr (ms1, ?n, p1)"
    by (simp add: managers_ok_def)
  let ?co1 = "?co\<lparr>single_type_managers := ms1, block_pool := p1\<rparr>"
  have E: "co_remove_skipped_blocks ?rid (min (int n) (kvm_max_model_len k)) ?co = Inr ((), ?co1)"
    "co_get_num_blocks_to_allocate ?rid need ?bs enc (int n) ?main False ?co1 = Inr (?n, ?co1)"
    using R(1) N by (simp_all add: co_remove_skipped_blocks_def co_get_num_blocks_to_allocate_def with_managers_def)
  have need: "need = min (?main + lookahead) (kvm_max_model_len k)" and cached: "cached = min ?main (num_tokens r)"
    by (simp_all add: need_def cached_def n)
  have A: "allocate_slots u sha r num_new ncomp ncb lookahead 0 delay enc k =
    (if ?n > get_num_free_blocks p1 then Inr (None, r, k\<lparr>coordinator := ?co1\<rparr>)
     else bind_r (if takes_blocks ncb then co_allocate_new_computed_blocks u ?rid ?bs (int n) 0 ?co1 else Inr ((), ?co1)) (\<lambda>(_, co).
       bind_r (co_allocate_new_blocks u ?rid need ?main enc co) (\<lambda>(new, co).
         if \<not> kvm_enable_caching k \<or> delay then Inr (Some (create_kv_cache_blocks new), r, k\<lparr>coordinator := co\<rparr>)
         else bind_r (co_cache_blocks u sha r cached co) (\<lambda>(r, co). Inr (Some (create_kv_cache_blocks new), r, k\<lparr>coordinator := co\<rparr>)))))"
    unfolding allocate_slots_def Let_def n add_0_right takes need[symmetric] cached[symmetric] E bind_r_simps
    using new by (simp add: guard_r_def E)
  show ?thesis
  proof (cases "?n > get_num_free_blocks p1")
    case True
    then show ?thesis unfolding A using R by (auto simp: defs intro: exI[of _ "embeds_hashes r"])
  next
    case False
    then have room: "?n \<le> get_num_free_blocks p1" by simp
    obtain ms2 p2 where T: "(if takes_blocks ncb then over_managers (co_computed_step u ?rid ?bs (int n) 0) 0 ms1 () p1 else Inr (ms1, (), p1))
        = Inr (ms2, (), p2)" "managers_ok ms2 p2" "pool_static p1 p2"
      "list_all2 (\<lambda>m m'. mgr_static m m' \<and> (\<forall>r. r \<noteq> ?rid \<longrightarrow> req_blocks m' r = req_blocks m r)) ms1 ms2"
      "sum_list (map (\<lambda>(j, m). grow_cost ?rid need enc m) (enumerate_from 0 ms2)) \<le> get_num_free_blocks p2"
      using ready_phase[OF R(2) R(5) room] by blast
    have L: "list_all2 (\<lambda>m m'. mgr_static m m' \<and> (\<forall>r. r \<noteq> ?rid \<longrightarrow> req_blocks m' r = req_blocks m r)) (single_type_managers ?co) ms2"
      by (rule list_all2_compose[OF R(4) T(4)]) (auto simp: remove_post_def intro: mgr_static_trans)
    obtain new ms3 p3 where G: "over_managers (co_allocate_step u ?rid need ?main enc) 0 ms2 [] p2 = Inr (ms3, new, p3)" "managers_ok ms3 p3"
      "pool_static p2 p3" "granted ?rid need enc (single_type_managers ?co) ms3"
      using grow_phase[OF T(2) L T(5)] by blast
    let ?co2 = "?co\<lparr>single_type_managers := ms2, block_pool := p2\<rparr>" and ?co3 = "?co\<lparr>single_type_managers := ms3, block_pool := p3\<rparr>"
    have E3: "(if takes_blocks ncb then co_allocate_new_computed_blocks u ?rid ?bs (int n) 0 ?co1 else Inr ((), ?co1)) = Inr ((), ?co2)"
      "co_allocate_new_blocks u ?rid need ?main enc ?co2 = Inr (new, ?co3)"
      using T(1) G(1) by (auto simp: co_allocate_new_computed_blocks_def co_allocate_new_blocks_def with_managers_def split: if_splits)
    have A2: "allocate_slots u sha r num_new ncomp ncb lookahead 0 delay enc k =
      (if \<not> kvm_enable_caching k \<or> delay then Inr (Some (create_kv_cache_blocks new), r, k\<lparr>coordinator := ?co3\<rparr>)
       else bind_r (co_cache_blocks u sha r cached ?co3) (\<lambda>(r, co). Inr (Some (create_kv_cache_blocks new), r, k\<lparr>coordinator := co\<rparr>)))"
      unfolding A E3 using False by (simp add: E3)
    have st: "pool_static (kvm_pool k) p3" using R(3) T(3) G(3) by (auto intro: pool_static_trans)
    show ?thesis
    proof (cases "\<not> kvm_enable_caching k \<or> delay")
      case True
      then show ?thesis unfolding A2 using G st by (auto simp: defs intro: exI[of _ "embeds_hashes r"])
    next
      case False
      have cp: "caching_pre r cached k" "cached \<le> need" using c False by auto
      from cache_phase[OF G(2,4) caching_pre_static(2,1)[OF cp(1) st, unfolded kvm_tables_def] cp(2), where u = u and sha = sha]
      obtain e ms4 p4 where "over_managers (co_cache_step u sha cached) 0 ms3 r p3 = Inr (ms4, r\<lparr>embeds_hashes := e\<rparr>, p4)"
        "managers_ok ms4 p4" "granted ?rid need enc (single_type_managers ?co) ms4" "pool_static p3 p4" by blast
      then show ?thesis unfolding A2 using False pool_static_trans[OF st] by (auto simp: defs co_cache_blocks_def with_managers_def)
    qed
  qed
qed

end
