(* ===== verification/KV_Invariants.thy ===== *)
theory KV_Invariants
  imports Slot_Allocation
begin

text \<open>
  The KV cache manager as a state machine.  A manager built from a configuration of attention groups is
  in order, every operation keeps it in order, so in every reachable state the reference counts of the
  pool are the occurrences in the block tables and the free blocks are the ones in no table.  Allocation
  of slots never fails half-way.

  The scope: every cache group is of a full, sliding-window, chunked-local or cross attention class (no Mamba
  group and no sink blocks, which the sink manager takes from the free queue without a reference), and slots
  are allocated without external tokens of a connector.
\<close>

section \<open>A manager just built\<close>

definition plain_attention_spec :: "KVCacheSpec \<Rightarrow> bool" where
  "plain_attention_spec s \<longleftrightarrow> 0 < block_size s \<and> spec_class s \<notin> {MambaSpec, SinkFullAttentionSpec}
     \<and> (is_sliding s \<longrightarrow> (\<exists>w\<ge>1. sliding_window s = Some w))
     \<and> (spec_class s = ChunkedLocalAttentionSpec \<longrightarrow> (\<exists>c>0. attention_chunk_size s = Some c))"

definition attention_config :: "KVCacheConfig \<Rightarrow> bool" where
  "attention_config cfg \<longleftrightarrow> int (length (kv_cache_groups cfg)) \<le> 2 ^ 32 \<and> 0 < num_blocks cfg
     \<and> (\<forall>g\<in>set (kv_cache_groups cfg). plain_attention_spec (kv_cache_spec g))"

definition empty_manager :: "bool \<Rightarrow> SingleTypeKVCacheManager \<Rightarrow> bool" where
  "empty_manager caching m \<longleftrightarrow> mgr_wf m \<and> stm_enable_caching m = caching \<and> req_to_blocks m = [] \<and> num_cached_block m = Map.empty"

lemma empty_manager_inv: "empty_manager (enable_caching p) m \<Longrightarrow> mgr_inv p m \<and> tabs m = {#}"
  by (auto simp: empty_manager_def mgr_inv_def tabs_def req_blocks_def ncached_def)

lemma new_manager_empty:
  assumes "plain_attention_spec s" and "0 \<le> gid" "gid < 2 ^ 32"
    and "get_manager_for_kv_cache_spec s batched mml caching gid dcp pcp p = Inr (m, p')"
  shows "empty_manager caching m \<and> p' = p \<and> stm_spec m = s \<and> spec_manager_map (spec_class s) = Some (stm_class m)"
proof -
  obtain cls cap where c: "spec_manager_map (spec_class s) = Some cls" "cls \<noteq> SinkFullAttentionManager" "cls \<noteq> MambaManager"
    "m = single_type_init cls s caching gid dcp pcp cap" "p' = p"
    using assms(1,4) by (auto simp: get_manager_for_kv_cache_spec_def plain_attention_spec_def spec_manager_map_def result_simps
        split: option.splits if_splits spec_class.splits)
  have "0 < parallel_block_size (block_size s) dcp pcp"
    using assms(1) by (auto simp: parallel_block_size_def plain_attention_spec_def)
  then have "mgr_wf m" using c assms(1-3)
    by (auto simp: mgr_wf_def single_type_init_def plain_attention_spec_def is_sliding_def spec_manager_map_def split: spec_class.splits)
  with c show ?thesis by (simp add: empty_manager_def single_type_init_def)
qed

lemma make_managers_empty:
  assumes "attention_config cfg" and "make_managers cfg batched mml caching dcp pcp p = Inr (ms, p')"
  shows "p' = p \<and> length ms = length (kv_cache_groups cfg) \<and> (\<forall>m\<in>set ms. empty_manager caching m)"
proof -
  have "fold_r (\<lambda>(i, g) (ms, p). map_r (\<lambda>(m, p). (ms @ [m], p)) (get_manager_for_kv_cache_spec (kv_cache_spec g) batched mml caching i dcp pcp p))
      (enumerate_from i gs) (ms0, p) = Inr (ms, p') \<Longrightarrow> 0 \<le> i \<Longrightarrow> i + int (length gs) \<le> 2 ^ 32 \<Longrightarrow>
      \<forall>g\<in>set gs. plain_attention_spec (kv_cache_spec g) \<Longrightarrow> \<forall>m\<in>set ms0. empty_manager caching m \<Longrightarrow>
      p' = p \<and> length ms = length ms0 + length gs \<and> (\<forall>m\<in>set ms. empty_manager caching m)" for gs i ms0
  proof (induction gs arbitrary: i ms0)
    case (Cons g gs)
    from Cons.prems(1) obtain m p1 where m: "get_manager_for_kv_cache_spec (kv_cache_spec g) batched mml caching i dcp pcp p = Inr (m, p1)"
      "fold_r (\<lambda>(i, g) (ms, p). map_r (\<lambda>(m, p). (ms @ [m], p)) (get_manager_for_kv_cache_spec (kv_cache_spec g) batched mml caching i dcp pcp p))
        (enumerate_from (i + 1) gs) (ms0 @ [m], p1) = Inr (ms, p')"
      by (auto simp: result_simps)
    have "empty_manager caching m" "p1 = p" using new_manager_empty[OF _ _ _ m(1)] Cons.prems(2-4) by auto
    with Cons.IH[of "i + 1" "ms0 @ [m]"] m(2) Cons.prems show ?case by auto
  qed simp
  from this[of 0 "kv_cache_groups cfg" "[]"] assms show ?thesis by (simp add: make_managers_def attention_config_def)
qed

definition kvm_inv :: "KVCacheManager \<Rightarrow> bool" where
  "kvm_inv k \<longleftrightarrow> kvm_ok k \<and> length (kvm_tables k) = num_kv_cache_groups k \<and> enable_caching (kvm_pool k) = kvm_enable_caching k
     \<and> (kvm_log_stats k \<longrightarrow> prefix_cache_stats k \<noteq> None)"

lemma all_tabs_empty: "\<forall>m\<in>set ms. tabs m = {#} \<Longrightarrow> all_tabs ms = {#}"
  by (induction ms) auto

lemma coordinator_init_ok:
  assumes cfg: "attention_config cfg" and i: "coordinator_init cls cfg mml batched use_eagle caching events dcp pcp hbs metrics = Inr co"
  shows "managers_ok (single_type_managers co) (block_pool co) \<and> length (single_type_managers co) = length (kv_cache_groups cfg)
    \<and> enable_caching (block_pool co) = caching"
proof -
  obtain p where p: "block_pool_init (num_blocks cfg) caching hbs events metrics = Inr p" "pool_inv p (map Block [1..<nat (num_blocks cfg)])"
    "num_gpu_blocks p = num_blocks cfg" "enable_caching p = caching" "\<forall>i. int i < num_blocks cfg \<longrightarrow> refs p (Block i) = 0"
    using block_pool_init_spec[of "num_blocks cfg" caching hbs events metrics] cfg unfolding attention_config_def by blast
  obtain ms where ms: "make_managers cfg batched mml caching dcp pcp p = Inr (ms, block_pool co)" "single_type_managers co = ms"
    using i p(1) by (auto simp: coordinator_init_def Let_def result_simps)
  note E = make_managers_empty[OF cfg ms(1)]
  have m: "\<forall>m\<in>set ms. mgr_inv p m \<and> tabs m = {#}" using E empty_manager_inv[of p] p(4) by simp
  then have "all_tabs ms = {#}" by (simp add: all_tabs_empty)
  moreover have "ledger p {#}" using p(2,3,5) by (auto simp: ledger_def pool_ok_def usable_def)
  ultimately show ?thesis using E ms(2) p(4) m by (simp add: managers_ok_def)
qed

lemma verify_groups_keeps:
  "verify_and_split_kv_cache_groups co = Inr co' \<Longrightarrow> single_type_managers co' = single_type_managers co \<and> block_pool co' = block_pool co"
  by (auto simp: verify_and_split_kv_cache_groups_def Let_def result_simps)

lemma kvm_init_inv:
  assumes cfg: "attention_config cfg"
    and i: "kv_cache_manager_init cfg mml hbs batched caching use_eagle log_stats events dcp pcp metrics = Inr k"
  shows "kvm_inv k"
proof -
  from i obtain co where co: "get_kv_cache_coordinator cfg mml (case batched of None \<Rightarrow> mml | Some b \<Rightarrow> b) use_eagle caching events dcp pcp hbs metrics = Inr co"
    "coordinator k = co" "kvm_enable_caching k = caching" "num_kv_cache_groups k = length (kv_cache_groups cfg)"
    "kvm_log_stats k \<longrightarrow> prefix_cache_stats k \<noteq> None"
    by (auto simp: kv_cache_manager_init_def result_simps)
  from co(1) obtain cls co0 where "coordinator_init cls cfg mml (case batched of None \<Rightarrow> mml | Some b \<Rightarrow> b) use_eagle caching events dcp pcp hbs metrics = Inr co0"
    "single_type_managers co = single_type_managers co0 \<and> block_pool co = block_pool co0"
    by (fastforce simp: get_kv_cache_coordinator_def no_prefix_cache_init_def unitary_init_def hybrid_init_def Let_def result_simps
        dest: verify_groups_keeps split: if_splits)
  from coordinator_init_ok[OF cfg this(1)] this(2) co show ?thesis by (simp add: kvm_inv_def kvm_ok_def kvm_tables_def)
qed

section \<open>Every operation keeps the managers in order\<close>

lemma managers_ok_pool:
  assumes "managers_ok ms p" and "keeps p p' (all_tabs ms)" and "pool_ok p'" and "\<forall>b. refs p' b = refs p b"
  shows "managers_ok ms p'"
  using assms all_mgr_inv_keeps[of ms p p']
  by (auto simp: managers_ok_def ledger_def pool_static_usable[OF keepsD[OF assms(2)]])

text \<open>Changes of a manager that leave tables and counts alone.\<close>

definition same_tables :: "SingleTypeKVCacheManager \<Rightarrow> SingleTypeKVCacheManager \<Rightarrow> bool" where
  "same_tables m m' \<longleftrightarrow> mgr_static m m' \<and> req_blocks m' = req_blocks m \<and> num_cached_block m' = num_cached_block m
     \<and> tabs m' = tabs m \<and> (distinct (map fst (req_to_blocks m)) \<longrightarrow> distinct (map fst (req_to_blocks m')))"

lemma same_tables_inv: "same_tables m m' \<Longrightarrow> mgr_inv p m \<Longrightarrow> mgr_inv p m'"
  using mgr_static_wf[of m m'] unfolding same_tables_def mgr_inv_def ncached_def by (simp add: mgr_static_def)

lemma same_tables_ok:
  "list_all2 same_tables ms ms' \<Longrightarrow> managers_ok ms p \<Longrightarrow> managers_ok ms' p"
proof -
  assume l: "list_all2 same_tables ms ms'" and ok: "managers_ok ms p"
  from l have "all_tabs ms' = all_tabs ms" by (induction rule: list_all2_induct) (auto simp: same_tables_def)
  moreover from l have "\<forall>m\<in>set ms. mgr_inv p m \<Longrightarrow> \<forall>m\<in>set ms'. mgr_inv p m"
    by (induction rule: list_all2_induct) (auto dest: same_tables_inv)
  ultimately show ?thesis using ok by (simp add: managers_ok_def)
qed

lemma same_tables_refl [simp]: "same_tables m m"
  by (simp add: same_tables_def)

lemma same_tables_touch:
  assumes "mgr_inv p m" shows "same_tables m (touch_entry rid m)"
proof -
  have d: "distinct (map fst (req_to_blocks m))" by (rule mgr_invD(3)[OF assms])
  have d': "distinct (map fst (req_to_blocks (touch_entry rid m)))" using set_req_blocks_keys[OF d] by (simp add: touch_entry_def)
  have "tabs (touch_entry rid m) = tabs m" using tabs_split[OF d, of rid] tabs_split[OF d', of rid] by simp
  with d' show ?thesis by (simp add: same_tables_def)
qed

lemma over_managers_same:
  assumes "over_managers f i ms x p = Inr (ms', x', p')" and "\<forall>m\<in>set ms. mgr_inv p m"
    and "\<And>j m y m' y' q. mgr_inv p m \<Longrightarrow> f j m y p = Inr (m', y', q) \<Longrightarrow> same_tables m m' \<and> q = p"
  shows "list_all2 same_tables ms ms' \<and> p' = p"
  using assms(1,2)
proof (induction ms arbitrary: i x ms')
  case (Cons m ms)
  then obtain m1 x1 p1 ms1 where s: "f i m x p = Inr (m1, x1, p1)" "over_managers f (i + 1) ms x1 p1 = Inr (ms1, x', p')" "ms' = m1 # ms1"
    by (auto simp: result_simps)
  with assms(3)[OF _ s(1)] Cons.IH Cons.prems(2) show ?case by auto
qed simp

lemma common_prefix_same:
  assumes "managers_ok (single_type_managers co) (block_pool co)" and "co_get_num_common_prefix_blocks rid co = Inr (ns, co')"
  shows "list_all2 same_tables (single_type_managers co) (single_type_managers co') \<and> block_pool co' = block_pool co"
proof (cases "co_class co = KVCacheCoordinatorNoPrefixCache")
  case True
  with assms show ?thesis by (auto simp: co_get_num_common_prefix_blocks_def list_all2_refl)
next
  case False
  let ?f = "\<lambda>i m acc p. case get_num_common_prefix_blocks rid m p of (n, m) \<Rightarrow>
    (Inr (m, acc @ [n], p) :: (SingleTypeKVCacheManager \<times> int list \<times> BlockPool) result)"
  from False assms(2) have "over_managers ?f 0 (single_type_managers co) [] (block_pool co) = Inr (single_type_managers co', ns, block_pool co')"
    by (auto simp: co_get_num_common_prefix_blocks_def with_managers_def result_simps)
  moreover have "same_tables m m' \<and> q = p" if "mgr_inv p m" "?f j m y p = Inr (m', y', q)" for j m y p m' y' q
    using that same_tables_touch[OF that(1), of rid]
    by (auto simp: get_num_common_prefix_blocks_def full_num_common_prefix_blocks_def Let_def split: if_splits)
  ultimately show ?thesis using assms(1) unfolding managers_ok_def by (intro over_managers_same[of ?f]) auto
qed

lemma count_same:
  assumes "managers_ok (single_type_managers co) (block_pool co)"
    and "co_get_num_blocks_to_allocate rid ntok ncbs enc n main cap co = Inr (c, co')"
  shows "list_all2 same_tables (single_type_managers co) (single_type_managers co') \<and> block_pool co' = block_pool co"
proof -
  let ?f = "co_num_blocks_step rid ntok ncbs enc n main cap"
  from assms(2) have "over_managers ?f 0 (single_type_managers co) 0 (block_pool co) = Inr (single_type_managers co', c, block_pool co')"
    by (auto simp: co_get_num_blocks_to_allocate_def with_managers_def result_simps)
  moreover have "same_tables m m' \<and> q = p" if "mgr_inv p m" "?f j m y p = Inr (m', y', q)" for j m y p m' y' q
    using that attention_class[OF that(1)] by (auto simp: co_num_blocks_step_def get_num_blocks_to_allocate_def result_simps split: if_splits)
  ultimately show ?thesis using assms(1) unfolding managers_ok_def by (intro over_managers_same[of ?f]) auto
qed

lemma evict_keeps_order:
  assumes ok: "managers_ok ms p" and ids: "\<forall>i\<in>set ids. 0 \<le> i \<and> i < num_gpu_blocks p"
  shows "\<exists>p'. evict_blocks u ids p = Inr p' \<and> managers_ok ms p' \<and> pool_static p p'"
proof -
  obtain xs where "pool_inv p xs" using ok by (auto simp: managers_ok_def ledger_def pool_ok_def)
  from evict_blocks_spec[OF this ids, of u] obtain p' where "evict_blocks u ids p = Inr p'" "pool_ok p'" "pool_static p p'"
    "\<forall>c. refs p' c = refs p c" "\<forall>c. hash_of p' c = (if c \<in> (\<lambda>i. Block (nat i)) ` set ids then None else hash_of p c)"
    by (auto simp: pool_ok_def)
  moreover from this have "keeps p p' R" for R by (auto simp: keeps_def fresh_def)
  ultimately show ?thesis using managers_ok_pool[OF ok] by blast
qed

lemma reset_keeps_order:
  assumes ok: "managers_ok ms p" and r: "reset_prefix_cache_pool p = (b, p')"
  shows "managers_ok ms p'" "pool_static p p'"
proof -
  obtain xs where "pool_inv p xs" using ok by (auto simp: managers_ok_def ledger_def pool_ok_def)
  from reset_prefix_cache_pool_spec[OF this] r have "pool_ok p'" "pool_static p p'"
    "\<forall>c. refs p' c = refs p c" "\<forall>c. usable p c \<longrightarrow> hash_of p' c = None \<or> hash_of p' c = hash_of p c"
    by (auto simp: pool_ok_def)
  moreover from this have "keeps p p' R" for R by (auto simp: keeps_def fresh_def)
  ultimately show "managers_ok ms p'" "pool_static p p'" using managers_ok_pool[OF ok] by auto
qed

lemma take_events_keeps_order:
  assumes ok: "managers_ok ms p" and r: "take_events p = (evs, p')"
  shows "managers_ok ms p'" "pool_static p p'"
proof -
  obtain xs where "pool_inv p xs" using ok by (auto simp: managers_ok_def ledger_def pool_ok_def)
  with r have "pool_inv p' xs" by (auto simp: take_events_def pool_core_def usable_def split: if_splits)
  then have "pool_ok p'" by (auto simp: pool_ok_def)
  moreover have "pool_static p p'" "\<forall>c. refs p' c = refs p c" "\<forall>c. hash_of p' c = hash_of p c"
    using r by (auto simp: take_events_def pool_static_def split: if_splits)
  moreover from this have "keeps p p' R" for R by (auto simp: keeps_def fresh_def)
  ultimately show "managers_ok ms p'" "pool_static p p'" using managers_ok_pool[OF ok] by auto
qed

lemma free_keeps_order:
  assumes ok: "managers_ok ms p"
  shows "\<exists>ms' p'. over_managers (co_free_step rid) 0 ms () p = Inr (ms', (), p') \<and> managers_ok ms' p' \<and> pool_static p p'
    \<and> list_all2 (\<lambda>m m'. mgr_static m m' \<and> free_post rid m m') ms ms'"
proof -
  from fre.run[where ms = ms and p = p and R = "{#}" and i = 0 and x = "()" and rid = rid] ok ledger_free_nonneg[of p "all_tabs ms"]
  obtain ms' p' where r: "over_managers (co_free_step rid) 0 ms () p = Inr (ms', (), p')" "\<forall>m\<in>set ms'. mgr_inv p' m"
      "ledger p' (all_tabs ms')" "list_all2 (\<lambda>(j, m) m'. mgr_static m m' \<and> free_post rid m m') (enumerate_from 0 ms) ms'" "hash_evo () p () p'"
    by (auto simp: managers_ok_def)
  have "list_all2 (\<lambda>m m'. mgr_static m m' \<and> free_post rid m m') ms ms'" by (rule enum_list_all2[OF r(4)]) auto
  with r show ?thesis by (auto simp: managers_ok_def hash_evo_def)
qed

lemma cache_keeps_order:
  assumes ok: "managers_ok ms p" and pre: "\<forall>m\<in>set ms. cache_pre n 0 m r p"
  shows "\<exists>c ms' p'. over_managers (co_cache_step u sha n) 0 ms r p = Inr (ms', r\<lparr>embeds_hashes := c\<rparr>, p') \<and> managers_ok ms' p' \<and> pool_static p p'
    \<and> length ms' = length ms"
proof -
  have "\<forall>(j, m)\<in>set (enumerate_from 0 ms). cache_pre n j m r p" using pre enum_mem by (fastforce simp: cache_pre_def)
  from cac.run[OF _ _ this, of "{#}" u sha] ok obtain ms' r' p' where
    "over_managers (co_cache_step u sha n) 0 ms r p = Inr (ms', r', p')" "\<forall>m\<in>set ms'. mgr_inv p' m" "ledger p' (all_tabs ms')"
      "list_all2 (\<lambda>(j, m) m'. mgr_static m m' \<and> req_blocks m' = req_blocks m) (enumerate_from 0 ms) ms'" "request_evo r p r' p'"
    using ledger_free_nonneg[of p "all_tabs ms"] by (auto simp: managers_ok_def comp_def case_prod_beta)
  then show ?thesis using enum_list_all2[THEN list_all2_lengthD] by (fastforce simp: managers_ok_def request_evo_def)
qed

section \<open>The state machine\<close>

text \<open>
  What the scheduler owes a call of \<open>allocate_slots\<close>: there is something to allocate, the blocks it
  passes are those of a lookup (\<open>blocks_pre\<close>), and when full blocks are to be cached the hashes of the
  request reach that far.
\<close>

definition slots_pre :: "Request \<Rightarrow> int \<Rightarrow> int \<Rightarrow> kv_cache_blocks option \<Rightarrow> int \<Rightarrow> bool \<Rightarrow> KVCacheManager \<Rightarrow> bool" where
  "slots_pre r num_new ncomp ncb lookahead delay k \<longleftrightarrow>
     (let n = num_computed_tokens r + ncomp in
      0 < num_new \<and> 0 \<le> n \<and> blocks_pre (request_id r) n ncb (num_kv_cache_groups k) (kvm_tables k) (kvm_pool k)
      \<and> (kvm_enable_caching k \<and> \<not> delay \<longrightarrow> 0 \<le> lookahead \<and> n + num_new \<le> kvm_max_model_len k
           \<and> (\<forall>m\<in>set (kvm_tables k). stm_class m \<noteq> CrossAttentionManager \<and> hashed_up_to r (min (n + num_new) (num_tokens r)) m (kvm_pool k))))"

inductive kvm_step :: "bool \<Rightarrow> (bytes \<Rightarrow> bytes) \<Rightarrow> KVCacheManager \<Rightarrow> KVCacheManager \<Rightarrow> bool" for u sha where
  lookup: "get_computed_blocks r k = Inr (hit, k') \<Longrightarrow> kvm_step u sha k k'"
| admit: "can_fit_full_sequence r ncomp ncb ext enc k = Inr (ok, k') \<Longrightarrow> kvm_step u sha k k'"
| allocate: "slots_pre r num_new ncomp ncb lookahead delay k \<Longrightarrow>
    allocate_slots u sha r num_new ncomp ncb lookahead 0 delay enc k = Inr (res, r', k') \<Longrightarrow> kvm_step u sha k k'"
| cache: "\<forall>m\<in>set (kvm_tables k). cache_pre n 0 m r (kvm_pool k) \<Longrightarrow> kvm_cache_blocks u sha r n k = Inr (r', k') \<Longrightarrow> kvm_step u sha k k'"
| recycle: "kvm_remove_skipped_blocks rid n k = Inr k' \<Longrightarrow> kvm_step u sha k k'"
| free: "kvm_free r k = Inr k' \<Longrightarrow> kvm_step u sha k k'"
| evict: "\<forall>i\<in>set ids. 0 \<le> i \<and> i < num_gpu_blocks (kvm_pool k) \<Longrightarrow> kvm_evict_blocks u ids k = Inr k' \<Longrightarrow> kvm_step u sha k k'"
| reset: "kvm_reset_prefix_cache k = Inr (ok, k') \<Longrightarrow> kvm_step u sha k k'"
| common: "kvm_get_num_common_prefix_blocks rid k = Inr (ns, k') \<Longrightarrow> kvm_step u sha k k'"
| events: "kvm_take_events k = (evs, k') \<Longrightarrow> kvm_step u sha k k'"
| new_ids: "kvm_take_new_block_ids k = (ids, k') \<Longrightarrow> kvm_step u sha k k'"
| new_step: "kvm_step u sha k (kvm_new_step_starts k)"
| stats: "make_prefix_cache_stats k = (s, k') \<Longrightarrow> kvm_step u sha k k'"

inductive kvm_reach :: "bool \<Rightarrow> (bytes \<Rightarrow> bytes) \<Rightarrow> KVCacheConfig \<Rightarrow> KVCacheManager \<Rightarrow> bool" for u sha cfg where
  start: "kv_cache_manager_init cfg mml hbs batched caching use_eagle log_stats events dcp pcp metrics = Inr k \<Longrightarrow> kvm_reach u sha cfg k"
| step: "kvm_reach u sha cfg k \<Longrightarrow> kvm_step u sha k k' \<Longrightarrow> kvm_reach u sha cfg k'"

lemma kvm_inv_coordinator:
  assumes "kvm_inv k" and "managers_ok (single_type_managers co) (block_pool co)" and "pool_static (kvm_pool k) (block_pool co)"
    and "length (single_type_managers co) = length (kvm_tables k)"
  shows "kvm_inv (k\<lparr>coordinator := co\<rparr>)"
  using assms pool_staticD(3)[OF assms(3)] by (simp add: kvm_inv_def kvm_ok_def kvm_tables_def)

lemma allocate_slots_ok:
  assumes inv: "kvm_inv k" and pre: "slots_pre r num_new ncomp ncb lookahead delay k"
  shows "\<exists>res r' k'. allocate_slots u sha r num_new ncomp ncb lookahead 0 delay enc k = Inr (res, r', k') \<and> kvm_inv k'
    \<and> (\<exists>c. r' = r\<lparr>embeds_hashes := c\<rparr>)
    \<and> (case res of None \<Rightarrow> same_lengths (request_id r) (kvm_tables k) (kvm_tables k')
       | Some _ \<Rightarrow> granted (request_id r) (min (min (num_computed_tokens r + ncomp) (kvm_max_model_len k) + num_new + lookahead) (kvm_max_model_len k))
           enc (kvm_tables k) (kvm_tables k'))"
proof -
  let ?n = "num_computed_tokens r + ncomp"
  obtain n where n: "?n = int n" using pre zero_le_imp_eq_int by (auto simp: slots_pre_def Let_def)
  have bp: "blocks_pre (request_id r) (int n) ncb (num_kv_cache_groups k) (kvm_tables k) (kvm_pool k)" and new: "num_new \<noteq> 0"
    using pre n by (auto simp: slots_pre_def Let_def)
  have "caching_pre r (min (min ?n (kvm_max_model_len k) + num_new) (num_tokens r)) k
      \<and> min (min ?n (kvm_max_model_len k) + num_new) (num_tokens r) \<le> min (min ?n (kvm_max_model_len k) + num_new + lookahead) (kvm_max_model_len k)"
    if "kvm_enable_caching k \<and> \<not> delay"
    using pre inv that by (auto simp: slots_pre_def Let_def caching_pre_def kvm_inv_def min_def)
  from allocate_slots_run[OF _ n new bp this, where u = u and sha = sha and enc = enc] inv
  obtain res r' k' co' where R: "allocate_slots u sha r num_new ncomp ncb lookahead 0 delay enc k = Inr (res, r', k')" "kvm_ok k'"
    "k' = k\<lparr>coordinator := co'\<rparr>" "pool_static (kvm_pool k) (block_pool co')" "\<exists>c. r' = r\<lparr>embeds_hashes := c\<rparr>"
    "case res of None \<Rightarrow> same_lengths (request_id r) (kvm_tables k) (kvm_tables k')
       | Some _ \<Rightarrow> granted (request_id r) (min (min ?n (kvm_max_model_len k) + num_new + lookahead) (kvm_max_model_len k))
           enc (kvm_tables k) (kvm_tables k')"
    unfolding kvm_inv_def by blast
  have "length (kvm_tables k') = length (kvm_tables k)"
    using R(6) by (cases res) (auto simp: same_lengths_def granted_def dest: list_all2_lengthD)
  then have "kvm_inv k'" using kvm_inv_coordinator[OF inv _ R(4)] R(2,3) by (simp add: kvm_ok_def kvm_tables_def)
  with R(1,5,6) show ?thesis by blast
qed

lemma kvm_inv_same:
  assumes inv: "kvm_inv k" and l: "list_all2 same_tables (single_type_managers (coordinator k)) (single_type_managers co)"
    and p: "block_pool co = kvm_pool k"
  shows "kvm_inv (k\<lparr>coordinator := co\<rparr>)"
proof (rule kvm_inv_coordinator[OF inv])
  have ok: "managers_ok (single_type_managers (coordinator k)) (kvm_pool k)" using inv by (simp add: kvm_inv_def kvm_ok_def kvm_tables_def)
  show "managers_ok (single_type_managers co) (block_pool co)" using same_tables_ok[OF l ok] by (simp add: p)
  show "length (single_type_managers co) = length (kvm_tables k)" using list_all2_lengthD[OF l] by (simp add: kvm_tables_def)
qed (simp add: p)

lemma kvm_inv_pool:
  "kvm_inv k \<Longrightarrow> managers_ok (kvm_tables k) p \<Longrightarrow> pool_static (kvm_pool k) p \<Longrightarrow> kvm_inv (set_kvm_pool p k)"
  unfolding set_kvm_pool_def by (rule kvm_inv_coordinator) (simp_all add: kvm_tables_def)

lemma kvm_inv_stats:
  "kvm_inv (k\<lparr>prefix_cache_stats := Some s\<rparr>)" if "kvm_inv k"
  using that by (simp add: kvm_inv_def kvm_ok_def kvm_tables_def)

lemma kvm_free_ok:
  assumes inv: "kvm_inv k"
  shows "\<exists>k'. kvm_free r k = Inr k' \<and> kvm_inv k'
    \<and> list_all2 (\<lambda>m m'. mgr_static m m' \<and> free_post (request_id r) m m') (kvm_tables k) (kvm_tables k')"
proof -
  from inv free_keeps_order[of "kvm_tables k" "kvm_pool k" "request_id r"] obtain ms' p' where
    R: "over_managers (co_free_step (request_id r)) 0 (kvm_tables k) () (kvm_pool k) = Inr (ms', (), p')" "managers_ok ms' p'"
      "pool_static (kvm_pool k) p'" "list_all2 (\<lambda>m m'. mgr_static m m' \<and> free_post (request_id r) m m') (kvm_tables k) ms'"
    by (auto simp: kvm_inv_def kvm_ok_def)
  let ?k = "k\<lparr>coordinator := (coordinator k)\<lparr>single_type_managers := ms', block_pool := p'\<rparr>\<rparr>"
  have "kvm_inv ?k" using R list_all2_lengthD[OF R(4)] by (intro kvm_inv_coordinator[OF inv]) auto
  moreover have "kvm_free r k = Inr ?k" using R(1) by (simp add: kvm_free_def co_free_def with_managers_def kvm_tables_def)
  ultimately show ?thesis using R(4) by (auto simp: kvm_tables_def)
qed

lemma kvm_remove_ok:
  assumes inv: "kvm_inv k"
  shows "\<exists>k'. kvm_remove_skipped_blocks rid n k = Inr k' \<and> kvm_inv k' \<and> same_lengths rid (kvm_tables k) (kvm_tables k')"
proof -
  have "blocks_pre rid 0 None (length (kvm_tables k)) (kvm_tables k) (kvm_pool k)"
    using inv by (auto simp: blocks_pre_def kvm_inv_def kvm_ok_def managers_ok_def dest!: mgr_invD(6))
  from inv remove_phase[OF _ this, of n] obtain ms' p' where
    R: "over_managers (co_remove_step rid n) 0 (kvm_tables k) () (kvm_pool k) = Inr (ms', (), p')" "managers_ok ms' p'"
      "pool_static (kvm_pool k) p'" "list_all2 (\<lambda>m m'. mgr_static m m' \<and> remove_post rid m m') (kvm_tables k) ms'"
    by (auto simp: kvm_inv_def kvm_ok_def)
  let ?k = "k\<lparr>coordinator := (coordinator k)\<lparr>single_type_managers := ms', block_pool := p'\<rparr>\<rparr>"
  have "kvm_inv ?k" using R list_all2_lengthD[OF R(4)] by (intro kvm_inv_coordinator[OF inv]) auto
  moreover have "kvm_remove_skipped_blocks rid n k = Inr ?k"
    using R(1) by (simp add: kvm_remove_skipped_blocks_def co_remove_skipped_blocks_def with_managers_def kvm_tables_def)
  ultimately show ?thesis using R(4) by (auto simp: kvm_tables_def same_lengths_def)
qed

lemma kvm_cache_ok:
  assumes inv: "kvm_inv k" and pre: "\<forall>m\<in>set (kvm_tables k). cache_pre n 0 m r (kvm_pool k)"
  shows "\<exists>r' k'. kvm_cache_blocks u sha r n k = Inr (r', k') \<and> kvm_inv k'"
proof (cases "kvm_enable_caching k")
  case True
  from inv cache_keeps_order[OF _ pre, of u sha] obtain c ms' p' where
    R: "over_managers (co_cache_step u sha n) 0 (kvm_tables k) r (kvm_pool k) = Inr (ms', r\<lparr>embeds_hashes := c\<rparr>, p')" "managers_ok ms' p'"
      "pool_static (kvm_pool k) p'" "length ms' = length (kvm_tables k)"
    by (auto simp: kvm_inv_def kvm_ok_def)
  let ?k = "k\<lparr>coordinator := (coordinator k)\<lparr>single_type_managers := ms', block_pool := p'\<rparr>\<rparr>"
  have "kvm_inv ?k" using R by (intro kvm_inv_coordinator[OF inv]) auto
  then show ?thesis using R(1) True by (simp add: kvm_cache_blocks_def co_cache_blocks_def with_managers_def kvm_tables_def)
qed (use inv in \<open>simp add: kvm_cache_blocks_def\<close>)

lemma kvm_inv_ok: "kvm_inv k \<Longrightarrow> managers_ok (kvm_tables k) (kvm_pool k)"
  "kvm_inv k \<Longrightarrow> managers_ok (single_type_managers (coordinator k)) (kvm_pool k)"
  by (simp_all add: kvm_inv_def kvm_ok_def kvm_tables_def)

lemma kvm_admit_inv:
  assumes inv: "kvm_inv k" and "can_fit_full_sequence r ncomp ncb ext enc k = Inr (ok, k')"
  shows "kvm_inv k'"
proof -
  obtain c co where c: "co_get_num_blocks_to_allocate (request_id r) (min (num_tokens r) (kvm_max_model_len k)) (computed_block_list ncb k) enc
      (min (num_computed_tokens r + ncomp + ext) (kvm_max_model_len k)) (min (num_tokens r) (kvm_max_model_len k)) True (coordinator k) = Inr (c, co)"
    and k': "k' = k\<lparr>coordinator := co\<rparr>" using assms(2) by (auto simp: can_fit_full_sequence_def Let_def result_simps)
  show ?thesis unfolding k' using count_same[OF kvm_inv_ok(2)[OF inv] c] by (intro kvm_inv_same[OF inv]) simp_all
qed

lemma kvm_common_inv:
  assumes inv: "kvm_inv k" and "kvm_get_num_common_prefix_blocks rid k = Inr (ns, k')"
  shows "kvm_inv k'"
proof -
  obtain co where c: "co_get_num_common_prefix_blocks rid (coordinator k) = Inr (ns, co)" and k': "k' = k\<lparr>coordinator := co\<rparr>"
    using assms(2) by (auto simp: kvm_get_num_common_prefix_blocks_def result_simps)
  show ?thesis unfolding k' using common_prefix_same[OF kvm_inv_ok(2)[OF inv] c] by (intro kvm_inv_same[OF inv]) simp_all
qed

lemma kvm_reset_inv:
  assumes inv: "kvm_inv k" and "kvm_reset_prefix_cache k = Inr (ok, k')"
  shows "kvm_inv k'"
proof -
  obtain b p where rp: "reset_prefix_cache_pool (kvm_pool k) = (b, p)" by fastforce
  have "kvm_inv (set_kvm_pool p k)" by (rule kvm_inv_pool[OF inv reset_keeps_order[OF kvm_inv_ok(1)[OF inv] rp]])
  then show ?thesis using assms(2) rp by (auto simp: kvm_reset_prefix_cache_def Let_def kvm_inv_stats split: if_splits option.splits)
qed

lemma kvm_events_inv:
  assumes inv: "kvm_inv k" and "kvm_take_events k = (evs, k')"
  shows "kvm_inv k'"
proof -
  obtain es p where tp: "take_events (kvm_pool k) = (es, p)" by fastforce
  have "kvm_inv (set_kvm_pool p k)" by (rule kvm_inv_pool[OF inv take_events_keeps_order[OF kvm_inv_ok(1)[OF inv] tp]])
  then show ?thesis using assms(2) tp by (auto simp: kvm_take_events_def)
qed

lemma bookkeeping_same: "same_tables m (snd (take_new_block_ids m))" "same_tables m (new_step_starts m)"
  by (simp_all add: take_new_block_ids_def new_step_starts_def same_tables_def mgr_static_def tabs_def req_blocks_def fun_eq_iff)

lemma kvm_step_inv:
  assumes "kvm_step u sha k k'" and inv: "kvm_inv k"
  shows "kvm_inv k'"
  using assms(1)
proof cases
  case (lookup r hit)
  then show ?thesis using inv by (auto simp: get_computed_blocks_def result_simps kvm_inv_stats split: if_splits option.splits)
next
  case (allocate r num_new ncomp ncb lookahead delay enc res r')
  then show ?thesis using allocate_slots_ok[OF inv allocate(1), of u sha enc] by auto
next
  case (cache n r r')
  then show ?thesis using kvm_cache_ok[OF inv cache(1), of u sha] by auto
next
  case (recycle rid n)
  then show ?thesis using kvm_remove_ok[OF inv, of rid n] by auto
next
  case (free r)
  then show ?thesis using kvm_free_ok[OF inv, of r] by auto
next
  case (evict ids)
  then show ?thesis using evict_keeps_order[OF kvm_inv_ok(1)[OF inv] evict(1), of u] kvm_inv_pool[OF inv]
    by (auto simp: kvm_evict_blocks_def result_simps)
next
  case (new_ids ids)
  then show ?thesis using bookkeeping_same(1)
    by (auto simp: kvm_take_new_block_ids_def Let_def list_all2_map2 list_all2_refl intro!: kvm_inv_same[OF inv])
next
  case new_step
  then show ?thesis using bookkeeping_same(2)
    by (auto simp: kvm_new_step_starts_def co_new_step_starts_def list_all2_map2 list_all2_refl intro!: kvm_inv_same[OF inv])
next
  case (stats s)
  then show ?thesis using inv by (auto simp: make_prefix_cache_stats_def kvm_inv_stats split: if_splits)
qed (auto intro: inv kvm_admit_inv kvm_reset_inv kvm_common_inv kvm_events_inv)

lemma kvm_reach_inv: "kvm_reach u sha cfg k \<Longrightarrow> attention_config cfg \<Longrightarrow> kvm_inv k"
  by (induction rule: kvm_reach.induct) (auto intro: kvm_init_inv kvm_step_inv)

lemma free_list_unheld:
  assumes "ledger p H"
  obtains xs where "pool_inv p xs" "get_all_free_blocks (free_block_queue p) = Some (Inr xs)" "distinct xs"
    "set xs = {b. usable p b \<and> b \<notin># H}" "get_num_free_blocks p = int (length xs)"
proof -
  obtain xs where xs: "pool_inv p xs" using assms by (auto simp: ledger_def pool_ok_def)
  then have q: "queue_inv (free_block_queue p) xs" and s: "set xs = {b. usable p b \<and> refs p b = 0}" "distinct xs"
    by (auto simp: pool_core_def queue_inv_def)
  have "{b. usable p b \<and> refs p b = 0} = {b. usable p b \<and> b \<notin># H}"
    using assms by (auto simp: ledger_def not_in_iff)
  with s that[OF xs get_all_free_blocks_spec[OF q]] pool_free_count[OF xs] show thesis by simp
qed

lemma free_blocks_unheld:
  assumes "ledger p H"
  shows "get_num_free_blocks p = int (card {b. usable p b \<and> b \<notin># H})"
  using free_list_unheld[OF assms] distinct_card by metis

lemma in_tabs_entry: "b \<in># sum_list (map (\<lambda>e. mset (snd e)) al) \<longleftrightarrow> (\<exists>e\<in>set al. b \<in> set (snd e))"
  by (induction al) auto

lemma in_tabs:
  assumes d: "distinct (map fst (req_to_blocks m))"
  shows "b \<in># tabs m \<longleftrightarrow> (\<exists>rid. b \<in> set (req_blocks m rid))"
proof -
  have "b \<in> set (req_blocks m rid) \<longleftrightarrow> (\<exists>bs. map_of (req_to_blocks m) rid = Some bs \<and> b \<in> set bs)" for rid
    by (cases "map_of (req_to_blocks m) rid") (simp_all add: req_blocks_def)
  then have "(\<exists>rid. b \<in> set (req_blocks m rid)) \<longleftrightarrow> (\<exists>rid bs. map_of (req_to_blocks m) rid = Some bs \<and> b \<in> set bs)" by simp
  also have "\<dots> \<longleftrightarrow> (\<exists>e\<in>set (req_to_blocks m). b \<in> set (snd e))"
    unfolding map_of_eq_Some_iff[OF d] by force
  finally show ?thesis by (simp add: tabs_def in_tabs_entry)
qed

lemma in_all_tabs:
  "\<forall>m\<in>set ms. mgr_inv p m \<Longrightarrow> b \<in># all_tabs ms \<longleftrightarrow> (\<exists>m\<in>set ms. \<exists>rid. b \<in> set (req_blocks m rid))"
  by (induction ms) (auto simp: in_tabs mgr_invD(3))

section \<open>Properties\<close>

text \<open>
  C5: Take a KV cache manager whose groups are all of attention classes without sink blocks (no Mamba group),
  and any sequence of its operations in which slots are allocated without external tokens.  The reference
  count of every block but the null block is the number of times it occurs in the block tables of the
  requests, over all cache groups; the free queue lists, each once, exactly the blocks in no table; and
  when the tables hold no block, all blocks but the null block are free and resetting the prefix cache
  succeeds.
\<close>

theorem kvm_reachable_ledger:
  assumes "kvm_reach u sha cfg k" and "attention_config cfg"
  shows "(\<forall>b. usable (kvm_pool k) b \<longrightarrow> refs (kvm_pool k) b = int (count (all_tabs (kvm_tables k)) b))
    \<and> (\<exists>xs. get_all_free_blocks (free_block_queue (kvm_pool k)) = Some (Inr xs) \<and> distinct xs
         \<and> set xs = {b. usable (kvm_pool k) b \<and> b \<notin># all_tabs (kvm_tables k)}
         \<and> get_num_free_blocks (kvm_pool k) = int (length xs))
    \<and> ((\<forall>b. usable (kvm_pool k) b \<longrightarrow> b \<notin># all_tabs (kvm_tables k)) \<longrightarrow>
        get_num_free_blocks (kvm_pool k) = num_gpu_blocks (kvm_pool k) - 1
        \<and> (\<exists>k'. kvm_reset_prefix_cache k = Inr (True, k')))"
proof -
  have inv: "kvm_inv k" by (rule kvm_reach_inv[OF assms])
  have led: "ledger (kvm_pool k) (all_tabs (kvm_tables k))" using kvm_inv_ok(1)[OF inv] by (simp add: managers_ok_def)
  obtain xs where xs: "pool_inv (kvm_pool k) xs" "get_all_free_blocks (free_block_queue (kvm_pool k)) = Some (Inr xs)" "distinct xs"
    "set xs = {b. usable (kvm_pool k) b \<and> b \<notin># all_tabs (kvm_tables k)}" "get_num_free_blocks (kvm_pool k) = int (length xs)"
    by (rule free_list_unheld[OF led])
  have "get_num_free_blocks (kvm_pool k) = num_gpu_blocks (kvm_pool k) - 1 \<and> (\<exists>k'. kvm_reset_prefix_cache k = Inr (True, k'))"
    if none: "\<forall>b. usable (kvm_pool k) b \<longrightarrow> b \<notin># all_tabs (kvm_tables k)"
  proof -
    have "{b. usable (kvm_pool k) b \<and> b \<notin># all_tabs (kvm_tables k)} = {b. usable (kvm_pool k) b}" using none by auto
    then have f: "get_num_free_blocks (kvm_pool k) = num_gpu_blocks (kvm_pool k) - 1"
      using free_blocks_unheld[OF led] usable_card[of "kvm_pool k"] xs(1) by (simp add: pool_core_def)
    then have "num_gpu_blocks (kvm_pool k) = 1 + int (length xs)" using xs(5) by simp
    with reset_prefix_cache_pool_spec[OF xs(1)] obtain p' where "reset_prefix_cache_pool (kvm_pool k) = (True, p')" by auto
    with f inv show ?thesis
      by (auto simp: kvm_reset_prefix_cache_def Let_def set_kvm_pool_def kvm_inv_def)
  qed
  with xs(2-5) led show ?thesis by (auto simp: ledger_def)
qed

definition sample_config :: "KVCacheSpec list \<Rightarrow> int \<Rightarrow> KVCacheConfig" where
  "sample_config specs num = \<lparr>num_blocks = num, kv_cache_tensors = [],
     kv_cache_groups = map (\<lambda>s. \<lparr>layer_names = [''layer''], kv_cache_spec = s, is_eagle_group = False\<rparr>) specs\<rparr>"

definition sample_full :: KVCacheSpec where
  "sample_full = (sample_spec FullAttentionSpec)\<lparr>block_size := 2\<rparr>"

lemma sample_config_ok: "attention_config (sample_config [sample_full] 8)"
  by (simp add: attention_config_def sample_config_def plain_attention_spec_def sample_full_def sample_spec_def is_sliding_def)

lemma sample_kvm:
  "\<exists>k. kv_cache_manager_init (sample_config [sample_full] 8) 64 2 None True False False False 1 1 False = Inr k
     \<and> kvm_enable_caching k \<and> kvm_max_model_len k = 64 \<and> num_kv_cache_groups k = 1 \<and> hash_block_size (kvm_pool k) = 2
     \<and> num_gpu_blocks (kvm_pool k) = 8
     \<and> kvm_tables k = [single_type_init FullAttentionManager sample_full True 0 1 1 None]"
proof -
  obtain p where "block_pool_init 8 True 2 False False = Inr p" "hash_block_size p = 2" "num_gpu_blocks p = 8"
    using block_pool_init_spec[of 8 True 2 False False] by auto
  then show ?thesis
    by (simp add: kv_cache_manager_init_def get_kv_cache_coordinator_def unitary_init_def coordinator_init_def sample_config_def
        make_managers_def get_manager_for_kv_cache_spec_def sample_full_def sample_spec_def spec_manager_map_def is_sliding_def
        Let_def assert_r_def nth_r_def kvm_tables_def)
qed

lemma sample_hashed_fields:
  "num_computed_tokens (sample_hashed [1, 2, 3]) = 0" "num_tokens (sample_hashed [1, 2, 3]) = 3" "request_id (sample_hashed [1, 2, 3]) = ''r''"
  "block_hashes (sample_hashed [1, 2, 3]) = [counting_hash ([], [1, 2], None)]"
  by (simp_all add: sample_hashed_def sample_request_def request_init_def update_block_hashes_def
      length_from_prompt_token_ids_or_embeds_def num_tokens_def)

lemma sample_slots:
  assumes "kvm_tables k = [single_type_init FullAttentionManager sample_full True 0 1 1 None]" "kvm_enable_caching k" "kvm_max_model_len k = 64"
    "num_kv_cache_groups k = 1" "hash_block_size (kvm_pool k) = 2"
  shows "slots_pre (sample_hashed [1, 2, 3]) 3 0 None 1 False k"
  using assms
  by (simp add: slots_pre_def Let_def sample_hashed_fields blocks_pre_def single_type_init_def req_blocks_def hashed_up_to_def group_hashes_def
      sample_full_def sample_spec_def parallel_block_size_def)

lemma sample_kvm_free: "kv_cache_manager_init (sample_config [sample_full] 8) 64 2 None True False False False 1 1 False = Inr k \<Longrightarrow>
    kvm_tables k = [single_type_init FullAttentionManager sample_full True 0 1 1 None] \<Longrightarrow> num_gpu_blocks (kvm_pool k) = 8 \<Longrightarrow>
    get_num_free_blocks (kvm_pool k) = 7"
proof -
  assume k: "kv_cache_manager_init (sample_config [sample_full] 8) 64 2 None True False False False 1 1 False = Inr k"
    "kvm_tables k = [single_type_init FullAttentionManager sample_full True 0 1 1 None]" "num_gpu_blocks (kvm_pool k) = 8"
  have "ledger (kvm_pool k) {#}"
    using kvm_inv_ok(1)[OF kvm_init_inv[OF sample_config_ok k(1)]] k(2) by (simp add: managers_ok_def tabs_def single_type_init_def)
  moreover from this obtain xs where "pool_inv (kvm_pool k) xs" by (auto simp: ledger_def pool_ok_def)
  ultimately show ?thesis using free_blocks_unheld[of "kvm_pool k" "{#}"] usable_card[of "kvm_pool k"] k(3) by (simp add: pool_core_def)
qed

lemma sample_not_refused:
  assumes "kvm_tables k = [single_type_init FullAttentionManager sample_full True 0 1 1 None]" "get_num_free_blocks (kvm_pool k) = 7"
    "kvm_max_model_len k = 64" "num_kv_cache_groups k = 1"
    "allocate_slots u sha (sample_hashed [1, 2, 3]) 3 0 None 1 0 False 0 k = Inr (res, r', k')"
  shows "res \<noteq> None"
proof -
  define m0 where "m0 = single_type_init FullAttentionManager sample_full True 0 1 1 None"
  define co where "co = (coordinator k)\<lparr>single_type_managers := [m0], block_pool := kvm_pool k\<rparr>"
  have m0: "stm_class m0 = FullAttentionManager" "stm_block_size m0 = 2" "req_blocks m0 rid = []" "num_cached_block m0 rid = None"
      "max_admission_blocks_per_request m0 = None" for rid
    by (simp_all add: m0_def single_type_init_def sample_full_def sample_spec_def parallel_block_size_def req_blocks_def)
  have ms: "single_type_managers (coordinator k) = [m0]" using assms(1) by (simp add: kvm_tables_def m0_def)
  have E1: "co_remove_skipped_blocks rid 0 (coordinator k) = Inr ((), co)" for rid
    by (simp add: co_remove_skipped_blocks_def with_managers_def ms co_remove_step_def remove_skipped_blocks_def
        base_remove_skipped_blocks_def get_num_skipped_tokens_def m0 co_def)
  have E2: "co_get_num_blocks_to_allocate rid 4 [[]] 0 0 3 False co = Inr (2, co)" for rid
    by (simp add: co_get_num_blocks_to_allocate_def with_managers_def co_num_blocks_step_def get_num_blocks_to_allocate_def
        base_num_blocks_to_allocate_def get_num_skipped_tokens_def m0 co_def nth_r_def cdiv_def get_num_evictable_blocks_def Let_def)
  have "computed_block_list None k = [[]]" using assms(4) by (simp add: computed_block_list_def blocks_of_def)
  with assms(5) show ?thesis
    by (simp add: allocate_slots_def Let_def sample_hashed_fields assms(2,3) E1 E2 guard_r_def co_def[symmetric])
      (auto simp: result_simps co_def assms(2) split: if_splits)
qed

text \<open>A reachable state in which a request holds blocks.\<close>

lemma sample_granted:
  "\<exists>k res r' k' m. allocate_slots True (\<lambda>b. b) (sample_hashed [1, 2, 3]) 3 0 None 1 0 False 0 k = Inr (Some res, r', k')
     \<and> kvm_reach True (\<lambda>b. b) (sample_config [sample_full] 8) k \<and> kvm_reach True (\<lambda>b. b) (sample_config [sample_full] 8) k'
     \<and> slots_pre (sample_hashed [1, 2, 3]) 3 0 None 1 False k
     \<and> kvm_tables k' = [m] \<and> 2 \<le> length (req_blocks m ''r'')"
proof -
  obtain k where k: "kv_cache_manager_init (sample_config [sample_full] 8) 64 2 None True False False False 1 1 False = Inr k"
    "kvm_tables k = [single_type_init FullAttentionManager sample_full True 0 1 1 None]" "kvm_enable_caching k" "kvm_max_model_len k = 64"
    "num_kv_cache_groups k = 1" "hash_block_size (kvm_pool k) = 2" "num_gpu_blocks (kvm_pool k) = 8"
    using sample_kvm by blast
  note pre = sample_slots[OF k(2-6)] and reach = kvm_reach.start[OF k(1)]
  have b: "stm_block_size (single_type_init FullAttentionManager sample_full True 0 1 1 None) = 2"
    "stm_class (single_type_init FullAttentionManager sample_full True 0 1 1 None) = FullAttentionManager"
    by (simp_all add: single_type_init_def sample_full_def sample_spec_def parallel_block_size_def)
  have four: "min (min (0 + 0) 64 + 3 + 1) 64 = (4 :: int)" by simp
  from allocate_slots_ok[OF kvm_init_inv[OF sample_config_ok k(1)] pre, of True "\<lambda>b. b" 0] obtain res r' k' where
    R: "allocate_slots True (\<lambda>b. b) (sample_hashed [1, 2, 3]) 3 0 None 1 0 False 0 k = Inr (res, r', k')"
    "case res of None \<Rightarrow> same_lengths ''r'' (kvm_tables k) (kvm_tables k') | Some _ \<Rightarrow> granted ''r'' 4 0 (kvm_tables k) (kvm_tables k')"
    unfolding sample_hashed_fields k(4) four by (elim exE conjE) (rule that; assumption)
  then obtain bs where res: "res = Some bs" using sample_not_refused[OF k(2) sample_kvm_free[OF k(1,2,7)] k(4,5) R(1)] by auto
  have "kvm_reach True (\<lambda>b. b) (sample_config [sample_full] 8) k'"
    by (rule kvm_reach.step[OF reach kvm_step.allocate[OF pre R(1)]])
  moreover obtain m where "kvm_tables k' = [m]" "cdiv 4 2 \<le> int (length (req_blocks m ''r''))"
    using R(2) by (auto simp: res granted_def k(2) list_all2_Cons1 b slots_for_def)
  ultimately show ?thesis using R(1) res reach pre by (fastforce simp: cdiv_def)
qed

theorem kvm_reachable_ledger_witness:
  "\<exists>k m xs. kvm_reach True (\<lambda>b. b) (sample_config [sample_full] 8) k \<and> kvm_tables k = [m] \<and> 2 \<le> length (req_blocks m ''r'')
     \<and> get_all_free_blocks (free_block_queue (kvm_pool k)) = Some (Inr xs) \<and> set xs = {b. usable (kvm_pool k) b \<and> b \<notin># tabs m}"
proof -
  obtain k m where k: "kvm_reach True (\<lambda>b. b) (sample_config [sample_full] 8) k" "kvm_tables k = [m]" "2 \<le> length (req_blocks m ''r'')"
    using sample_granted by (elim exE conjE) (rule that; assumption)
  from kvm_reachable_ledger[OF k(1) sample_config_ok] k show ?thesis by auto
qed

text \<open>
  C6: In every such state, allocating slots without external tokens never raises: with what the scheduler
  owes the call (\<open>slots_pre\<close>), it either answers None and no table has changed its length, or every cache group's table of
  the request reaches the requested number of tokens (look-ahead included, capped by the model length).  The
  tables of the other requests are untouched, and the reference counts still match the tables.
\<close>

theorem allocate_slots_all_or_nothing:
  assumes "kvm_reach u sha cfg k" and "attention_config cfg" and "slots_pre r num_new ncomp ncb lookahead delay k"
  shows "\<exists>res r' k'. allocate_slots u sha r num_new ncomp ncb lookahead 0 delay enc k = Inr (res, r', k')
    \<and> (\<forall>b. usable (kvm_pool k') b \<longrightarrow> refs (kvm_pool k') b = int (count (all_tabs (kvm_tables k')) b))
    \<and> list_all2 (\<lambda>m m'.
         (if res = None then \<forall>rid. length (req_blocks m' rid) = length (req_blocks m rid)
          else cdiv (if stm_class m = CrossAttentionManager then enc
                     else min (min (num_computed_tokens r + ncomp) (kvm_max_model_len k) + num_new + lookahead) (kvm_max_model_len k))
                 (stm_block_size m) \<le> int (length (req_blocks m' (request_id r))))
         \<and> (\<forall>rid. rid \<noteq> request_id r \<longrightarrow> req_blocks m' rid = req_blocks m rid)) (kvm_tables k) (kvm_tables k')"
proof -
  from allocate_slots_ok[OF kvm_reach_inv[OF assms(1,2)] assms(3), of u sha enc] obtain res r' k' where
    R: "allocate_slots u sha r num_new ncomp ncb lookahead 0 delay enc k = Inr (res, r', k')" "kvm_inv k'"
    "case res of None \<Rightarrow> same_lengths (request_id r) (kvm_tables k) (kvm_tables k')
       | Some _ \<Rightarrow> granted (request_id r) (min (min (num_computed_tokens r + ncomp) (kvm_max_model_len k) + num_new + lookahead) (kvm_max_model_len k))
           enc (kvm_tables k) (kvm_tables k')" by blast
  have "ledger (kvm_pool k') (all_tabs (kvm_tables k'))" using kvm_inv_ok(1)[OF R(2)] by (simp add: managers_ok_def)
  with R(1,3) show ?thesis
    by (intro exI[of _ res] exI[of _ r'] exI[of _ k'])
      (auto simp: ledger_def same_lengths_def granted_def remove_post_def slots_for_def elim!: list_all2_mono split: option.splits)
qed

theorem allocate_slots_all_or_nothing_witness:
  "\<exists>k res r' k'. allocate_slots True (\<lambda>b. b) (sample_hashed [1, 2, 3]) 3 0 None 1 0 False 0 k = Inr (Some res, r', k')
     \<and> 2 \<le> length (req_blocks (hd (kvm_tables k')) ''r'') \<and> req_blocks (hd (kvm_tables k')) ''s'' = req_blocks (hd (kvm_tables k)) ''s''"
proof -
  obtain k res r' k' m where k: "allocate_slots True (\<lambda>b. b) (sample_hashed [1, 2, 3]) 3 0 None 1 0 False 0 k = Inr (Some res, r', k')"
    "kvm_reach True (\<lambda>b. b) (sample_config [sample_full] 8) k" "slots_pre (sample_hashed [1, 2, 3]) 3 0 None 1 False k"
    "kvm_tables k' = [m]" "2 \<le> length (req_blocks m ''r'')"
    using sample_granted by (elim exE conjE) (rule that; assumption)
  from allocate_slots_all_or_nothing[OF k(2) sample_config_ok k(3), of 0] k(1)
  have "list_all2 (\<lambda>m m'. req_blocks m' ''s'' = req_blocks m ''s'') (kvm_tables k) (kvm_tables k')"
    by (auto simp: sample_hashed_fields elim!: list_all2_mono)
  with k(4) have "req_blocks (hd (kvm_tables k')) ''s'' = req_blocks (hd (kvm_tables k)) ''s''" by (auto simp: list_all2_Cons2)
  with k show ?thesis by (intro exI[of _ k] exI[of _ res] exI[of _ r'] exI[of _ k']) simp
qed

text \<open>
  C7: Freeing a request always succeeds in every such state.  The request has no table any more in any
  cache group, the tables of the others are untouched, and the free blocks are then exactly those that no
  other request holds: nothing leaks and nothing shared is lost.
\<close>

theorem kvm_free_releases:
  assumes "kvm_reach u sha cfg k" and "attention_config cfg"
  shows "\<exists>k'. kvm_free r k = Inr k' \<and> kvm_reach u sha cfg k'
    \<and> list_all2 (\<lambda>m m'. req_blocks m' (request_id r) = [] \<and> num_cached_block m' (request_id r) = None
         \<and> (\<forall>rid. rid \<noteq> request_id r \<longrightarrow> req_blocks m' rid = req_blocks m rid)) (kvm_tables k) (kvm_tables k')
    \<and> get_num_free_blocks (kvm_pool k') = int (card {b. usable (kvm_pool k') b
         \<and> (\<forall>m\<in>set (kvm_tables k). \<forall>rid. b \<in> set (req_blocks m rid) \<longrightarrow> rid = request_id r)})"
proof -
  from kvm_free_ok[OF kvm_reach_inv[OF assms], of r] obtain k' where k': "kvm_free r k = Inr k'" "kvm_inv k'"
    "list_all2 (\<lambda>m m'. mgr_static m m' \<and> free_post (request_id r) m m') (kvm_tables k) (kvm_tables k')" by blast
  have led: "ledger (kvm_pool k') (all_tabs (kvm_tables k'))" and mi: "\<forall>m\<in>set (kvm_tables k'). mgr_inv (kvm_pool k') m"
    using kvm_inv_ok(1)[OF k'(2)] by (auto simp: managers_ok_def)
  have "b \<notin># all_tabs (kvm_tables k') \<longleftrightarrow> (\<forall>m\<in>set (kvm_tables k). \<forall>rid. b \<in> set (req_blocks m rid) \<longrightarrow> rid = request_id r)" for b
    unfolding in_all_tabs[OF mi] using k'(3)
    by (auto simp: list_all2_conv_all_nth free_post_def all_set_conv_all_nth) (metis empty_iff empty_set)+
  with free_blocks_unheld[OF led] have "get_num_free_blocks (kvm_pool k') = int (card {b. usable (kvm_pool k') b
      \<and> (\<forall>m\<in>set (kvm_tables k). \<forall>rid. b \<in> set (req_blocks m rid) \<longrightarrow> rid = request_id r)})" by simp
  moreover have "kvm_reach u sha cfg k'" by (rule kvm_reach.step[OF assms(1) kvm_step.free[OF k'(1)]])
  ultimately show ?thesis using k'(1,3) by (auto simp: free_post_def elim!: list_all2_mono)
qed

theorem kvm_free_releases_witness:
  "\<exists>k m k' m'. kvm_tables k = [m] \<and> 2 \<le> length (req_blocks m ''r'')
     \<and> kvm_free (sample_hashed [1, 2, 3]) k = Inr k' \<and> kvm_tables k' = [m'] \<and> req_blocks m' ''r'' = []"
proof -
  obtain k m where k: "kvm_reach True (\<lambda>b. b) (sample_config [sample_full] 8) k" "kvm_tables k = [m]" "2 \<le> length (req_blocks m ''r'')"
    using sample_granted by (elim exE conjE) (rule that; assumption)
  from kvm_free_releases[OF k(1) sample_config_ok, of "sample_hashed [1, 2, 3]"] obtain k' where
    k': "kvm_free (sample_hashed [1, 2, 3]) k = Inr k'" "\<exists>m'. kvm_tables k' = [m'] \<and> req_blocks m' ''r'' = []"
    unfolding k(2) list_all2_Cons1 sample_hashed_fields by auto
  then show ?thesis using k(2,3) by blast
qed

end
