(* ===== verification/Hybrid_Hits.thy ===== *)
theory Hybrid_Hits
  imports KV_Invariants
begin

text \<open>
  The prefix-cache lookup over several kinds of attention (\<open>HybridKVCacheCoordinator\<close> of
  \<open>vllm/v1/core/kv_cache_coordinator.py\<close>).  The fixed-point loop ends within the fuel its model is given,
  whatever the groups; with full and sliding-window attention the length it returns is covered by the
  blocks of every group.  Examples show where the code promises more than it does.
\<close>

section \<open>Loops that end\<close>

definition ends :: "'a result \<Rightarrow> bool" where
  "ends m \<longleftrightarrow> m \<noteq> Inl NonTermination"

named_theorems ends_intros \<open>computations whose result is not the exhaustion of fuel\<close>

lemma ends_value [ends_intros]: "ends (Inr a)"
  by (simp add: ends_def)

lemma ends_bind [ends_intros]: "ends m \<Longrightarrow> (\<And>a. m = Inr a \<Longrightarrow> ends (f a)) \<Longrightarrow> ends (bind_r m f)"
  by (cases m) (auto simp: ends_def)

lemma ends_map [ends_intros]: "ends m \<Longrightarrow> ends (map_r f m)"
  by (cases m) (auto simp: ends_def)

lemma ends_errors [ends_intros]: "ends (assert_r b)" "ends (nth_r xs i)" "ends (pop_each cs)" "ends (to_bytes_big i n)"
  "ends (Inl TypeError)" "ends (Inl NotImplementedError)" "ends (guard_r b ValueError)" "ends (guard_r b ZeroDivisionError)"
  by (simp_all add: ends_def assert_r_def nth_r_def pop_each_def to_bytes_big_def guard_r_def)

lemma ends_get_one_block [ends_intros]: "ends (get_one_block c key)"
  by (auto simp: get_one_block_def ends_def split: option.splits Hash_Map.KVCacheBlocks.splits list.splits)

lemma ends_get_cached_block [ends_intros]: "ends (get_cached_block h gids p)"
  by (induction gids) (auto simp: get_cached_block.simps make_block_hash_with_group_id_def intro!: ends_intros split: option.splits)

lemma ends_hashes_at [ends_intros]: "ends (hashes_at hashes i)"
  by (cases hashes) (auto intro: ends_intros)

lemma ends_realign [ends_intros]: "ends (realign bsz align cs)"
proof (induction bsz align cs rule: realign.induct)
  case (1 bsz align cs)
  then show ?case by (subst realign.simps) (auto intro!: ends_intros)
qed

lemma ends_full_loop [ends_intros]: "ends (full_hit_loop hs gids p cs)"
  by (induction hs arbitrary: cs) (auto intro!: ends_intros split: option.splits list.splits)

lemma ends_sliding_loop [ends_intros]: "ends (sliding_hit_loop n hashes gids p bsz e align need k cs)"
  by (induction n arbitrary: k cs) (auto simp: Let_def intro!: ends_intros split: option.splits list.splits)

lemma ends_chunked_loop [ends_intros]: "ends (chunked_hit_loop idxs hashes gids p cs)"
  by (induction idxs arbitrary: cs) (auto intro!: ends_intros split: option.splits list.splits)

lemma ends_mamba_loop [ends_intros]: "ends (mamba_hit_loop n hashes gids p bsz align cs)"
  by (induction n arbitrary: cs) (auto intro!: ends_intros split: option.splits list.splits)

lemma ends_find [ends_intros]: "ends (find_longest_cache_hit cls hashes len gids p s e align dcp pcp)"
  by (cases cls) (auto simp: find_longest_cache_hit_def full_find_longest_cache_hit_def sliding_find_longest_cache_hit_def
      chunked_find_longest_cache_hit_def mamba_find_longest_cache_hit_def cross_find_longest_cache_hit_def eagle_drop_def Let_def
      intro!: ends_intros split: option.splits)

lemma ends_group_step: "ends (hybrid_group_step hs max_len co ig st)"
  by (auto simp: hybrid_group_step_def get_block_hashes_for_def bhl_init_def Let_def intro!: ends_intros split: prod.splits)

lemma ends_fold: "(\<And>x s. ends (f x s)) \<Longrightarrow> ends (fold_r f xs s)"
  by (induction xs arbitrary: s) (auto intro!: ends_intros)

text \<open>Hit lengths are never negative.\<close>

definition sizes_ok :: "KVCacheCoordinator \<Rightarrow> bool" where
  "sizes_ok co \<longleftrightarrow> (\<forall>(s, _)\<in>set (attention_groups co). 0 < block_size s)"

lemma group_step_nonneg:
  assumes "hybrid_group_step hs max_len co (i, s, gids, cls) (c, v, hb) = Inr (c', v', hb')" and "0 < block_size s" and "0 \<le> c"
  shows "0 \<le> c'"
  using assms by (auto simp: hybrid_group_step_def Let_def result_simps pos_imp_zdiv_nonneg_iff split: if_splits)

lemma pass_nonneg:
  assumes "fold_r (hybrid_group_step hs max_len co) (enumerate_from i gs) (c, v, hb) = Inr (c', v', hb')"
    and "\<forall>(s, _)\<in>set gs. 0 < block_size s" and "0 \<le> c"
  shows "0 \<le> c'"
  using assms
proof (induction gs arbitrary: i c v hb)
  case (Cons g gs)
  obtain s gids cls where g: "g = (s, gids, cls)" by (cases g)
  from Cons.prems(1) obtain c1 v1 hb1 where st: "hybrid_group_step hs max_len co (i, s, gids, cls) (c, v, hb) = Inr (c1, v1, hb1)"
    "fold_r (hybrid_group_step hs max_len co) (enumerate_from (i + 1) gs) (c1, v1, hb1) = Inr (c', v', hb')"
    by (auto simp: g result_simps)
  have "0 \<le> c1" using group_step_nonneg[OF st(1)] Cons.prems g by auto
  with Cons.IH[OF st(2)] Cons.prems show ?case by auto
qed simp

lemma hybrid_loop_ends:
  assumes "sizes_ok co" and "0 \<le> c" and "nat c < fuel" and "nat c < fuel'"
  shows "ends (hybrid_loop fuel hs max_len co (c, v, hb)) \<and> hybrid_loop fuel' hs max_len co (c, v, hb) = hybrid_loop fuel hs max_len co (c, v, hb)"
  using assms(2-4)
proof (induction fuel arbitrary: fuel' c v hb)
  case (Suc n)
  then obtain n' where n': "fuel' = Suc n'" by (cases fuel') auto
  let ?pass = "fold_r (hybrid_group_step hs max_len co) (enumerate_from 0 (attention_groups co)) (c, v, hb)"
  show ?case
  proof (cases ?pass)
    case (Inl e)
    moreover have "ends ?pass" by (rule ends_fold) (rule ends_group_step)
    ultimately show ?thesis by (auto simp: n' ends_def)
  next
    case (Inr st)
    obtain c1 v1 hb1 where st: "st = (c1, v1, hb1)" by (cases st)
    have "0 \<le> c1" using pass_nonneg[OF Inr[unfolded st]] assms(1) Suc.prems by (auto simp: sizes_ok_def)
    with Suc.IH[of c1 n' v1 hb1] Suc.prems Inr show ?thesis by (auto simp: n' st ends_intros)
  qed
qed simp

section \<open>What the groups agree on\<close>

text \<open>The hashes a group reads, the columns found for it, and what it means that they cover \<open>n\<close> tokens.\<close>

definition group_hash_list :: "bytes list \<Rightarrow> KVCacheCoordinator \<Rightarrow> KVCacheSpec \<Rightarrow> bytes list" where
  "group_hash_list hs co s = (case get_block_hashes_for hs s co of Inl _ \<Rightarrow> [] | Inr h \<Rightarrow> hashes_iter h)"

definition columns :: "int list \<Rightarrow> block_ref list option list \<Rightarrow> block_ref list list" where
  "columns gids hb = map (\<lambda>g. case hb ! nat g of None \<Rightarrow> [] | Some c \<Rightarrow> c) gids"

definition covers :: "BlockPool \<Rightarrow> bytes list \<Rightarrow> KVCacheSpec \<Rightarrow> int list \<Rightarrow> block_ref list list \<Rightarrow> int \<Rightarrow> bool" where
  "covers p hs s gids cs n \<longleftrightarrow>
     (if is_full s then \<exists>L. n \<le> int L * block_size s \<and> n mod block_size s = 0 \<and> prefix_hit p gids hs L cs
      else \<exists>L. n = int L * block_size s
        \<and> window_hit p gids hs (nat (cdiv (case sliding_window s of None \<Rightarrow> 0 | Some w \<Rightarrow> w - 1) (block_size s))) L cs)"

text \<open>Groups of full and sliding-window attention whose hashes reach to \<open>max_len\<close>.\<close>

definition group_ok :: "bytes list \<Rightarrow> int \<Rightarrow> KVCacheCoordinator \<Rightarrow> attention_group \<Rightarrow> bool" where
  "group_ok hs max_len co g \<longleftrightarrow> (case g of (s, gids, cls) \<Rightarrow>
     groups_ok gids \<and> distinct gids \<and> (\<forall>i\<in>set gids. i < int (length (kv_cache_groups (co_config co))))
     \<and> 0 < block_size s \<and> block_size s dvd lcm_block_size co
     \<and> (is_full s \<and> cls \<in> {FullAttentionManager, SinkFullAttentionManager}
        \<or> is_sliding s \<and> cls = SlidingWindowManager \<and> (\<exists>w\<ge>1. sliding_window s = Some w))
     \<and> (\<exists>h. get_block_hashes_for hs s co = Inr h) \<and> max_len div block_size s \<le> int (length (group_hash_list hs co s)))"

lemma set_group_blocks_frame: "\<forall>g\<in>set gids. 0 \<le> g \<Longrightarrow> 0 \<le> i \<Longrightarrow> i \<notin> set gids \<Longrightarrow> set_group_blocks gids hit hb ! nat i = hb ! nat i"
  "length (set_group_blocks gids hit hb) = length hb"
  unfolding set_group_blocks_def by (induction gids hit arbitrary: hb rule: list_induct2') auto

lemma set_group_blocks_columns:
  assumes "length hit = length gids" and "distinct gids" and "\<forall>g\<in>set gids. 0 \<le> g \<and> g < int (length hb)"
  shows "columns gids (set_group_blocks gids hit hb) = hit \<and> (\<forall>g\<in>set gids. set_group_blocks gids hit hb ! nat g \<noteq> None)"
  using assms
proof (induction gids hit arbitrary: hb rule: list_induct2')
  case (4 g gids c hit)
  let ?hb = "hb[nat g := Some c]"
  have eq: "set_group_blocks (g # gids) (c # hit) hb = set_group_blocks gids hit ?hb" by (simp add: set_group_blocks_def)
  have "set_group_blocks gids hit ?hb ! nat g = ?hb ! nat g" using 4 by (intro set_group_blocks_frame) auto
  with 4 show ?case unfolding eq by (auto simp: columns_def)
qed (auto simp: columns_def)

lemma columns_frame: "\<forall>g\<in>set gids. hb' ! nat g = hb ! nat g \<Longrightarrow> columns gids hb' = columns gids hb"
  by (simp add: columns_def)

lemma covers_full_mono: "covers p hs s gids cs n \<Longrightarrow> is_full s \<Longrightarrow> m \<le> n \<Longrightarrow> m mod block_size s = 0 \<Longrightarrow> covers p hs s gids cs m"
  unfolding covers_def by (meson order_trans)

lemma prefix_hit_more: "prefix_hit p gids (take k hs) m cs \<Longrightarrow> prefix_hit p gids hs m cs"
  by (auto simp: prefix_hit_def)

lemma aligned_mult: "aligned bsz align L \<Longrightarrow> int L * bsz mod align = 0"
  by (auto simp: aligned_def)

lemma full_group_find:
  assumes inv: "pool_inv (block_pool co) xs" and g: "group_ok hs max_len co (s, gids, cls)" and s: "is_full s"
    and h: "get_block_hashes_for hs s co = Inr h" and len: "0 \<le> len"
  shows "\<exists>cs L. find_longest_cache_hit cls h len gids (block_pool co) s e (lcm_block_size co) 1 1 = Inr cs
    \<and> covers (block_pool co) (group_hash_list hs co s) s gids cs (int L * block_size s) \<and> length cs = length gids
    \<and> (\<forall>c\<in>set cs. length c = L) \<and> int L * block_size s mod lcm_block_size co = 0 \<and> (L = 0 \<or> int L + of_bool e \<le> len div block_size s)"
proof -
  have b: "0 < block_size s" "groups_ok gids" and cls: "cls \<in> {FullAttentionManager, SinkFullAttentionManager}"
    using g s by (auto simp: group_ok_def is_full_def is_sliding_def)
  have ps: "parallel_block_size (block_size s) 1 1 = block_size s" by (simp add: parallel_block_size_def)
  let ?hs = "take (nat (len div block_size s)) (hashes_iter h)"
  obtain cs m where cs: "full_find_longest_cache_hit h len gids (block_pool co) s e (lcm_block_size co) 1 1 = Inr cs"
    "prefix_hit (block_pool co) gids ?hs m cs" "m \<le> length (takeWhile (row_cached (block_pool co) gids) ?hs) - of_bool e"
    "aligned (block_size s) (lcm_block_size co) m"
    using full_find_spec[OF inv b(2), where s = s and max_length = len and dcp = 1 and pcp = 1 and hashes = h and e = e
        and align = "lcm_block_size co"] s b len unfolding ps by (auto simp: pos_imp_zdiv_nonneg_iff)
  have "length (takeWhile (row_cached (block_pool co) gids) ?hs) \<le> nat (len div block_size s)"
    using length_takeWhile_le[of "row_cached (block_pool co) gids" ?hs] by simp
  then have "m = 0 \<or> int m + of_bool e \<le> len div block_size s" using cs(3) by (cases e) auto
  moreover have "covers (block_pool co) (group_hash_list hs co s) s gids cs (int m * block_size s)"
    using prefix_hit_more[OF cs(2)] s by (auto simp: covers_def group_hash_list_def h)
  moreover have "length cs = length gids" "\<forall>c\<in>set cs. length c = m"
    using cs(2) prefix_hit_lengths[OF cs(2)] by (auto simp: prefix_hit_def)
  ultimately show ?thesis using cs(1) aligned_mult[OF cs(4)] cls by (intro exI[of _ cs] exI[of _ m]) (auto simp: find_longest_cache_hit_def)
qed

lemma sliding_group_find:
  assumes inv: "pool_inv (block_pool co) xs" and g: "group_ok hs max_len co (s, gids, cls)" and s: "\<not> is_full s"
    and h: "get_block_hashes_for hs s co = Inr h" and len: "0 \<le> len" "len \<le> max_len"
  shows "\<exists>cs L. find_longest_cache_hit cls h len gids (block_pool co) s e (lcm_block_size co) 1 1 = Inr cs
    \<and> covers (block_pool co) (group_hash_list hs co s) s gids cs (int L * block_size s) \<and> length cs = length gids
    \<and> (\<forall>c\<in>set cs. length c = L) \<and> int L * block_size s mod lcm_block_size co = 0 \<and> (L = 0 \<or> int L + of_bool e \<le> len div block_size s)"
proof -
  obtain w where b: "0 < block_size s" "groups_ok gids" "cls = SlidingWindowManager" "is_sliding s" "sliding_window s = Some w" "1 \<le> w"
    "max_len div block_size s \<le> int (length (hashes_iter h))"
    using g s by (auto simp: group_ok_def group_hash_list_def h)
  have "len div block_size s \<le> int (length (hashes_iter h))" using zdiv_mono1[OF len(2) b(1)] b(7) by linarith
  from sliding_find_spec[OF inv b(2,4-6,1) len(1) this, of e "lcm_block_size co"] obtain cs L where
    cs: "sliding_find_longest_cache_hit h len gids (block_pool co) s e (lcm_block_size co) 1 1 = Inr cs"
    "window_hit (block_pool co) gids (hashes_iter h) (nat (cdiv (w - 1) (block_size s))) L cs"
    "aligned (block_size s) (lcm_block_size co) L" "L = 0 \<or> int L + of_bool e \<le> len div block_size s" by (elim exE conjE) (rule that; assumption)
  moreover have "covers (block_pool co) (group_hash_list hs co s) s gids cs (int L * block_size s)"
    using cs(2) s b(5) by (auto simp: covers_def group_hash_list_def h)
  moreover have "length cs = length gids" "\<forall>c\<in>set cs. length c = L"
    using cs(2) window_hit_lengths[OF cs(2)] by (auto simp: window_hit_def)
  ultimately show ?thesis using aligned_mult[OF cs(3)] b(3)
    by (intro exI[of _ cs] exI[of _ L]) (simp add: find_longest_cache_hit_def)
qed

lemma group_find:
  assumes "pool_inv (block_pool co) xs" and "group_ok hs max_len co (s, gids, cls)"
    and "get_block_hashes_for hs s co = Inr h" and "0 \<le> len" "len \<le> max_len"
  obtains cs L where "find_longest_cache_hit cls h len gids (block_pool co) s e (lcm_block_size co) 1 1 = Inr cs"
    "covers (block_pool co) (group_hash_list hs co s) s gids cs (int L * block_size s)" "length cs = length gids"
    "\<forall>c\<in>set cs. length c = L" "int L * block_size s mod lcm_block_size co = 0" "L = 0 \<or> int L + of_bool e \<le> len div block_size s"
proof (cases "is_full s")
  case True
  from full_group_find[OF assms(1,2) True assms(3,4), of e] show thesis by (elim exE conjE) (rule that; assumption)
next
  case False
  from sliding_group_find[OF assms(1,2) False assms(3-5), of e] show thesis by (elim exE conjE) (rule that; assumption)
qed

lemma le_mult_div: "0 < (b :: int) \<Longrightarrow> int L + of_bool e \<le> (if e then min (c + b) m else c) div b \<Longrightarrow> int L * b \<le> c"
  using le_div_iff_int[of b "int L + of_bool e" "if e then min (c + b) m else c"] by (auto simp: algebra_simps split: if_splits)

text \<open>One group: the length does not grow, and its columns cover the new length.\<close>

definition group_covers :: "bytes list \<Rightarrow> KVCacheCoordinator \<Rightarrow> block_ref list option list \<Rightarrow> attention_group \<Rightarrow> int \<Rightarrow> bool" where
  "group_covers hs co hb g n \<longleftrightarrow> (case g of (s, gids, _) \<Rightarrow>
     covers (block_pool co) (group_hash_list hs co s) s gids (columns gids hb) n)"

lemma group_covers_group [simp]:
  "group_covers hs co hb (s, gids, cls) n = covers (block_pool co) (group_hash_list hs co s) s gids (columns gids hb) n"
  by (simp add: group_covers_def)

lemma group_covers_mono:
  assumes "group_covers hs co hb g n" and "is_full (fst g)" and "c \<le> n" and "group_ok hs max_len co g" "c mod lcm_block_size co = 0"
  shows "group_covers hs co hb g c"
proof -
  obtain s gids cls where g: "g = (s, gids, cls)" by (cases g)
  have "c mod block_size s = 0" using assms(4,5) by (auto simp: g group_ok_def mod_eq_0_iff_dvd intro: dvd_trans)
  with assms(1-3) covers_full_mono[of _ _ s gids _ n c] show ?thesis by (simp add: g)
qed

lemma group_step_spec:
  assumes inv: "pool_inv (block_pool co) xs" and g: "group_ok hs max_len co (s, gids, cls)" and c: "0 \<le> c" "c \<le> max_len"
    and hb: "length hb = length (kv_cache_groups (co_config co))"
    and known: "is_full s \<and> hb ! nat (hd gids) \<noteq> None \<Longrightarrow> group_covers hs co hb (s, gids, cls) c \<and> c mod lcm_block_size co = 0"
  shows "\<exists>c' v' hb'. hybrid_group_step hs max_len co (i, s, gids, cls) (c, v, hb) = Inr (c', v', hb') \<and> 0 \<le> c' \<and> c' \<le> c
    \<and> c' mod lcm_block_size co = 0 \<and> group_covers hs co hb' (s, gids, cls) c' \<and> length hb' = length hb
    \<and> (\<forall>j\<ge>0. j \<notin> set gids \<longrightarrow> hb' ! nat j = hb ! nat j)"
proof -
  have G: "gids \<noteq> []" "\<forall>j\<in>set gids. 0 \<le> j \<and> j < int (length hb)" "distinct gids" "0 < block_size s" "block_size s dvd lcm_block_size co"
    using g hb by (auto simp: group_ok_def groups_ok_def)
  have nth: "nth_r gids 0 = Inr (hd gids)" "nth_r hb (hd gids) = Inr (hb ! nat (hd gids))"
    using G(1,2) by (cases gids; auto simp: nth_r_def)+
  show ?thesis
  proof (cases "is_full s \<and> hb ! nat (hd gids) \<noteq> None")
    case True
    with known have k: "group_covers hs co hb (s, gids, cls) c" "c mod lcm_block_size co = 0" by auto
    have "c mod block_size s = 0" using k(1) True by (auto simp: covers_def)
    then have "c div block_size s * block_size s = c" by (simp add: mod_eq_0_iff_dvd)
    then show ?thesis using True nth k c by (simp add: hybrid_group_step_def)
  next
    case False
    define e where "e = (i \<in> eagle_attn_group_indices co \<and> i \<notin> v)"
    define len where "len = (if e then min (c + block_size s) max_len else c)"
    have len: "0 \<le> len" "len \<le> max_len" using c G(4) by (auto simp: len_def)
    obtain h where h: "get_block_hashes_for hs s co = Inr h" using g by (auto simp: group_ok_def)
    obtain cs L where cs: "find_longest_cache_hit cls h len gids (block_pool co) s e (lcm_block_size co) 1 1 = Inr cs"
      "covers (block_pool co) (group_hash_list hs co s) s gids cs (int L * block_size s)" "length cs = length gids"
      "\<forall>c\<in>set cs. length c = L" "int L * block_size s mod lcm_block_size co = 0" "L = 0 \<or> int L + of_bool e \<le> len div block_size s"
      by (rule group_find[OF inv g h len])
    have hd: "nth_r cs 0 = Inr (hd cs)" "length (hd cs) = L" using cs(3,4) G(1) by (cases cs; auto simp: nth_r_def)+
    have "int L * block_size s \<le> c" using cs(6) le_mult_div[OF G(4), of L e c max_len] c(1) by (auto simp: len_def)
    moreover have "0 \<le> int L * block_size s" using G(4) by simp
    moreover note set_group_blocks_columns[OF cs(3) G(3,2)]
    moreover have "\<forall>j\<ge>0. j \<notin> set gids \<longrightarrow> set_group_blocks gids cs hb ! nat j = hb ! nat j" "length (set_group_blocks gids cs hb) = length hb"
      using set_group_blocks_frame G(2) by auto
    ultimately show ?thesis using False nth h cs(1,2,5) hd G(2)
      by (auto simp: hybrid_group_step_def e_def[symmetric] len_def[symmetric] Let_def)
  qed
qed

text \<open>One pass over all groups.  Every group covers the length it had answered; the last one covers the
  length of the pass.\<close>

definition disjoint_groups :: "attention_group list \<Rightarrow> bool" where
  "disjoint_groups gs \<longleftrightarrow> distinct (concat (map (\<lambda>g. fst (snd g)) gs))"

definition known_ok :: "bytes list \<Rightarrow> KVCacheCoordinator \<Rightarrow> block_ref list option list \<Rightarrow> int \<Rightarrow> attention_group \<Rightarrow> bool" where
  "known_ok hs co hb c g \<longleftrightarrow> (case g of (s, gids, cls) \<Rightarrow>
     is_full s \<and> hb ! nat (hd gids) \<noteq> None \<longrightarrow> group_covers hs co hb g c \<and> c mod lcm_block_size co = 0)"

lemma known_ok_less:
  assumes "known_ok hs co hb c g" and "group_ok hs max_len co g" and "c' \<le> c" "c' mod lcm_block_size co = 0"
  shows "known_ok hs co hb c' g"
  using assms group_covers_mono[of hs co hb g c c' max_len] by (cases g) (simp add: known_ok_def)

lemma pass_spec:
  assumes inv: "pool_inv (block_pool co) xs" and "\<forall>g\<in>set gs. group_ok hs max_len co g" and "disjoint_groups gs"
    and "0 \<le> c" "c \<le> max_len" and "length hb = length (kv_cache_groups (co_config co))" and "\<forall>g\<in>set gs. known_ok hs co hb c g" and "gs \<noteq> []"
  shows "\<exists>c' v' hb'. fold_r (hybrid_group_step hs max_len co) (enumerate_from i gs) (c, v, hb) = Inr (c', v', hb') \<and> 0 \<le> c' \<and> c' \<le> c
    \<and> c' mod lcm_block_size co = 0 \<and> length hb' = length hb \<and> (\<forall>g\<in>set gs. \<exists>n. c' \<le> n \<and> n \<le> c \<and> group_covers hs co hb' g n)
    \<and> group_covers hs co hb' (last gs) c' \<and> (\<forall>j\<ge>0. j \<notin> set (concat (map (\<lambda>g. fst (snd g)) gs)) \<longrightarrow> hb' ! nat j = hb ! nat j)"
  using assms(2-)
proof (induction gs arbitrary: i c v hb)
  case (Cons g gs)
  obtain s gids cls where g: "g = (s, gids, cls)" by (cases g)
  have gk: "group_ok hs max_len co (s, gids, cls)" using Cons.prems(1) by (simp add: g)
  from group_step_spec[OF inv gk Cons.prems(3,4,5), of i v] Cons.prems(6) obtain c1 v1 hb1 where
    s1: "hybrid_group_step hs max_len co (i, s, gids, cls) (c, v, hb) = Inr (c1, v1, hb1)" "0 \<le> c1" "c1 \<le> c" "c1 mod lcm_block_size co = 0"
      "group_covers hs co hb1 (s, gids, cls) c1" "length hb1 = length hb" "\<forall>j\<ge>0. j \<notin> set gids \<longrightarrow> hb1 ! nat j = hb ! nat j"
    by (auto simp: known_ok_def g)
  show ?case
  proof (cases "gs = []")
    case True
    with s1 show ?thesis by (auto simp: g)
  next
    case False
    have dj: "disjoint_groups gs" "\<forall>h\<in>set gs. set (fst (snd h)) \<inter> set gids = {}"
      using Cons.prems(2) by (auto simp: disjoint_groups_def g)
    have "known_ok hs co hb1 c1 h" if h: "h \<in> set gs" for h
    proof -
      obtain s' gids' cls' where h': "h = (s', gids', cls')" by (cases h)
      have gk': "group_ok hs max_len co (s', gids', cls')" using Cons.prems(1) h h' by simp
      have same: "\<forall>j\<in>set gids'. hb1 ! nat j = hb ! nat j"
        using s1(7) dj(2) h h' gk' by (fastforce simp: group_ok_def groups_ok_def)
      then have "known_ok hs co hb1 c (s', gids', cls') = known_ok hs co hb c (s', gids', cls')"
        using gk' same columns_frame[OF same] by (simp add: known_ok_def group_ok_def groups_ok_def)
      with known_ok_less[OF _ gk' s1(3,4)] Cons.prems(6) h h' show ?thesis by simp
    qed
    then obtain c' v' hb' where r: "fold_r (hybrid_group_step hs max_len co) (enumerate_from (i + 1) gs) (c1, v1, hb1) = Inr (c', v', hb')"
      "0 \<le> c'" "c' \<le> c1" "c' mod lcm_block_size co = 0" "length hb' = length hb1"
      "\<forall>g\<in>set gs. \<exists>n. c' \<le> n \<and> n \<le> c1 \<and> group_covers hs co hb' g n" "group_covers hs co hb' (last gs) c'"
      "\<forall>j\<ge>0. j \<notin> set (concat (map (\<lambda>g. fst (snd g)) gs)) \<longrightarrow> hb' ! nat j = hb1 ! nat j"
      using Cons.IH[OF _ dj(1) s1(2), of hb1 "i + 1" v1] Cons.prems s1 False by force
    have "\<forall>j\<in>set gids. hb' ! nat j = hb1 ! nat j" using r(8) dj(2) gk by (fastforce simp: group_ok_def groups_ok_def)
    from columns_frame[OF this] have "group_covers hs co hb' (s, gids, cls) c1" using s1(5) by simp
    then have "\<exists>n. c' \<le> n \<and> n \<le> c \<and> group_covers hs co hb' (s, gids, cls) n" using r(3) s1(3) by blast
    moreover have "\<forall>h\<in>set gs. \<exists>n. c' \<le> n \<and> n \<le> c \<and> group_covers hs co hb' h n" using r(6) s1(3) by (meson order_trans)
    moreover have "\<forall>j\<ge>0. j \<notin> set (concat (map (\<lambda>g. fst (snd g)) (g # gs))) \<longrightarrow> hb' ! nat j = hb ! nat j"
      using r(8) s1(7) by (simp add: g)
    ultimately show ?thesis using r(1-5,7) s1(1,3,6) False
      by (intro exI[of _ c'] exI[of _ v'] exI[of _ hb']) (simp add: g del: group_covers_group)
  qed
qed simp

text \<open>The loop: when it stops, all groups cover the same length.\<close>

definition hybrid_ok :: "bytes list \<Rightarrow> int \<Rightarrow> KVCacheCoordinator \<Rightarrow> bool" where
  "hybrid_ok hs max_len co \<longleftrightarrow> pool_ok (block_pool co) \<and> attention_groups co \<noteq> [] \<and> disjoint_groups (attention_groups co)
     \<and> (\<forall>g\<in>set (attention_groups co). group_ok hs max_len co g)"

lemma known_after_pass:
  assumes "\<exists>n. c' \<le> n \<and> n \<le> c \<and> group_covers hs co hb g n" and "group_ok hs max_len co g" and "c' mod lcm_block_size co = 0"
  shows "known_ok hs co hb c' g" "is_full (fst g) \<Longrightarrow> group_covers hs co hb g c'"
  using assms group_covers_mono[of hs co hb g _ c' max_len] by (cases g; auto simp: known_ok_def simp del: group_covers_group)+

lemma hybrid_loop_spec:
  assumes ok: "hybrid_ok hs max_len co" and "0 \<le> c" "c \<le> max_len" and "nat c < fuel"
    and "length hb = length (kv_cache_groups (co_config co))" and "\<forall>g\<in>set (attention_groups co). known_ok hs co hb c g"
  shows "\<exists>n hb'. hybrid_loop fuel hs max_len co (c, v, hb) = Inr (n, hb') \<and> 0 \<le> n \<and> n \<le> c \<and> length hb' = length hb
    \<and> (\<forall>g\<in>set (attention_groups co). group_covers hs co hb' g n)"
  using assms(2-)
proof (induction fuel arbitrary: c v hb)
  case (Suc fuel)
  obtain xs where inv: "pool_inv (block_pool co) xs" using ok by (auto simp: hybrid_ok_def pool_ok_def)
  have G: "\<forall>g\<in>set (attention_groups co). group_ok hs max_len co g" "disjoint_groups (attention_groups co)" "attention_groups co \<noteq> []"
    using ok by (auto simp: hybrid_ok_def)
  from pass_spec[OF inv G(1,2) Suc.prems(1,2,4,5) G(3), of 0 v] obtain c' v' hb' where
    r: "fold_r (hybrid_group_step hs max_len co) (enumerate_from 0 (attention_groups co)) (c, v, hb) = Inr (c', v', hb')" "0 \<le> c'" "c' \<le> c"
      "c' mod lcm_block_size co = 0" "length hb' = length hb"
      "\<forall>g\<in>set (attention_groups co). \<exists>n. c' \<le> n \<and> n \<le> c \<and> group_covers hs co hb' g n"
      "group_covers hs co hb' (last (attention_groups co)) c'" by (elim exE conjE) (rule that; assumption)
  consider "c' = c" | "c' < c" "is_simple_hybrid co" | "c' < c" "\<not> is_simple_hybrid co" using r(3) by linarith
  then show ?case
  proof cases
    case 1
    then have "\<forall>g\<in>set (attention_groups co). group_covers hs co hb' g c" using r(6) by (metis order_antisym)
    with 1 r Suc.prems show ?thesis by auto
  next
    case 2
    then obtain g1 g2 where gs: "attention_groups co = [g1, g2]" "is_full (fst g1)"
      by (auto simp: is_simple_hybrid_def length_Suc_conv numeral_2_eq_2)
    have g1: "g1 \<in> set (attention_groups co)" by (simp add: gs(1))
    have "group_covers hs co hb' g1 c'" by (rule known_after_pass(2)[OF bspec[OF r(6) g1] bspec[OF G(1) g1] r(4) gs(2)])
    then show ?thesis using 2 r gs by auto
  next
    case 3
    have "\<forall>g\<in>set (attention_groups co). known_ok hs co hb' c' g" using known_after_pass(1)[OF _ _ r(4)] r(6) G(1) by blast
    moreover have "nat c' < fuel" "c' \<le> max_len" using 3(1) r(2) Suc.prems by auto
    ultimately obtain n hb'' where "hybrid_loop fuel hs max_len co (c', v', hb') = Inr (n, hb'')"
      "0 \<le> n" "n \<le> c'" "length hb'' = length hb'" "\<forall>g\<in>set (attention_groups co). group_covers hs co hb'' g n"
      using Suc.IH[of c' hb' v'] r(2,5) Suc.prems(4) by auto
    with 3 r show ?thesis by auto
  qed
qed simp

lemma start_known:
  assumes "hybrid_ok hs max_len co"
  shows "\<forall>g\<in>set (attention_groups co). known_ok hs co (map (\<lambda>_. None) (kv_cache_groups (co_config co))) c g"
proof
  fix g assume m: "g \<in> set (attention_groups co)"
  obtain s gids cls where g: "g = (s, gids, cls)" by (cases g)
  with assms m have "nat (hd gids) < length (kv_cache_groups (co_config co))"
    by (cases gids) (fastforce simp: hybrid_ok_def group_ok_def groups_ok_def)+
  then show "known_ok hs co (map (\<lambda>_. None) (kv_cache_groups (co_config co))) c g" by (simp add: known_ok_def g)
qed

section \<open>The blocks returned\<close>

lemma truncate_groups_nth:
  assumes "distinct gids" and "\<forall>g\<in>set gids. 0 \<le> g \<and> g < int (length hb)" and "0 \<le> j" "j < int (length hb)"
  shows "truncate_groups gids n hb ! nat j = (if j \<in> set gids then map_option (\<lambda>c. slice_to c n) (hb ! nat j) else hb ! nat j)"
  using assms unfolding truncate_groups_def
  by (induction gids arbitrary: hb) (auto simp: nth_list_update eq_nat_nat_iff)

lemma truncate_groups_length: "length (truncate_groups gids n hb) = length hb"
  unfolding truncate_groups_def by (induction gids arbitrary: hb) simp_all

lemma truncated_column:
  assumes "distinct gids" and "\<forall>g\<in>set gids. 0 \<le> g \<and> g < int (length hb)" and "0 \<le> j" "j < int (length hb)"
  shows "map (\<lambda>b. case b of None \<Rightarrow> [] | Some c \<Rightarrow> c) (truncate_groups gids n hb) ! nat j =
    (let c = (case hb ! nat j of None \<Rightarrow> [] | Some c \<Rightarrow> c) in if j \<in> set gids then slice_to c n else c)"
  using truncate_groups_nth[OF assms, of n] assms(3,4)
  by (cases "hb ! nat j") (auto simp: truncate_groups_length slice_to_def)

text \<open>One column of a group: the tokens its layers read.\<close>

definition column_covers :: "BlockPool \<Rightarrow> bytes list \<Rightarrow> KVCacheSpec \<Rightarrow> int \<Rightarrow> block_ref list \<Rightarrow> int \<Rightarrow> bool" where
  "column_covers p hs s g c n \<longleftrightarrow> n mod block_size s = 0 \<and> n div block_size s \<le> int (length c)
     \<and> (\<not> is_full s \<longrightarrow> n div block_size s = int (length c))
     \<and> (\<forall>t. 0 \<le> t \<and> t < n \<and> (is_full s \<or> n - (case sliding_window s of None \<Rightarrow> 0 | Some w \<Rightarrow> w - 1) \<le> t) \<longrightarrow>
          carries p g (hs ! nat (t div block_size s)) (c ! nat (t div block_size s)))"

lemma column_covers_of:
  assumes c: "covers p hs s gids (columns gids hb) n" and g: "g \<in> set gids" and b: "0 < block_size s" and n: "0 \<le> n"
    and w: "is_full s \<or> (\<exists>w\<ge>1. sliding_window s = Some w)"
  shows "column_covers p hs s g (case hb ! nat g of None \<Rightarrow> [] | Some c \<Rightarrow> c) n"
proof -
  obtain j where j: "j < length gids" "g = gids ! j" using g by (metis in_set_conv_nth)
  then have col: "columns gids hb ! j = (case hb ! nat g of None \<Rightarrow> [] | Some c \<Rightarrow> c)" by (simp add: columns_def)
  show ?thesis
  proof (cases "is_full s")
    case True
    then obtain L where L: "n \<le> int L * block_size s" "n mod block_size s = 0" "prefix_hit p gids hs L (columns gids hb)"
      using c by (auto simp: covers_def)
    have "n div block_size s \<le> int L" using L(1) zdiv_mono1[OF L(1) b] b by simp
    moreover have "nat (t div block_size s) < L" if "0 \<le> t" "t < n" for t
      using window_arith(2)[OF b, of t "int L" "int L * block_size s + 1"] that L(1) b by (simp add: pos_imp_zdiv_nonneg_iff nat_less_iff)
    ultimately show ?thesis using L(2,3) j True unfolding column_covers_def col[symmetric] by (auto simp: prefix_hit_def)
  next
    case False
    then obtain v where v: "sliding_window s = Some v" "1 \<le> v" using w by auto
    then obtain L where L: "n = int L * block_size s" "window_hit p gids hs (nat (cdiv (v - 1) (block_size s))) L (columns gids hb)"
      using c False by (auto simp only: covers_def if_False option.case)
    have "nat (t div block_size s) < L \<and> L \<le> nat (t div block_size s) + nat (cdiv (v - 1) (block_size s))"
      if "0 \<le> t" "t < n" "n - (v - 1) \<le> t" for t
      using window_arith[OF b, of t "int L" v] that cdiv_nonneg[of "block_size s" "v - 1"] v(2) b unfolding L(1) by auto
    with L(2) j False v b show ?thesis unfolding column_covers_def col[symmetric] by (auto simp: L(1) window_hit_def)
  qed
qed

lemma column_covers_take:
  assumes "column_covers p hs s g c n" and "is_full s" and "0 < block_size s" and "0 \<le> n"
  shows "column_covers p hs s g (slice_to c (n div block_size s)) n \<and> int (length (slice_to c (n div block_size s))) = n div block_size s"
proof -
  have k: "0 \<le> n div block_size s" using assms(3,4) by (simp add: pos_imp_zdiv_nonneg_iff)
  have "nat (t div block_size s) < nat (n div block_size s)" if "0 \<le> t" "t < n" for t
  proof -
    have "n = n div block_size s * block_size s" using assms(1) by (simp add: column_covers_def mod_eq_0_iff_dvd)
    then have "t div block_size s < n div block_size s" "0 \<le> t div block_size s"
      using that window_arith(2)[OF assms(3), of t "n div block_size s" "n + 1"] assms(3) by (simp_all add: pos_imp_zdiv_nonneg_iff)
    then show ?thesis unfolding zless_nat_conj by linarith
  qed
  with assms k show ?thesis by (auto simp: column_covers_def)
qed

section \<open>Pools for examples\<close>

declare get_cached_block.simps [simp del]

text \<open>A pool without references whose first blocks hold the contents of given hashes for given groups.\<close>

definition pool_holds :: "BlockPool \<Rightarrow> (int \<times> bytes) list \<Rightarrow> nat \<Rightarrow> bool" where
  "pool_holds p es n \<longleftrightarrow> pool_inv p (map Block [1..<Suc n]) \<and> num_gpu_blocks p = int n + 1 \<and> enable_caching p \<and> length es \<le> n
     \<and> (\<forall>i<n. refs p (Block (Suc i)) = 0
          \<and> hash_of p (Block (Suc i)) = (if i < length es then Some (snd (es ! i) @ to_bytes_list 4 (fst (es ! i))) else None))"

lemma pool_holds_exists:
  assumes "\<forall>(g, h)\<in>set es. 0 \<le> g \<and> g < 2 ^ 32" and "length es \<le> n"
  shows "\<exists>p. pool_holds p es n"
  using assms
proof (induction es rule: rev_induct)
  case Nil
  obtain p where p: "pool_inv p (map Block [1..<nat (int n + 1)])" "num_gpu_blocks p = int n + 1" "enable_caching p"
    "\<forall>i. int i < int n + 1 \<longrightarrow> refs p (Block i) = 0 \<and> hash_of p (Block i) = None"
    using block_pool_init_spec[of "int n + 1" True 16 False False] by auto
  then show ?case by (intro exI[of _ p]) (auto simp: pool_holds_def nat_add_distrib simp del: upt_Suc)
next
  case (snoc e es)
  then obtain p where p: "pool_inv p (map Block [1..<Suc n])" "num_gpu_blocks p = int n + 1" "enable_caching p" "\<forall>i<n. refs p (Block (Suc i)) = 0
      \<and> hash_of p (Block (Suc i)) = (if i < length es then Some (snd (es ! i) @ to_bytes_list 4 (fst (es ! i))) else None)"
    by (auto simp: pool_holds_def simp del: upt_Suc)
  let ?b = "Block (Suc (length es))" and ?g = "to_bytes_list 4 (fst e)"
  have u: "usable p ?b" and h: "hash_of p ?b = None" using p(2,4) snoc.prems(2) by (auto simp: usable_def)
  have "to_bytes_big (fst e) 4 = Inr ?g" using snoc.prems(1) by (cases e) (auto simp: to_bytes_big_def)
  then obtain p' where p': "pool_inv p' (map Block [1..<Suc n])" "pool_static p p'" "\<forall>c. refs p' c = refs p c"
    "\<forall>c. hash_of p' c = (if c = ?b then Some (snd e @ ?g) else hash_of p c)"
    using cache_one_block_spec[OF p(1), of ?b 0 "[snd e]" "fst e" ?g False "[]"] u h by (auto simp del: upt_Suc)
  have "hash_of p' (Block (Suc i)) = (if i < length (es @ [e]) then Some (snd ((es @ [e]) ! i) @ to_bytes_list 4 (fst ((es @ [e]) ! i))) else None)"
    if "i < n" for i
    using p'(4) p(4) that by (cases "i = length es") (auto simp: nth_append)
  with p' p snoc.prems(2) show ?case
    by (intro exI[of _ p']) (auto simp: pool_holds_def pool_staticD(1,3)[OF p'(2)] simp del: upt_Suc)
qed

lemma pool_holds_lookup:
  assumes p: "pool_holds p es n" and d: "distinct es" and es: "\<forall>(g, h)\<in>set es. 0 \<le> g \<and> g < 2 ^ 32" and g: "0 \<le> g" "g < 2 ^ 32"
  shows "i < length es \<Longrightarrow> es ! i = (g, h) \<Longrightarrow> get_cached_block h [g] p = Inr (Some [Block (Suc i)])"
    and "(g, h) \<notin> set es \<Longrightarrow> get_cached_block h [g] p = Inr None"
proof -
  have inv: "pool_inv p (map Block [1..<Suc n])" using p by (simp add: pool_holds_def)
  have gk: "groups_ok [g]" using g by (simp add: groups_ok_def)
  have key: "h @ to_bytes_list 4 g = h' @ to_bytes_list 4 g' \<longleftrightarrow> h = h' \<and> g = g'" if "0 \<le> g'" "g' < 2 ^ 32" for h h' :: bytes and g'
  proof -
    have "from_bytes_big (to_bytes_list 4 g) = g" "from_bytes_big (to_bytes_list 4 g') = g'" using that g by (simp_all add: from_to_bytes_list)
    then have "to_bytes_list 4 g = to_bytes_list 4 g' \<longleftrightarrow> g = g'" by metis
    then show ?thesis by (simp add: append_eq_append_conv)
  qed
  have c: "carries p g h b \<longleftrightarrow> (\<exists>i<length es. b = Block (Suc i) \<and> es ! i = (g, h))" for h b
  proof
    assume "carries p g h b"
    then obtain i where i: "b = Block (Suc i)" "i < n" "hash_of p b = Some (h @ to_bytes_list 4 g)"
      using p by (auto simp: carries_def usable_def pool_holds_def gr0_conv_Suc)
    then have l: "i < length es" "snd (es ! i) @ to_bytes_list 4 (fst (es ! i)) = h @ to_bytes_list 4 g"
      using p by (auto simp: pool_holds_def split: if_splits)
    moreover have "0 \<le> fst (es ! i) \<and> fst (es ! i) < 2 ^ 32" using es nth_mem[OF l(1)] by (auto simp: case_prod_beta)
    ultimately show "\<exists>i<length es. b = Block (Suc i) \<and> es ! i = (g, h)" using key[of "fst (es ! i)" h "snd (es ! i)"] i(1) by (auto simp: prod_eq_iff)
  next
    assume "\<exists>i<length es. b = Block (Suc i) \<and> es ! i = (g, h)"
    then show "carries p g h b" using p by (auto simp: carries_def usable_def pool_holds_def)
  qed
  note L = lookup_row[OF inv gk]
  show "get_cached_block h [g] p = Inr (Some [Block (Suc i)])" if i: "i < length es" "es ! i = (g, h)"
  proof -
    have r: "row_cached p [g] h" using i c by (auto simp: row_cached_def)
    obtain b where b: "row p [g] h = [b]" "carries p g h b" using L(2)[OF r] by (auto simp: list_all2_Cons1)
    then obtain j where "j < length es" "b = Block (Suc j)" "es ! j = (g, h)" using c by blast
    with i d have "b = Block (Suc i)" by (metis nth_eq_iff_index_eq)
    with b r L(1)[of h] show ?thesis by simp
  qed
  show "get_cached_block h [g] p = Inr None" if "(g, h) \<notin> set es"
  proof -
    have "\<not> row_cached p [g] h" using that c by (auto simp: row_cached_def dest: nth_mem)
    with L(1)[of h] show ?thesis by simp
  qed
qed

lemma sample_facts:
  "block_size (sample_spec c) = 16" "is_full (sample_spec FullAttentionSpec)" "is_full (sample_spec TQFullAttentionSpec)"
  "\<not> is_full (sample_spec MambaSpec)" "spec_class (sample_spec c) = c" "\<not> is_full ((sample_spec SlidingWindowSpec)\<lparr>sliding_window := w\<rparr>)"
  "is_sliding ((sample_spec SlidingWindowSpec)\<lparr>sliding_window := w\<rparr>)"
  by (simp_all add: sample_spec_def is_full_def is_sliding_def)

lemma sample_mamba_coordinator:
  "\<exists>co. hybrid_init (sample_config [sample_spec FullAttentionSpec, sample_spec MambaSpec] 9) 1024 1024 True True False 1 1 16 False = Inr co
     \<and> attention_groups co = [(sample_spec FullAttentionSpec, [0], FullAttentionManager), (sample_spec MambaSpec, [1], MambaManager)]
     \<and> lcm_block_size co = 16 \<and> eagle_attn_group_indices co = {0, 1} \<and> co_hash_block_size co = 16 \<and> length (kv_cache_groups (co_config co)) = 2"
proof -
  obtain p where "block_pool_init 9 True 16 False False = Inr p" using block_pool_init_spec[of 9 True 16 False False] by auto
  then show ?thesis
    by (simp add: hybrid_init_def coordinator_init_def sample_config_def make_managers_def get_manager_for_kv_cache_spec_def spec_manager_map_def
        sample_spec_def is_sliding_def is_full_def verify_and_split_kv_cache_groups_def single_type_init_def Let_def assert_r_def guard_r_def nth_r_def
        del: set_filter)
qed

definition sample_window :: KVCacheSpec where
  "sample_window = (sample_spec SlidingWindowSpec)\<lparr>sliding_window := Some 17\<rparr>"

definition sample_mixed :: KVCacheConfig where
  "sample_mixed = sample_config [sample_spec FullAttentionSpec, sample_spec TQFullAttentionSpec, sample_window] 9"

lemma sample_mixed_coordinator:
  "\<exists>co. hybrid_init sample_mixed 1024 1024 False True False 1 1 16 False = Inr co
     \<and> attention_groups co = [(sample_spec FullAttentionSpec, [0], FullAttentionManager), (sample_spec TQFullAttentionSpec, [1], FullAttentionManager),
          (sample_window, [2], SlidingWindowManager)]
     \<and> lcm_block_size co = 16 \<and> eagle_attn_group_indices co = {} \<and> co_hash_block_size co = 16 \<and> length (kv_cache_groups (co_config co)) = 3"
proof -
  obtain p where "block_pool_init 9 True 16 False False = Inr p" using block_pool_init_spec[of 9 True 16 False False] by auto
  then show ?thesis
    by (simp add: hybrid_init_def coordinator_init_def sample_mixed_def sample_window_def sample_config_def make_managers_def
        get_manager_for_kv_cache_spec_def spec_manager_map_def sliding_max_admission_blocks_per_request_def
        sample_spec_def is_sliding_def is_full_def verify_and_split_kv_cache_groups_def single_type_init_def Let_def assert_r_def guard_r_def nth_r_def
        del: set_filter)
qed

lemma sample_mixed_hit:
  "\<exists>co p. hybrid_init sample_mixed 1024 1024 False True False 1 1 16 False = Inr co \<and> pool_ok p
     \<and> hybrid_ok [[7], [8], [9]] 47 (co\<lparr>block_pool := p\<rparr>)
     \<and> attention_groups co = [(sample_spec FullAttentionSpec, [0], FullAttentionManager), (sample_spec TQFullAttentionSpec, [1], FullAttentionManager),
          (sample_window, [2], SlidingWindowManager)]
     \<and> hybrid_find [[7], [8], [9]] 47 (co\<lparr>block_pool := p\<rparr>) = Inr ([[Block 1], [Block 3, Block 4], [Block 5]], 16)"
proof -
  obtain co where co: "hybrid_init sample_mixed 1024 1024 False True False 1 1 16 False = Inr co"
    "attention_groups co = [(sample_spec FullAttentionSpec, [0], FullAttentionManager), (sample_spec TQFullAttentionSpec, [1], FullAttentionManager),
          (sample_window, [2], SlidingWindowManager)]"
    "lcm_block_size co = 16" "eagle_attn_group_indices co = {}" "co_hash_block_size co = 16" "length (kv_cache_groups (co_config co)) = 3"
    using sample_mixed_coordinator by (elim exE conjE) (rule that; assumption)
  let ?es = "[(0, [7]), (0, [8]), (1, [7]), (1, [8]), (2, [7])] :: (int \<times> bytes) list" and ?h = "Hashes [[7], [8], [9]]"
  obtain p where p: "pool_holds p ?es 5" using pool_holds_exists[of ?es 5] by auto
  have L: "get_cached_block [7] [0] p = Inr (Some [Block 1])" "get_cached_block [8] [0] p = Inr (Some [Block 2])"
    "get_cached_block [7] [1] p = Inr (Some [Block 3])" "get_cached_block [8] [1] p = Inr (Some [Block 4])"
    "get_cached_block [7] [2] p = Inr (Some [Block 5])" "get_cached_block [8] [2] p = Inr None"
    using pool_holds_lookup(1)[OF p, of 0 0 "[7]"] pool_holds_lookup(1)[OF p, of 0 1 "[8]"] pool_holds_lookup(1)[OF p, of 1 2 "[7]"]
      pool_holds_lookup(1)[OF p, of 1 3 "[8]"] pool_holds_lookup(1)[OF p, of 2 4 "[7]"] pool_holds_lookup(2)[OF p, of 2 "[8]"] by auto
  have k: "map (\<lambda>_. None) (kv_cache_groups (co_config co)) = [None, None, None]" using co(6) by (auto simp: length_Suc_conv numeral_3_eq_3)
  have F: "full_find_longest_cache_hit ?h 47 [0] p (sample_spec FullAttentionSpec) False 16 1 1 = Inr [[Block 1, Block 2]]"
    "full_find_longest_cache_hit ?h 32 [1] p (sample_spec TQFullAttentionSpec) False 16 1 1 = Inr [[Block 3, Block 4]]"
    by (simp_all add: full_find_longest_cache_hit_def sample_facts L eagle_drop_def realign.simps parallel_block_size_def nth_r_def
        assert_r_def guard_r_def Let_def)
  have W: "sliding_find_longest_cache_hit ?h n [2] p sample_window False 16 1 1 = Inr [[Block 5]]" if "n = 32 \<or> n = 16" for n
    using that by (auto simp: sliding_find_longest_cache_hit_def sample_window_def sample_facts L cdiv_def repeat_list_def nth_r_def assert_r_def
        numeral_2_eq_2)
  have s: "block_size sample_window = 16" "\<not> is_full sample_window" by (simp_all add: sample_window_def sample_facts)
  have "hybrid_loop (Suc (Suc 46)) [[7], [8], [9]] 47 (co\<lparr>block_pool := p\<rparr>) (47, {}, [None, None, None])
      = Inr (16, [Some [Block 1, Block 2], Some [Block 3, Block 4], Some [Block 5]])"
    unfolding hybrid_loop.simps
    by (simp add: co F W s hybrid_group_step_def is_simple_hybrid_def nth_r_def get_block_hashes_for_def sample_facts
        find_longest_cache_hit_def set_group_blocks_def Let_def)
  then have "hybrid_find [[7], [8], [9]] 47 (co\<lparr>block_pool := p\<rparr>) = Inr ([[Block 1], [Block 3, Block 4], [Block 5]], 16)"
    by (simp add: hybrid_find_def k co nth_r_def sample_facts truncate_groups_def)
  moreover have ok: "pool_ok p" using p by (auto simp: pool_holds_def pool_ok_def)
  moreover have "hybrid_ok [[7], [8], [9]] 47 (co\<lparr>block_pool := p\<rparr>)"
  proof -
    have w: "block_size sample_window = 16" "is_sliding sample_window" "sliding_window sample_window = Some 17"
      by (simp_all add: sample_window_def sample_facts)
    have "group_ok [[7], [8], [9]] 47 (co\<lparr>block_pool := p\<rparr>) g" if "g \<in> set (attention_groups co)" for g
      using that co(2-6) by (auto simp: group_ok_def groups_ok_def sample_facts w get_block_hashes_for_def group_hash_list_def)
    then show ?thesis using ok co(2) by (auto simp: hybrid_ok_def disjoint_groups_def simp del: upt_Suc)
  qed
  ultimately show ?thesis using co(1,2) by (intro exI[of _ co] exI[of _ p]) simp
qed


definition two_managers :: "SingleTypeKVCacheManager list" where
  "two_managers = [single_type_init FullAttentionManager (sample_spec FullAttentionSpec) True 0 1 1 None,
     single_type_init FullAttentionManager (sample_spec TQFullAttentionSpec) True 1 1 1 None]"

section \<open>Properties\<close>

text \<open>
  C8: The lookup over several kinds of attention terminates.  Whatever the groups are and whatever they
  answer, each further round starts from a strictly shorter non-negative hit length, so
  \<open>max_cache_hit_length + 1\<close> rounds are enough: the loop never runs out of them, and more rounds would not
  change the result.
\<close>

theorem hybrid_lookup_terminates:
  assumes "\<forall>(s, _)\<in>set (attention_groups co). 0 < block_size s" and "0 \<le> max_len" and "nat max_len < rounds"
  shows "hybrid_find hs max_len co \<noteq> Inl NonTermination
    \<and> hybrid_loop rounds hs max_len co (max_len, v, hb) = hybrid_loop (Suc (nat max_len)) hs max_len co (max_len, v, hb)"
proof -
  have ok: "sizes_ok co" using assms(1) by (simp add: sizes_ok_def)
  have "hybrid_loop rounds hs max_len co (max_len, v, hb) = hybrid_loop (Suc (nat max_len)) hs max_len co (max_len, v, hb)"
    using hybrid_loop_ends[OF ok assms(2)] assms(3) by blast
  moreover have "ends (hybrid_loop (Suc (nat max_len)) hs max_len co (max_len, v, hb))" for v hb
    using hybrid_loop_ends[OF ok assms(2), of "Suc (nat max_len)" "Suc (nat max_len)"] by simp
  then have "ends (hybrid_find hs max_len co)"
    by (auto simp: hybrid_find_def Let_def simp del: hybrid_loop.simps intro!: ends_intros split: prod.splits)
  ultimately show ?thesis by (simp add: ends_def)
qed

theorem hybrid_lookup_terminates_witness:
  "\<exists>co. length (attention_groups co) = 3 \<and> hybrid_find [[7], [8], [9]] 47 co \<noteq> Inl NonTermination
     \<and> hybrid_loop 1000 [[7], [8], [9]] 47 co (47, {}, []) = hybrid_loop 48 [[7], [8], [9]] 47 co (47, {}, [])"
proof -
  obtain co :: KVCacheCoordinator where co: "attention_groups co = [(sample_spec FullAttentionSpec, [0], FullAttentionManager),
      (sample_spec TQFullAttentionSpec, [1], FullAttentionManager), (sample_window, [2], SlidingWindowManager)]"
    using sample_mixed_coordinator by (elim exE conjE) (rule that; assumption)
  then have "\<forall>(s, _)\<in>set (attention_groups co). 0 < block_size s" by (simp add: sample_facts sample_window_def)
  from hybrid_lookup_terminates[OF this, of 47 1000 "[[7], [8], [9]]" "{}" "[]"] co show ?thesis
    by (intro exI[of _ co]) (simp del: hybrid_loop.simps)
qed

text \<open>
  C16: When every cache group is of full or sliding-window attention, what the lookup returns is there (a
  Mamba group beside them breaks this, see below).  In a consistent pool it never
  raises, and the hit length it reports is a multiple of every group's block size, at most
  \<open>max_cache_hit_length\<close>, and covered in every group: each token the group's layers read (all of them
  for full attention, those of the last window otherwise) lies in a block holding the content its hash
  names.  The blocks of the first group and of the sliding-window groups end exactly at the hit length.
  Dropping a block for EAGLE is included.
\<close>

theorem hybrid_hit_covers:
  assumes ok: "hybrid_ok hs max_len co" and "0 \<le> max_len"
  shows "\<exists>blocks n. hybrid_find hs max_len co = Inr (blocks, n) \<and> 0 \<le> n \<and> n \<le> max_len
    \<and> (\<forall>(s, gids, _)\<in>set (attention_groups co). \<forall>g\<in>set gids.
         column_covers (block_pool co) (group_hash_list hs co s) s g (blocks ! nat g) n)
    \<and> (\<forall>g\<in>set (fst (snd (hd (attention_groups co)))).
         int (length (blocks ! nat g)) = n div block_size (fst (hd (attention_groups co))))"
proof -
  let ?hb0 = "map (\<lambda>_. None) (kv_cache_groups (co_config co)) :: block_ref list option list"
  have G: "\<forall>g\<in>set (attention_groups co). group_ok hs max_len co g" "attention_groups co \<noteq> []" using ok by (auto simp: hybrid_ok_def)
  from hybrid_loop_spec[OF ok assms(2) order_refl, of "Suc (nat max_len)" ?hb0 "{}"] start_known[OF ok] obtain n hb where
    L: "hybrid_loop (Suc (nat max_len)) hs max_len co (max_len, {}, ?hb0) = Inr (n, hb)" "0 \<le> n" "n \<le> max_len"
      "length hb = length (kv_cache_groups (co_config co))" "\<forall>g\<in>set (attention_groups co). group_covers hs co hb g n"
    by (auto simp del: hybrid_loop.simps)
  obtain s0 gids0 cls0 gs where gs: "attention_groups co = (s0, gids0, cls0) # gs" using G(2) by (metis list.exhaust prod_cases3)
  define hb' where "hb' = (if is_full s0 then truncate_groups gids0 (n div block_size s0) hb else hb)"
  define blocks where "blocks = map (\<lambda>b. case b of None \<Rightarrow> [] | Some c \<Rightarrow> c) hb'"
  have find: "hybrid_find hs max_len co = Inr (blocks, n)"
    unfolding hybrid_find_def L(1) gs by (simp add: nth_r_def blocks_def hb'_def Let_def)
  have idx: "0 \<le> g" "g < int (length hb)" if "(s, gids, cls) \<in> set (attention_groups co)" "g \<in> set gids" for s gids cls g
    using G(1) that L(4) by (fastforce simp: group_ok_def groups_ok_def)+
  have g0: "(s0, gids0, cls0) \<in> set (attention_groups co)" by (simp add: gs)
  have g0': "distinct gids0" "\<forall>g\<in>set gids0. 0 \<le> g \<and> g < int (length hb)" using G(1) g0 idx[OF g0] by (auto simp: group_ok_def)
  let ?col = "\<lambda>g. case hb ! nat g of None \<Rightarrow> [] | Some c \<Rightarrow> c"
  have nth: "blocks ! nat g = (if is_full s0 \<and> g \<in> set gids0 then slice_to (?col g) (n div block_size s0) else ?col g)"
    if "0 \<le> g" "g < int (length hb)" for g
    using truncated_column[OF g0' that, of "n div block_size s0"] that unfolding blocks_def hb'_def by simp
  have cc: "column_covers (block_pool co) (group_hash_list hs co s) s g (?col g) n" "0 < block_size s"
    if "(s, gids, cls) \<in> set (attention_groups co)" "g \<in> set gids" for s gids cls g
  proof -
    have "group_ok hs max_len co (s, gids, cls)" "covers (block_pool co) (group_hash_list hs co s) s gids (columns gids hb) n"
      using bspec[OF G(1) that(1)] bspec[OF L(5) that(1)] by simp_all
    then show "column_covers (block_pool co) (group_hash_list hs co s) s g (?col g) n" "0 < block_size s"
      using column_covers_of[OF _ that(2) _ L(2)] by (auto simp: group_ok_def)
  qed
  have "column_covers (block_pool co) (group_hash_list hs co s) s g (blocks ! nat g) n"
    if m: "(s, gids, cls) \<in> set (attention_groups co)" "g \<in> set gids" for s gids cls g
  proof (cases "is_full s0 \<and> g \<in> set gids0")
    case True
    have "s = s0"
    proof (rule ccontr)
      assume "s \<noteq> s0"
      then have "(s, gids, cls) \<in> set gs" using m(1) gs by auto
      with ok m(2) True show False by (fastforce simp: hybrid_ok_def gs disjoint_groups_def)
    qed
    then show ?thesis using column_covers_take[OF cc(1)[OF m] _ cc(2)[OF m] L(2)] True nth[OF idx[OF m]] by (simp del: slice_to_nonneg)
  qed (use cc(1)[OF m] nth[OF idx[OF m]] in auto)
  moreover have "int (length (blocks ! nat g)) = n div block_size s0" if "g \<in> set gids0" for g
    using column_covers_take[OF cc(1)[OF g0 that] _ cc(2)[OF g0 that] L(2)] cc(1)[OF g0 that] nth[OF idx[OF g0 that]] that
    by (cases "is_full s0") (auto simp: column_covers_def simp del: slice_to_nonneg)
  ultimately show ?thesis using find L(2,3) by (intro exI[of _ blocks] exI[of _ n]) (auto simp: gs)
qed

theorem hybrid_hit_covers_witness:
  "\<exists>co blocks. hybrid_find [[7], [8], [9]] 47 co = Inr (blocks, 16) \<and> length (blocks ! 0) = 1
     \<and> column_covers (block_pool co) (group_hash_list [[7], [8], [9]] co sample_window) sample_window 2 (blocks ! 2) 16"
proof -
  obtain co p where co: "hybrid_ok [[7], [8], [9]] 47 (co\<lparr>block_pool := p\<rparr>)" "attention_groups co = [(sample_spec FullAttentionSpec, [0], FullAttentionManager),
      (sample_spec TQFullAttentionSpec, [1], FullAttentionManager), (sample_window, [2], SlidingWindowManager)]"
    "hybrid_find [[7], [8], [9]] 47 (co\<lparr>block_pool := p\<rparr>) = Inr ([[Block 1], [Block 3, Block 4], [Block 5]], 16)"
    using sample_mixed_hit by (elim exE conjE) (rule that; assumption)
  from hybrid_hit_covers[OF co(1)] co(2,3) show ?thesis
    by (intro exI[of _ "co\<lparr>block_pool := p\<rparr>"] exI[of _ "[[Block 1], [Block 3, Block 4], [Block 5]]"]) (auto simp: sample_facts)
qed

text \<open>
  C31: With EAGLE and a Mamba group the lookup can report more tokens than full attention has blocks for.
  The Mamba lookup takes the extra block EAGLE asks for but does not drop it again, so the hit length
  grows past the full-attention hit: here 32 tokens are reported as computed while the full-attention
  group gets the block of the first 16 only.
\<close>

theorem mamba_eagle_overclaims:
  "\<exists>co p. hybrid_init (sample_config [sample_spec FullAttentionSpec, sample_spec MambaSpec] 9) 1024 1024 True True False 1 1 16 False = Inr co
     \<and> pool_ok p \<and> hybrid_find [[7], [8], [9]] 47 (co\<lparr>block_pool := p\<rparr>) = Inr ([[Block 1], [null_block p, Block 3]], 32)"
proof -
  obtain co where co: "hybrid_init (sample_config [sample_spec FullAttentionSpec, sample_spec MambaSpec] 9) 1024 1024 True True False 1 1 16 False = Inr co"
    "attention_groups co = [(sample_spec FullAttentionSpec, [0], FullAttentionManager), (sample_spec MambaSpec, [1], MambaManager)]"
    "lcm_block_size co = 16" "eagle_attn_group_indices co = {0, 1}" "co_hash_block_size co = 16" "length (kv_cache_groups (co_config co)) = 2"
    using sample_mamba_coordinator by blast
  let ?es = "[(0, [7]), (0, [8]), (1, [8])] :: (int \<times> bytes) list"
  obtain p where p: "pool_holds p ?es 3" using pool_holds_exists[of ?es 3] by auto
  have L: "get_cached_block [7] [0] p = Inr (Some [Block 1])" "get_cached_block [8] [0] p = Inr (Some [Block 2])"
    "get_cached_block [8] [1] p = Inr (Some [Block 3])"
    using pool_holds_lookup(1)[OF p, of 0 0 "[7]"] pool_holds_lookup(1)[OF p, of 0 1 "[8]"] pool_holds_lookup(1)[OF p, of 1 2 "[8]"] by auto
  have k: "map (\<lambda>_. None) (kv_cache_groups (co_config co)) = [None, None]" using co(6) by (auto simp: length_Suc_conv numeral_2_eq_2)
  have F: "full_find_longest_cache_hit (Hashes [[7], [8], [9]]) 47 [0] p (sample_spec FullAttentionSpec) True 16 1 1 = Inr [[Block 1]]"
    by (simp add: full_find_longest_cache_hit_def sample_facts L eagle_drop_def pop_each_def realign.simps parallel_block_size_def nth_r_def
        assert_r_def guard_r_def Let_def)
  have M: "mamba_find_longest_cache_hit (Hashes [[7], [8], [9]]) 32 [1] p (sample_spec MambaSpec) True 16 1 1 = Inr [[null_block p, Block 3]]"
    by (simp add: mamba_find_longest_cache_hit_def sample_facts L nth_r_def assert_r_def numeral_2_eq_2)
  have "hybrid_loop (Suc 47) [[7], [8], [9]] 47 (co\<lparr>block_pool := p\<rparr>) (47, {}, [None, None])
      = Inr (32, [Some [Block 1], Some [null_block p, Block 3]])"
    unfolding hybrid_loop.simps
    by (simp add: co F M hybrid_group_step_def is_simple_hybrid_def nth_r_def get_block_hashes_for_def sample_facts
        find_longest_cache_hit_def set_group_blocks_def Let_def)
  then have "hybrid_find [[7], [8], [9]] 47 (co\<lparr>block_pool := p\<rparr>) = Inr ([[Block 1], [null_block p, Block 3]], 32)"
    by (simp add: hybrid_find_def k co nth_r_def sample_facts truncate_groups_def)
  moreover have "pool_ok p" using p by (auto simp: pool_holds_def pool_ok_def)
  ultimately show ?thesis using co(1) by blast
qed

text \<open>
  C32: With two kinds of full attention the lookup leaves blocks past the hit length.  Only the first
  attention group is cut to the final hit length.  With a full-attention group, a TurboQuant group and a
  sliding-window group, the window lowers the hit to 16 tokens, but the TurboQuant group keeps the two
  blocks of 32 tokens.
\<close>

theorem second_full_group_not_truncated:
  "\<exists>co p. hybrid_init sample_mixed 1024 1024 False True False 1 1 16 False = Inr co \<and> pool_ok p
     \<and> hybrid_find [[7], [8], [9]] 47 (co\<lparr>block_pool := p\<rparr>) = Inr ([[Block 1], [Block 3, Block 4], [Block 5]], 16)"
  using sample_mixed_hit by blast

text \<open>
  C33: Allocating for externally computed tokens can take away a prefix-cache hit.  The managers take over
  their hits one after the other, and one with external tokens allocates before the next has touched its
  hits.  Two full-attention groups hit one block each, 16 more tokens come from outside, and the four free
  blocks are as many as the coordinator asked for: the first group is handed the second group's hit as
  a new block, its hash is dropped, and both tables then share the block.
\<close>

theorem external_tokens_take_hit:
  "\<exists>p m0 m1 p'. pool_ok p \<and> get_num_free_blocks p = 4 \<and> get_cached_block [7] [0] p = Inr (Some [Block 1]) \<and> get_cached_block [7] [1] p = Inr (Some [Block 2])
     \<and> over_managers (co_num_blocks_step ''r'' 32 [[Block 1], [Block 2]] 0 32 32 False) 0 two_managers 0 p = Inr (two_managers, 4, p)
     \<and> over_managers (co_computed_step False ''r'' [[Block 1], [Block 2]] 16 16) 0 two_managers () p = Inr ([m0, m1], (), p')
     \<and> req_blocks m0 ''r'' = [Block 1, Block 2] \<and> req_blocks m1 ''r'' = [Block 2, Block 3] \<and> hash_of p' (Block 2) = None"
proof -
  let ?es = "[(0, [7]), (1, [7])] :: (int \<times> bytes) list"
  obtain p where p: "pool_holds p ?es 4" using pool_holds_exists[of ?es 4] by auto
  have xs: "map Block [1..<Suc 4] = [Block 1, Block 2, Block 3, Block 4]" by (simp add: upt_rec numeral_eq_Suc)
  have inv: "pool_inv p [Block 1, Block 2, Block 3, Block 4]" and n: "num_gpu_blocks p = 5"
    and rf: "\<forall>i<4. refs p (Block (Suc i)) = 0"
    using p unfolding pool_holds_def xs by auto
  have L: "get_cached_block [7] [0] p = Inr (Some [Block 1])" "get_cached_block [7] [1] p = Inr (Some [Block 2])"
    using pool_holds_lookup(1)[OF p, of 0 0 "[7]"] pool_holds_lookup(1)[OF p, of 1 1 "[7]"] by auto
  have us: "usable p (Block 1)" "usable p (Block 2)" "usable p (Block 3)" using n by (auto simp: usable_def)
  have c: "enable_caching p" using p by (simp add: pool_holds_def)
  obtain p1 where p1: "touch [Block 1] p = Inr p1" "pool_inv p1 [Block 2, Block 3, Block 4]" "pool_static p p1" "\<forall>c. hash_of p1 c = hash_of p c"
    using touch_spec[OF inv, of "[Block 1]"] us by auto
  obtain p2 where p2: "get_new_blocks False 1 p1 = Inr ([Block 2], p2)" "pool_inv p2 [Block 3, Block 4]" "pool_static p1 p2" "hash_of p2 (Block 2) = None"
    using get_new_blocks_spec[OF p1(2), of 1 False] c pool_staticD(3)[OF p1(3)] by auto
  have st: "pool_static p p2" by (rule pool_static_trans[OF p1(3) p2(3)])
  obtain p3 where p3: "touch [Block 2] p2 = Inr p3" "pool_inv p3 [Block 3, Block 4]" "\<forall>c. hash_of p3 c = hash_of p2 c"
    using touch_spec[OF p2(2), of "[Block 2]"] us by (auto simp: pool_static_usable[OF st])
  obtain p4 where p4: "get_new_blocks False 1 p3 = Inr ([Block 3], p4)" "hash_of p4 (Block 2) = hash_of p3 (Block 2)"
    using get_new_blocks_spec[OF p3(2), of 1 False] by auto
  have ev: "get_num_evictable_blocks p [Block 1] = 1" "get_num_evictable_blocks p [Block 2] = 1"
    using rf usable_facts(1)[OF inv us(1)] usable_facts(1)[OF inv us(2)] spec[OF rf, of 0] spec[OF rf, of 1]
    by (auto simp: get_num_evictable_blocks_def numeral_2_eq_2)
  note defs = two_managers_def single_type_init_def sample_facts parallel_block_size_def get_num_skipped_tokens_def nth_r_def assert_r_def cdiv_def Let_def
  have "over_managers (co_num_blocks_step ''r'' 32 [[Block 1], [Block 2]] 0 32 32 False) 0 two_managers 0 p = Inr (two_managers, 4, p)"
    using ev by (simp add: co_num_blocks_step_def get_num_blocks_to_allocate_def base_num_blocks_to_allocate_def req_blocks_def slice_from_def py_idx_def defs)
  moreover have "\<exists>m0 m1. over_managers (co_computed_step False ''r'' [[Block 1], [Block 2]] 16 16) 0 two_managers () p = Inr ([m0, m1], (), p4)
      \<and> req_blocks m0 ''r'' = [Block 1, Block 2] \<and> req_blocks m1 ''r'' = [Block 2, Block 3]"
    using p1(1) p2(1) p3(1) p4(1)
    by (simp add: co_computed_step_def allocate_new_computed_blocks_def base_allocate_new_computed_blocks_def touch_entry_def set_req_blocks_def
        req_blocks_def record_new_ids_def repeat_list_def defs)
  moreover have "hash_of p4 (Block 2) = None" using p4(2) p3(3) p2(4) by simp
  moreover have "get_num_free_blocks p = 4" using pool_free_count[OF inv] by simp
  moreover have "pool_ok p" using inv by (auto simp: pool_ok_def)
  ultimately show ?thesis using L by blast
qed

end
