(* ===== verification/TurboQuant_Config.thy ===== *)
theory TurboQuant_Config
  imports Prelude
begin

text \<open>
  \<open>TurboQuantConfig\<close> of \<open>vllm/model_executor/layers/quantization/turboquant/config.py\<close>: the named
  presets, the packed sizes of a key, a value and a cache slot, and the layers that are left
  uncompressed.  \<open>math.ceil(x * bits / 8)\<close> on these small integers is ceiling division.
\<close>

section \<open>Presets and configuration\<close>

record TurboQuantConfig =
  head_dim :: int
  key_quant_bits :: int
  value_quant_bits :: int
  tq_seed :: int
  norm_correction :: bool

definition tq_default :: TurboQuantConfig where
  "tq_default = \<lparr>head_dim = 128, key_quant_bits = 3, value_quant_bits = 4, tq_seed = 42, norm_correction = False\<rparr>"

text \<open>Preset name to key bits, value bits, norm correction.\<close>

definition TQ_PRESETS :: "(string \<times> int \<times> int \<times> bool) list" where
  "TQ_PRESETS =
     [(''turboquant_k8v4'', 8, 4, False),
      (''turboquant_4bit_nc'', 4, 4, True),
      (''turboquant_k3v4_nc'', 3, 4, True),
      (''turboquant_3bit_nc'', 3, 3, True)]"

definition key_fp8 :: "TurboQuantConfig \<Rightarrow> bool" where
  "key_fp8 c \<longleftrightarrow> key_quant_bits c = 8"

definition mse_bits :: "TurboQuantConfig \<Rightarrow> int" where
  "mse_bits c = (if key_fp8 c then value_quant_bits c else key_quant_bits c)"

definition key_mse_bits :: "TurboQuantConfig \<Rightarrow> int" where
  "key_mse_bits c = (if key_fp8 c then 0 else key_quant_bits c)"

definition centroid_bits :: "TurboQuantConfig \<Rightarrow> int" where
  "centroid_bits c = mse_bits c"

definition n_centroids :: "TurboQuantConfig \<Rightarrow> int" where
  "n_centroids c = 2 ^ nat (mse_bits c)"

definition key_packed_size :: "TurboQuantConfig \<Rightarrow> int" where
  "key_packed_size c =
     (if key_fp8 c then head_dim c else cdiv (head_dim c * key_mse_bits c) 8 + 2)"

definition effective_value_quant_bits :: "TurboQuantConfig \<Rightarrow> int" where
  "effective_value_quant_bits c = value_quant_bits c"

definition value_packed_size :: "TurboQuantConfig \<Rightarrow> int" where
  "value_packed_size c = cdiv (head_dim c * value_quant_bits c) 8 + 4"

definition slot_size :: "TurboQuantConfig \<Rightarrow> int" where
  "slot_size c = key_packed_size c + value_packed_size c"

definition slot_size_aligned :: "TurboQuantConfig \<Rightarrow> int" where
  "slot_size_aligned c = (let s = slot_size c in s + s mod 2)"

text \<open>\<open>str(i)\<close> for a non-negative integer.\<close>

fun nat_str :: "nat \<Rightarrow> string" where
  "nat_str n = (if n < 10 then [char_of (48 + n)] else nat_str (n div 10) @ [char_of (48 + n mod 10)])"

definition boundary_skip_indices :: "int \<Rightarrow> int \<Rightarrow> int list" where
  "boundary_skip_indices num_layers n =
     (if n \<le> 0 \<or> num_layers \<le> 0 then []
      else let n = min n (num_layers div 2);
               first = [0..n - 1];
               last = [num_layers - n..num_layers - 1]
           in sort (remdups (first @ last)))"

definition get_boundary_skip_layers :: "int \<Rightarrow> int \<Rightarrow> string list" where
  "get_boundary_skip_layers num_layers n = map (\<lambda>i. nat_str (nat i)) (boundary_skip_indices num_layers n)"

definition from_cache_dtype :: "string \<Rightarrow> int \<Rightarrow> TurboQuantConfig result" where
  "from_cache_dtype cache_dtype dim =
     (case map_of TQ_PRESETS cache_dtype of
        None \<Rightarrow> Inl ValueError
      | Some (kb, vb, nc) \<Rightarrow>
          Inr (tq_default\<lparr>head_dim := dim, key_quant_bits := kb, value_quant_bits := vb, norm_correction := nc\<rparr>))"

declare nat_str.simps [simp del]

section \<open>Sizes\<close>

lemma of_digit: "of_char (char_of (48 + m) :: char) = (48 + m :: nat)" if "m < 10"
  using that by (simp add: of_char_of)

lemma nat_str_decode:
  "foldl (\<lambda>acc ch. acc * 10 + (of_char ch - 48)) 0 (nat_str n) = (n :: nat)"
proof (induction n rule: nat_str.induct)
  case (1 n)
  show ?case
  proof (cases "n < 10")
    case True
    then show ?thesis by (subst nat_str.simps) (simp add: of_digit)
  next
    case False
    with 1 show ?thesis by (subst nat_str.simps) (simp add: of_digit)
  qed
qed

lemma nat_str_inject: "nat_str m = nat_str n \<Longrightarrow> m = n"
  by (metis nat_str_decode)

lemma boundary_skip_indices_eq:
  assumes "0 < n" and "0 < num_layers"
  shows "boundary_skip_indices num_layers n =
    filter (\<lambda>i. i < min n (num_layers div 2) \<or> num_layers - min n (num_layers div 2) \<le> i) [0..num_layers - 1]"
proof (rule sorted_distinct_set_unique)
  let ?P = "\<lambda>i. i < min n (num_layers div 2) \<or> num_layers - min n (num_layers div 2) \<le> i"
  show "sorted (boundary_skip_indices num_layers n)" "distinct (boundary_skip_indices num_layers n)"
    by (simp_all add: boundary_skip_indices_def Let_def)
  show "sorted (filter ?P [0..num_layers - 1])" by (rule sorted_wrt_filter) simp
  show "distinct (filter ?P [0..num_layers - 1])" by simp
  show "set (boundary_skip_indices num_layers n) = set (filter ?P [0..num_layers - 1])"
    using assms by (auto simp: boundary_skip_indices_def Let_def)
qed

lemma length_boundary_skip_indices:
  assumes "0 < n" and "0 < num_layers"
  shows "int (length (boundary_skip_indices num_layers n)) = 2 * min n (num_layers div 2)"
proof -
  let ?k = "min n (num_layers div 2)"
  have k: "0 \<le> ?k" "2 * ?k \<le> num_layers" using assms by auto
  let ?l = "[0..?k - 1] @ [num_layers - ?k..num_layers - 1]"
  have "distinct ?l" using k by auto
  then have "remdups ?l = ?l" by (rule distinct_remdups_id)
  moreover have "boundary_skip_indices num_layers n = sort (remdups ?l)"
    using assms by (simp add: boundary_skip_indices_def Let_def)
  ultimately have "boundary_skip_indices num_layers n = sort ?l" by (simp only:)
  then show ?thesis using k by simp
qed

lemma slot_size_aligned_even: "even (slot_size_aligned c)"
  by (simp add: slot_size_aligned_def Let_def)

section \<open>Properties\<close>

text \<open>
  C24: The slots of a configuration have room for what is packed into them: the aligned slot is even
  and at most one byte larger than key plus value; the value part holds \<open>head_dim\<close> codes of
  \<open>value_quant_bits\<close> bits plus scale and zero point; the key part holds one byte per coordinate in
  FP8 mode and otherwise \<open>head_dim\<close> codes of \<open>key_mse_bits\<close> bits plus the norm; and no part wastes a
  whole byte.
\<close>

theorem slot_layout_tight:
  "even (slot_size_aligned c) \<and> slot_size c \<le> slot_size_aligned c \<and> slot_size_aligned c \<le> slot_size c + 1
    \<and> head_dim c * value_quant_bits c \<le> 8 * (value_packed_size c - 4)
    \<and> 8 * (value_packed_size c - 4) < head_dim c * value_quant_bits c + 8
    \<and> (if key_fp8 c then key_packed_size c = head_dim c
       else head_dim c * key_mse_bits c \<le> 8 * (key_packed_size c - 2)
          \<and> 8 * (key_packed_size c - 2) < head_dim c * key_mse_bits c + 8)"
proof -
  have "slot_size c mod 2 \<in> {0, 1}" by auto
  then have "slot_size c \<le> slot_size_aligned c" "slot_size_aligned c \<le> slot_size c + 1"
    by (auto simp: slot_size_aligned_def Let_def)
  moreover have "x \<le> 8 * cdiv x 8" "8 * cdiv x 8 < x + 8" for x
    using cdiv_covers[of 8 x] cdiv_tight[of 8 x] by (auto simp: algebra_simps)
  ultimately show ?thesis
    by (simp add: slot_size_aligned_even value_packed_size_def key_packed_size_def)
qed

text \<open>
  C25: The layers left uncompressed are the first and the last \<open>n\<close> of the model, \<open>n\<close> being cut to half
  the number of layers: the result lists the decimal names of exactly these indices in increasing
  order, no name twice, \<open>2 * min n (num_layers // 2)\<close> in all.  For non-positive arguments the list is
  empty.
\<close>

theorem boundary_skip_layers_spec:
  "if n \<le> 0 \<or> num_layers \<le> 0 then get_boundary_skip_layers num_layers n = []
   else get_boundary_skip_layers num_layers n =
          map (\<lambda>i. nat_str (nat i)) (filter (\<lambda>i. i < min n (num_layers div 2) \<or> num_layers - min n (num_layers div 2) \<le> i)
            [0..num_layers - 1])
      \<and> distinct (get_boundary_skip_layers num_layers n)
      \<and> int (length (get_boundary_skip_layers num_layers n)) = 2 * min n (num_layers div 2)"
proof (cases "n \<le> 0 \<or> num_layers \<le> 0")
  case True
  then show ?thesis by (auto simp: get_boundary_skip_layers_def boundary_skip_indices_def)
next
  case False
  then have pos: "0 < n" "0 < num_layers" by auto
  have "inj_on (\<lambda>i. nat_str (nat i)) (set (boundary_skip_indices num_layers n))"
    unfolding boundary_skip_indices_eq[OF pos] by (auto intro!: inj_onI dest: nat_str_inject)
  then have "distinct (get_boundary_skip_layers num_layers n)"
    by (simp add: get_boundary_skip_layers_def distinct_map boundary_skip_indices_eq[OF pos])
  with False show ?thesis
    using length_boundary_skip_indices[OF pos]
    by (simp add: get_boundary_skip_layers_def boundary_skip_indices_eq[OF pos])
qed

end
