(* ===== verification/Lloyd_Max.thy ===== *)
theory Lloyd_Max
  imports Complex_Main Prelude
begin

text \<open>
  The Lloyd-Max solver of \<open>vllm/model_executor/layers/quantization/turboquant/centroids.py\<close>: trapezoidal
  integration, the centroid/boundary iteration with its early stop, and the cached entry point.

  The solver is written once over any ordered field, with the density and the standard deviation as
  arguments, so that it can be run on rationals; \<open>get_centroids\<close> instantiates it with the Gaussian
  density over the reals and converts the results to single precision.  The conversion is an argument; the
  double-precision arithmetic before it is taken as exact.
\<close>

section \<open>The solver\<close>

definition gaussian_pdf :: "real \<Rightarrow> real \<Rightarrow> real" where
  "gaussian_pdf x sigma2 = (1 / sqrt (2 * pi * sigma2)) * exp (- x * x / (2 * sigma2))"

definition trapz :: "('a :: linordered_field \<Rightarrow> 'a) \<Rightarrow> 'a \<Rightarrow> 'a \<Rightarrow> nat \<Rightarrow> 'a" where
  "trapz f a b n =
     (let h = (b - a) / of_nat n;
          result = foldl (\<lambda>result i. result + f (a + of_nat i * h)) ((f a + f b) / 2) [1..<n]
      in result * h)"

definition lm_boundaries :: "'a :: linordered_field list \<Rightarrow> 'a list" where
  "lm_boundaries cs = map (\<lambda>i. (cs ! i + cs ! (i + 1)) / 2) [0..<length cs - 1]"

definition lm_new_centroids :: "('a :: linordered_field \<Rightarrow> 'a) \<Rightarrow> 'a \<Rightarrow> 'a \<Rightarrow> 'a list \<Rightarrow> 'a list" where
  "lm_new_centroids pdf lo hi cs =
     (let edges = [lo * 3] @ lm_boundaries cs @ [hi * 3]
      in map (\<lambda>i. let a = edges ! i; b = edges ! (i + 1);
                      num = trapz (\<lambda>x. x * pdf x) a b 200;
                      den = trapz pdf a b 200
                  in if den > 1 / 10 ^ 15 then num / den else cs ! i) [0..<length cs])"

text \<open>\<open>max(abs(new[i] - old[i]) ...) < tol\<close>.\<close>

definition lm_converged :: "'a :: linordered_field \<Rightarrow> 'a list \<Rightarrow> 'a list \<Rightarrow> bool" where
  "lm_converged tol new old \<longleftrightarrow> Max (set (map2 (\<lambda>x y. \<bar>x - y\<bar>) new old)) < tol"

fun lm_loop :: "('a :: linordered_field \<Rightarrow> 'a) \<Rightarrow> 'a \<Rightarrow> 'a \<Rightarrow> 'a \<Rightarrow> nat \<Rightarrow> 'a list \<Rightarrow> 'a list" where
  "lm_loop pdf lo hi tol 0 cs = cs"
| "lm_loop pdf lo hi tol (Suc k) cs =
     (let new = lm_new_centroids pdf lo hi cs
      in if lm_converged tol new cs then cs else lm_loop pdf lo hi tol k new)"

definition lm_initial :: "'a :: linordered_field \<Rightarrow> 'a \<Rightarrow> nat \<Rightarrow> 'a list" where
  "lm_initial lo hi n = map (\<lambda>i. lo + (hi - lo) * (of_nat i + 1 / 2) / of_nat n) [0..<n]"

definition solve_lloyd_max :: "('a :: linordered_field \<Rightarrow> 'a) \<Rightarrow> 'a \<Rightarrow> nat \<Rightarrow> nat \<Rightarrow> 'a \<Rightarrow> 'a list \<times> 'a list" where
  "solve_lloyd_max pdf sigma bits max_iter tol =
     (let lo = - (7 / 2) * sigma; hi = 7 / 2 * sigma;
          cs = lm_loop pdf lo hi tol max_iter (lm_initial lo hi (2 ^ bits))
      in (cs, lm_boundaries cs))"

text \<open>\<open>torch.tensor(..., dtype=torch.float32)\<close> rounds every entry by \<open>f32\<close>.\<close>

definition solve_lloyd_max_gauss :: "(real \<Rightarrow> real) \<Rightarrow> nat \<Rightarrow> nat \<Rightarrow> nat \<Rightarrow> real \<Rightarrow> real list \<times> real list" where
  "solve_lloyd_max_gauss f32 d bits max_iter tol =
     (let sigma2 = 1 / real d;
          (centroids, boundaries) = solve_lloyd_max (\<lambda>x. gaussian_pdf x sigma2) (sqrt sigma2) bits max_iter tol
      in (map f32 centroids, map f32 boundaries))"

definition get_centroids :: "(real \<Rightarrow> real) \<Rightarrow> nat \<Rightarrow> nat \<Rightarrow> real list" where
  "get_centroids f32 d bits = fst (solve_lloyd_max_gauss f32 d bits 200 (1 / 10 ^ 10))"

section \<open>A trapezoidal mean lies strictly inside its interval\<close>

lemma foldl_add_map: "foldl (\<lambda>r i. r + g i) (c :: 'a :: comm_monoid_add) xs = c + sum_list (map g xs)"
  by (induction xs arbitrary: c) (simp_all add: add.assoc)

lemma trapz_eq:
  "trapz f a b n = ((f a + f b) / 2 + sum_list (map (\<lambda>i. f (a + of_nat i * ((b - a) / of_nat n))) [1..<n]))
     * ((b - a) / of_nat n)"
  by (simp add: trapz_def Let_def foldl_add_map)

lemma grid_point:
  fixes a b :: "'a :: linordered_field"
  assumes "a < b" and "i \<le> n" and "0 < n"
  shows "a \<le> a + of_nat i * ((b - a) / of_nat n)" "a + of_nat i * ((b - a) / of_nat n) \<le> b"
proof -
  show "a \<le> a + of_nat i * ((b - a) / of_nat n)" using assms(1) by simp
  have "of_nat i * (b - a) \<le> of_nat n * (b - a)" using assms by (intro mult_right_mono) auto
  then have "of_nat i * ((b - a) / of_nat n) \<le> b - a" using assms(3) by (simp add: pos_divide_le_eq mult.commute)
  then show "a + of_nat i * ((b - a) / of_nat n) \<le> b" by simp
qed

lemma trapz_pos:
  assumes "a < b" and "\<And>x. a \<le> x \<Longrightarrow> x \<le> b \<Longrightarrow> 0 \<le> f x" and "0 < f a + f b" and "0 < n"
  shows "0 < trapz f a b n"
proof -
  have "0 \<le> sum_list (map (\<lambda>i. f (a + of_nat i * ((b - a) / of_nat n))) [1..<n])"
    using assms(2) grid_point[OF assms(1) _ assms(4)] by (intro sum_list_nonneg) auto
  with assms show ?thesis unfolding trapz_eq by (intro mult_pos_pos add_pos_nonneg) auto
qed

lemma trapz_linear: "trapz (\<lambda>x. c * f x + g x) a b n = c * trapz f a b n + trapz g a b n"
proof -
  have "sum_list (map (\<lambda>i. c * f' i + g' i) xs) = c * sum_list (map f' xs) + sum_list (map g' xs)"
    for f' g' :: "nat \<Rightarrow> 'a" and xs
    by (induction xs) (simp_all add: algebra_simps)
  then show ?thesis unfolding trapz_eq by (simp add: algebra_simps add_divide_distrib)
qed

lemma trapz_mean:
  assumes "a < b" and "\<And>x. 0 < p x" and "0 < n"
  shows "a < trapz (\<lambda>x. x * p x) a b n / trapz p a b n" "trapz (\<lambda>x. x * p x) a b n / trapz p a b n < b"
proof -
  have den: "0 < trapz p a b n" using assms by (intro trapz_pos) (auto simp: add_pos_pos less_imp_le)
  have "0 < trapz (\<lambda>x. - a * p x + x * p x) a b n"
  proof (rule trapz_pos[OF assms(1) _ _ assms(3)])
    show "0 \<le> - a * p x + x * p x" if "a \<le> x" "x \<le> b" for x
      using that assms(2)[of x] mult_right_mono[of a x "p x"] by simp
    show "0 < - a * p a + a * p a + (- a * p b + b * p b)"
      using assms(1) assms(2)[of b] mult_strict_right_mono[of a b "p b"] by simp
  qed
  then have "a * trapz p a b n < trapz (\<lambda>x. x * p x) a b n" unfolding trapz_linear by simp
  with den show "a < trapz (\<lambda>x. x * p x) a b n / trapz p a b n" by (simp add: pos_less_divide_eq)
  have "0 < trapz (\<lambda>x. b * p x + - (x * p x)) a b n"
  proof (rule trapz_pos[OF assms(1) _ _ assms(3)])
    show "0 \<le> b * p x + - (x * p x)" if "a \<le> x" "x \<le> b" for x
      using that assms(2)[of x] mult_right_mono[of x b "p x"] by simp
    show "0 < b * p a + - (a * p a) + (b * p b + - (b * p b))"
      using assms(1) assms(2)[of a] mult_strict_right_mono[of a b "p a"] by simp
  qed
  moreover have "trapz (\<lambda>x. - (x * p x)) a b n = - trapz (\<lambda>x. x * p x) a b n"
    using trapz_linear[of "-1" "\<lambda>x. x * p x" "\<lambda>_. 0" a b n] by (simp add: trapz_eq[of "\<lambda>_. 0"])
  ultimately have "trapz (\<lambda>x. x * p x) a b n < b * trapz p a b n" unfolding trapz_linear by simp
  with den show "trapz (\<lambda>x. x * p x) a b n / trapz p a b n < b" by (simp add: pos_divide_less_eq)
qed

section \<open>Every iterate is a strictly increasing grid\<close>

definition lm_ok :: "'a :: linordered_field \<Rightarrow> 'a \<Rightarrow> 'a list \<Rightarrow> bool" where
  "lm_ok lo hi cs \<longleftrightarrow> cs \<noteq> [] \<and> sorted_wrt (<) cs \<and> (\<forall>c\<in>set cs. lo * 3 < c \<and> c < hi * 3)"

lemma length_lm_boundaries [simp]: "length (lm_boundaries cs) = length cs - 1"
  by (simp add: lm_boundaries_def)

lemma nth_lm_boundaries:
  "Suc i < length cs \<Longrightarrow> lm_boundaries cs ! i = (cs ! i + cs ! Suc i) / 2"
  by (simp add: lm_boundaries_def)

lemma lm_edges:
  assumes ok: "lm_ok lo hi cs" and i: "i < length cs"
  defines "edges \<equiv> [lo * 3] @ lm_boundaries cs @ [hi * 3]"
  shows "edges ! i < cs ! i" "cs ! i < edges ! Suc i"
proof -
  have step: "cs ! j < cs ! Suc j" if "Suc j < length cs" for j
    using ok that by (simp add: lm_ok_def sorted_wrt_iff_nth_Suc_transp)
  have box: "lo * 3 < cs ! i" "cs ! i < hi * 3" using ok i by (auto simp: lm_ok_def)
  show "edges ! i < cs ! i"
  proof (cases i)
    case 0
    with box show ?thesis by (simp add: edges_def)
  next
    case (Suc j)
    with i have "edges ! i = (cs ! j + cs ! i) / 2" by (simp add: edges_def nth_append nth_lm_boundaries)
    with step[of j] Suc i show ?thesis by (simp add: field_simps)
  qed
  show "cs ! i < edges ! Suc i"
  proof (cases "Suc i < length cs")
    case True
    then have "edges ! Suc i = (cs ! i + cs ! Suc i) / 2" by (simp add: edges_def nth_append nth_lm_boundaries)
    with step[OF True] show ?thesis by (simp add: field_simps)
  next
    case False
    with i have "i = length (lm_boundaries cs)" by simp
    then have "edges ! Suc i = hi * 3" by (simp only: edges_def append_Cons append_Nil nth_Cons_Suc nth_append_length)
    with box show ?thesis by simp
  qed
qed

lemma lm_new_centroids_between:
  assumes ok: "lm_ok lo hi cs" and pdf: "\<And>x. 0 < pdf x" and i: "i < length cs"
  defines "edges \<equiv> [lo * 3] @ lm_boundaries cs @ [hi * 3]"
  shows "edges ! i < lm_new_centroids pdf lo hi cs ! i" "lm_new_centroids pdf lo hi cs ! i < edges ! Suc i"
proof -
  note E = lm_edges[OF ok i, folded edges_def]
  have lt: "edges ! i < edges ! Suc i" using E by (rule less_trans)
  have "lm_new_centroids pdf lo hi cs ! i =
     (if trapz pdf (edges ! i) (edges ! Suc i) 200 > 1 / 10 ^ 15
      then trapz (\<lambda>x. x * pdf x) (edges ! i) (edges ! Suc i) 200 / trapz pdf (edges ! i) (edges ! Suc i) 200
      else cs ! i)"
    using i by (simp add: lm_new_centroids_def Let_def edges_def)
  with E trapz_mean[OF lt pdf, of 200] show "edges ! i < lm_new_centroids pdf lo hi cs ! i"
    "lm_new_centroids pdf lo hi cs ! i < edges ! Suc i" by simp_all
qed

lemma length_lm_new_centroids [simp]: "length (lm_new_centroids pdf lo hi cs) = length cs"
  by (simp add: lm_new_centroids_def Let_def)

lemma lm_edges_box:
  assumes ok: "lm_ok lo hi cs" and i: "i \<le> length cs"
  shows "lo * 3 \<le> ([lo * 3] @ lm_boundaries cs @ [hi * 3]) ! i" "([lo * 3] @ lm_boundaries cs @ [hi * 3]) ! i \<le> hi * 3"
proof -
  let ?e = "[lo * 3] @ lm_boundaries cs @ [hi * 3]"
  have ne: "cs \<noteq> []" and c: "\<And>j. j < length cs \<Longrightarrow> lo * 3 < cs ! j \<and> cs ! j < hi * 3" using ok by (auto simp: lm_ok_def)
  have "lo * 3 < hi * 3" using c[of 0] ne by (auto intro: less_trans)
  moreover have "?e ! i = hi * 3" if "i = length cs" using that ne by (cases cs) (auto simp: nth_append)
  moreover have "?e ! 0 = lo * 3" by simp
  moreover have "lo * 3 < ?e ! i" if "0 < i" "i < length cs"
  proof -
    obtain j where j: "i = Suc j" using \<open>0 < i\<close> by (cases i) auto
    then have "j < length cs" using that by simp
    with lm_edges(2)[OF ok this] c[OF this] j show ?thesis by (simp only:) (blast intro: less_trans)
  qed
  moreover have "?e ! i < hi * 3" if "i < length cs"
    using lm_edges(1)[OF ok that] c[OF that] by (blast intro: less_trans)
  ultimately show "lo * 3 \<le> ?e ! i" "?e ! i \<le> hi * 3" using i
    by (metis le_less nat_less_le not_gr_zero order.refl)+
qed

lemma lm_new_centroids_ok:
  assumes ok: "lm_ok lo hi cs" and pdf: "\<And>x. 0 < pdf x"
  shows "lm_ok lo hi (lm_new_centroids pdf lo hi cs)"
proof -
  let ?n = "lm_new_centroids pdf lo hi cs"
  note B = lm_new_centroids_between[OF ok, of pdf, OF pdf]
  have "?n ! i < ?n ! Suc i" if "Suc i < length cs" for i
    using B(2)[of i] B(1)[of "Suc i"] that by (blast intro: less_trans Suc_lessD)
  then have "sorted_wrt (<) ?n" by (simp add: sorted_wrt_iff_nth_Suc_transp)
  moreover have "lo * 3 < ?n ! i \<and> ?n ! i < hi * 3" if "i < length cs" for i
    using B[OF that] lm_edges_box(1)[OF ok, of i] lm_edges_box(2)[OF ok, of "Suc i"] that
    by (meson Suc_leI less_imp_le_nat order.strict_trans1 order.strict_trans2)
  moreover have "?n \<noteq> []" using ok length_lm_new_centroids[of pdf lo hi cs] by (metis length_0_conv lm_ok_def)
  ultimately show ?thesis by (auto simp: lm_ok_def in_set_conv_nth)
qed

lemma lm_loop_ok:
  assumes "lm_ok lo hi cs" and "\<And>x. 0 < pdf x"
  shows "lm_ok lo hi (lm_loop pdf lo hi tol k cs) \<and> length (lm_loop pdf lo hi tol k cs) = length cs"
  using assms(1)
proof (induction k arbitrary: cs)
  case (Suc k)
  then show ?case using lm_new_centroids_ok[OF Suc.prems assms(2)] by (auto simp: Let_def)
qed simp

lemma lm_initial_ok:
  assumes "0 < (sigma :: 'a :: linordered_field)" and "0 < n"
  shows "lm_ok (- (7 / 2) * sigma) (7 / 2 * sigma) (lm_initial (- (7 / 2) * sigma) (7 / 2 * sigma) n)"
proof -
  let ?f = "\<lambda>i. - (7 / 2) * sigma + (7 / 2 * sigma - - (7 / 2) * sigma) * (of_nat i + 1 / 2) / of_nat n"
  have f: "?f i = - (7 / 2) * sigma + 7 * sigma * ((of_nat i + 1 / 2) / of_nat n)" for i by (simp add: field_simps)
  have "?f i < ?f j" if "i < j" for i j :: nat
  proof -
    have "(of_nat i + 1 / 2) / of_nat n < (of_nat j + 1 / 2) / (of_nat n :: 'a)"
      using that assms(2) by (intro divide_strict_right_mono) auto
    then show ?thesis unfolding f using assms(1) by (intro add_strict_left_mono mult_strict_left_mono) auto
  qed
  moreover have "- (7 / 2) * sigma * 3 < ?f i \<and> ?f i < 7 / 2 * sigma * 3" if "i < n" for i
  proof -
    define t where "t = (of_nat i + 1 / 2) / (of_nat n :: 'a)"
    have "of_nat i + 1 \<le> (of_nat n :: 'a)" using that by (metis Suc_leI of_nat_Suc of_nat_le_iff add.commute)
    then have "of_nat i + 1 / 2 < (of_nat n :: 'a)" by (rule less_le_trans[rotated]) simp
    then have "0 < t" "t < 1" using assms(2) by (auto simp: t_def intro!: divide_pos_pos add_nonneg_pos)
    then have "0 < 7 * sigma * t" "7 * sigma * t < 7 * sigma"
      using assms(1) mult_strict_left_mono[of t 1 "7 * sigma"] by auto
    moreover have "?f i = - (7 / 2) * sigma + 7 * sigma * t" unfolding t_def by (rule f)
    ultimately show ?thesis using assms(1) by (simp only:) (simp add: field_simps)
  qed
  ultimately show ?thesis
    using assms(2) by (auto simp: lm_ok_def lm_initial_def sorted_wrt_iff_nth_less)
qed

lemma solve_lloyd_max_ok:
  assumes "0 < sigma" and "\<And>x. 0 < pdf x"
  shows "case solve_lloyd_max pdf sigma bits max_iter tol of (cs, bs) \<Rightarrow>
     length cs = 2 ^ bits \<and> length bs = 2 ^ bits - 1 \<and> sorted_wrt (<) cs
     \<and> (\<forall>i<2 ^ bits - 1. cs ! i < bs ! i \<and> bs ! i < cs ! Suc i \<and> bs ! i = (cs ! i + cs ! Suc i) / 2)
     \<and> (\<forall>c\<in>set cs. \<bar>c\<bar> < 21 / 2 * sigma)"
proof -
  let ?lo = "- (7 / 2) * sigma" and ?hi = "7 / 2 * sigma"
  let ?c0 = "lm_initial ?lo ?hi (2 ^ bits)" let ?cs = "lm_loop pdf ?lo ?hi tol max_iter ?c0"
  have L: "lm_ok ?lo ?hi ?cs" "length ?cs = length ?c0"
    using lm_loop_ok[OF lm_initial_ok[OF assms(1), of "2 ^ bits"] assms(2)] by auto
  then have len: "length ?cs = 2 ^ bits" by (simp add: lm_initial_def)
  have "?cs ! i < ?cs ! Suc i" if "Suc i < length ?cs" for i
    using L(1) that by (simp add: lm_ok_def sorted_wrt_iff_nth_Suc_transp)
  then have "\<forall>i<2 ^ bits - 1. ?cs ! i < lm_boundaries ?cs ! i \<and> lm_boundaries ?cs ! i < ?cs ! Suc i
      \<and> lm_boundaries ?cs ! i = (?cs ! i + ?cs ! Suc i) / 2"
    using len by (auto simp: nth_lm_boundaries field_simps)
  moreover have "\<bar>c\<bar> < 21 / 2 * sigma" if "c \<in> set ?cs" for c
    using L(1) that by (auto simp: lm_ok_def abs_less_iff)
  ultimately show ?thesis using L(1) len by (simp add: solve_lloyd_max_def Let_def lm_ok_def)
qed

section \<open>Properties\<close>

text \<open>
  C17: With exact arithmetic up to the final conversion to single precision, for every positive dimension,
  iteration limit and tolerance, the solver returns the rounded values of \<open>2^bits\<close> strictly increasing
  numbers within 10.5 standard deviations and of the \<open>2^bits - 1\<close> midpoints between them.  As rounding is
  monotone, the returned centroids are sorted and every boundary lies between its two centroids; two
  neighbouring centroids are equal only if rounding identifies them.
\<close>

theorem lloyd_max_grid:
  assumes "0 < d" and "mono f32"
  shows "\<exists>grid. length grid = 2 ^ bits \<and> sorted_wrt (<) grid \<and> (\<forall>c\<in>set grid. \<bar>c\<bar> < 21 / 2 * sqrt (1 / real d))
     \<and> (case solve_lloyd_max_gauss f32 d bits max_iter tol of (cs, bs) \<Rightarrow>
          cs = map f32 grid \<and> bs = map (\<lambda>i. f32 ((grid ! i + grid ! Suc i) / 2)) [0..<2 ^ bits - 1]
          \<and> sorted cs \<and> (\<forall>i<2 ^ bits - 1. cs ! i \<le> bs ! i \<and> bs ! i \<le> cs ! Suc i))"
proof -
  let ?s = "solve_lloyd_max (\<lambda>x. gaussian_pdf x (1 / real d)) (sqrt (1 / real d)) bits max_iter tol"
  obtain cs bs where S: "?s = (cs, bs)" by (cases ?s)
  have "0 < gaussian_pdf x (1 / real d)" for x using assms by (simp add: gaussian_pdf_def)
  moreover have "0 < sqrt (1 / real d)" using assms by simp
  ultimately have ok: "length cs = 2 ^ bits" "length bs = 2 ^ bits - 1" "sorted_wrt (<) cs"
      "\<forall>i<2 ^ bits - 1. cs ! i < bs ! i \<and> bs ! i < cs ! Suc i \<and> bs ! i = (cs ! i + cs ! Suc i) / 2"
      "\<forall>c\<in>set cs. \<bar>c\<bar> < 21 / 2 * sqrt (1 / real d)"
    using solve_lloyd_max_ok[of "sqrt (1 / real d)" "\<lambda>x. gaussian_pdf x (1 / real d)" bits max_iter tol] S by auto
  have "map f32 bs = map (\<lambda>i. f32 ((cs ! i + cs ! Suc i) / 2)) [0..<2 ^ bits - 1]"
  proof (rule nth_equalityI)
    fix i assume "i < length (map f32 bs)"
    then have "i < 2 ^ bits - 1" using ok(2) by simp
    with ok(2,4) have "bs ! i = (cs ! i + cs ! Suc i) / 2" "i < length bs" by (blast, simp)
    then show "map f32 bs ! i = map (\<lambda>i. f32 ((cs ! i + cs ! Suc i) / 2)) [0..<2 ^ bits - 1] ! i"
      using ok(2) by (simp only: nth_map length_upt nth_upt diff_zero add_0)
  qed (use ok(2) in simp)
  moreover have "sorted (map f32 cs)"
    using ok(3) monoD[OF assms(2)] by (auto simp: sorted_wrt_map less_imp_le elim!: sorted_wrt_mono_rel[rotated])
  moreover have "map f32 cs ! i \<le> map f32 bs ! i \<and> map f32 bs ! i \<le> map f32 cs ! Suc i" if "i < 2 ^ bits - 1" for i
    using ok(1,2,4) that monoD[OF assms(2)] by (simp add: less_imp_le)
  ultimately show ?thesis using ok S
    by (intro exI[of _ cs]) (simp add: solve_lloyd_max_gauss_def Let_def)
qed

text \<open>Rounding to a fixed grid as an example of a conversion.\<close>

definition grid_round :: "real \<Rightarrow> real" where
  "grid_round x = of_int \<lfloor>x * 2 ^ 24\<rfloor> / 2 ^ 24"

theorem lloyd_max_grid_witness: "length (get_centroids grid_round 128 4) = 16 \<and> sorted (get_centroids grid_round 128 4)"
proof -
  have "mono grid_round" unfolding grid_round_def by (intro monoI divide_right_mono) (auto intro: floor_mono mult_right_mono)
  from lloyd_max_grid[OF _ this, of 128 4 200 "1 / 10 ^ 10"] show ?thesis
    by (cases "solve_lloyd_max_gauss grid_round 128 4 200 (1 / 10 ^ 10)") (auto simp: get_centroids_def)
qed

end
