(* ===== verification/TurboQuant_Ops.thy ===== *)
theory TurboQuant_Ops
  imports Complex_Main Prelude
begin

unbundle bit_operations_syntax

text \<open>
  The Ascend TurboQuant kernels of \<open>vllm_ascend/quantization/methods/turboquant_ops.py\<close>: rotation
  construction, decision boundaries, 4-bit packing, fp16 byte conversion, quantisation of a vector
  into a slot, the scatter into the paged cache and the dequantising gather.

  Numbers come from an ordered field with exact arithmetic; a half-precision value is its 16-bit
  pattern and an \<open>int32\<close> index a 32-bit word.  A batch dimension is a list.  The numeric kernels of the
  tensor library (random matrices, QR, norm, matrix products, \<open>bucketize\<close>, half-precision rounding and
  multiplication) are arguments; indexing, reshaping and broadcasting are written out, with the
  exceptions they raise.
\<close>

section \<open>Constants, rotation, boundaries, sizes\<close>

type_synonym fp16 = "16 word"
type_synonym 'a matrix = "'a list list"

definition MSE_BITS :: int where
  "MSE_BITS = 4"

definition ROTATION_SEED :: int where
  "ROTATION_SEED = 42"

definition build_random_rotation ::
    "(int \<Rightarrow> nat \<Rightarrow> 'a :: linordered_field matrix) \<Rightarrow> ('a matrix \<Rightarrow> 'a matrix \<times> 'a matrix) \<Rightarrow> nat \<Rightarrow> int \<Rightarrow> 'a matrix" where
  "build_random_rotation randn qr d seed =
     (let (Q, R) = qr (randn seed d);
          sign = map (\<lambda>i. sgn (R ! i ! i)) [0..<length R]
      in map (\<lambda>row. map2 (*) row sign) Q)"

definition compute_midpoints :: "'a :: linordered_field list \<Rightarrow> 'a list" where
  "compute_midpoints centroids =
     (let c_sorted = sort centroids in map2 (\<lambda>a b. (a + b) / 2) (butlast c_sorted) (tl c_sorted))"

definition compute_paper_slot_size :: "int \<Rightarrow> int" where
  "compute_paper_slot_size head_dim =
     (let mse_bytes = cdiv (head_dim * MSE_BITS) 8;
          norm_bytes = 2;
          per_vector = mse_bytes + norm_bytes;
          slot = per_vector * 2
      in slot + slot mod 2)"

section \<open>Packing\<close>

fun pack_pairs :: "32 word list \<Rightarrow> bytes" where
  "pack_pairs (a # b # xs) = ucast ((a AND 0xF) OR push_bit 4 (b AND 0xF)) # pack_pairs xs"
| "pack_pairs _ = []"

text \<open>\<open>reshape(..., -1, 2)\<close> fails on an odd number of indices.\<close>

definition pack_4bit :: "32 word list \<Rightarrow> bytes result" where
  "pack_4bit indices = bind_r (guard_r (even (length indices)) RuntimeError) (\<lambda>_. Inr (pack_pairs indices))"

definition unpack_4bit :: "bytes \<Rightarrow> nat \<Rightarrow> 32 word list result" where
  "unpack_4bit packed D =
     (let vals = concat (map (\<lambda>b. [ucast (b AND 0xF), ucast (drop_bit 4 b AND 0xF)]) packed)
      in bind_r (guard_r (length vals = D) RuntimeError) (\<lambda>_. Inr vals))"

definition fp16_to_bytes :: "fp16 \<Rightarrow> bytes" where
  "fp16_to_bytes i16 = [ucast (i16 AND 0xFF), ucast (signed_drop_bit 8 i16 AND 0xFF)]"

definition bytes_to_fp16 :: "bytes \<Rightarrow> fp16 result" where
  "bytes_to_fp16 b =
     bind_r (nth_r b 0) (\<lambda>b0. bind_r (nth_r b 1) (\<lambda>b1. Inr ((ucast b0 :: fp16) OR push_bit 8 (ucast b1))))"

section \<open>Quantisation and the scatter into the cache\<close>

text \<open>The numeric kernels the quantiser calls: \<open>x.norm\<close>, \<open>x_hat @ Pi.T\<close>, \<open>torch.bucketize\<close> and rounding to
  half precision.\<close>

record 'a kernels =
  k_norm :: "'a list \<Rightarrow> 'a"
  k_matmul_t :: "'a list \<Rightarrow> 'a matrix \<Rightarrow> 'a list"
  k_bucketize :: "'a \<Rightarrow> 'a list \<Rightarrow> int"
  k_to_fp16 :: "'a \<Rightarrow> fp16"

definition quantize_indices :: "'a :: linordered_field kernels \<Rightarrow> 'a list \<Rightarrow> nat \<Rightarrow> 'a list \<Rightarrow> 32 word list" where
  "quantize_indices K midpoints n_centroids y =
     map (\<lambda>v. word_of_int (min (max (k_bucketize K v midpoints) 0) (int n_centroids - 1))) y"

definition quantize_single_vector ::
    "'a :: linordered_field kernels \<Rightarrow> 'a list \<Rightarrow> 'a matrix \<Rightarrow> 'a list \<Rightarrow> 'a list \<Rightarrow> bytes result" where
  "quantize_single_vector K x Pi centroids midpoints =
     (let norms = k_norm K x;
          x_hat = map (\<lambda>v. v / (norms + 1 / 10 ^ 8)) x;
          y = k_matmul_t K x_hat Pi;
          indices = quantize_indices K midpoints (length centroids) y
      in bind_r (pack_4bit indices) (\<lambda>packed_mse. Inr (packed_mse @ fp16_to_bytes (k_to_fp16 K norms))))"

text \<open>The paged cache: its four dimensions and the bytes of each cell.\<close>

record paged_cache =
  pc_num_blocks :: nat
  pc_block_size :: nat
  pc_num_heads :: nat
  pc_slot_size :: nat
  pc_cells :: "nat \<Rightarrow> nat \<Rightarrow> nat \<Rightarrow> bytes"

definition write_cell :: "(int \<times> nat) \<times> bytes \<Rightarrow> paged_cache \<Rightarrow> paged_cache result" where
  "write_cell w c =
     (case w of ((slot, hid), data) \<Rightarrow>
      let blk = nat (slot div int (pc_block_size c)); off = nat (slot mod int (pc_block_size c)) in
      bind_r (guard_r (blk < pc_num_blocks c \<and> off < pc_block_size c \<and> hid < pc_num_heads c) IndexError) (\<lambda>_.
        Inr (c\<lparr>pc_cells := (pc_cells c)(blk := (pc_cells c blk)(off := (pc_cells c blk off)(hid := data)))\<rparr>)))"

text \<open>Keys and values are tokens of heads of vectors; \<open>value\<close> must have the shape of \<open>key\<close>, and
  \<open>slot_mapping\<close> one entry per token.  The rows assigned must have the width of a cell, whether or
  not their slot is valid.\<close>

definition store_turboquant_kv ::
    "'a :: linordered_field kernels \<Rightarrow> 'a list list list \<Rightarrow> 'a list list list \<Rightarrow> paged_cache \<Rightarrow> int list
      \<Rightarrow> 'a matrix \<Rightarrow> 'a list \<Rightarrow> 'a list \<Rightarrow> paged_cache result" where
  "store_turboquant_kv K key value kv_cache slot_mapping Pi centroids midpoints =
     (let k_flat = concat key; v_flat = concat value in
      bind_r (guard_r (map length key = map length value) RuntimeError) (\<lambda>_.
      bind_r (map_result (\<lambda>x. quantize_single_vector K x Pi centroids midpoints) k_flat) (\<lambda>k_slot.
      bind_r (map_result (\<lambda>x. quantize_single_vector K x Pi centroids midpoints) v_flat) (\<lambda>v_slot.
      bind_r (guard_r (length slot_mapping = length key) IndexError) (\<lambda>_.
        let slot_data = map2 (@) k_slot v_slot;
            slots = concat (map2 (\<lambda>s heads. map (\<lambda>h. (s, h)) [0..<length heads]) slot_mapping key);
            writes = filter (\<lambda>((s, _), _). s \<ge> 0) (zip slots slot_data)
        in bind_r (guard_r (writes \<noteq> [] \<longrightarrow> pc_block_size kv_cache \<noteq> 0) RuntimeError) (\<lambda>_.
           bind_r (guard_r (list_all (\<lambda>d. length d = pc_slot_size kv_cache) slot_data) RuntimeError) (\<lambda>_.
           fold_r write_cell writes kv_cache)))))))"

section \<open>Tensors with their shapes\<close>

text \<open>Row-major data; the operations below are the ones the dequantiser applies to tensors whose rank
  matters.\<close>

record 'a tensor =
  tshape :: "nat list"
  tdata :: "'a list"

definition numel :: "nat list \<Rightarrow> nat" where
  "numel s = fold (*) s 1"

definition t_reshape :: "nat list \<Rightarrow> 'a tensor \<Rightarrow> 'a tensor result" where
  "t_reshape s t = bind_r (guard_r (numel s = numel (tshape t)) RuntimeError) (\<lambda>_. Inr (t\<lparr>tshape := s\<rparr>))"

text \<open>\<open>shape[1]\<close>: an IndexError on a tensor of rank below two.\<close>

definition t_shape1 :: "'a tensor \<Rightarrow> nat result" where
  "t_shape1 t = nth_r (tshape t) 1"

text \<open>\<open>table[idx]\<close> with an integer index tensor: the index shape followed by the shape of an entry.\<close>

definition t_gather :: "'a tensor \<Rightarrow> 32 word tensor \<Rightarrow> 'a tensor result" where
  "t_gather table idx =
     (case tshape table of
        [] \<Rightarrow> Inl IndexError
      | n # rest \<Rightarrow>
          let w = numel rest in
          bind_r (guard_r (list_all (\<lambda>i. unat i < n) (tdata idx)) IndexError) (\<lambda>_.
            Inr \<lparr>tshape = tshape idx @ rest,
                 tdata = concat (map (\<lambda>i. take w (drop (unat i * w) (tdata table))) (tdata idx))\<rparr>))"

text \<open>Broadcasting of reversed shapes.\<close>

fun bcast_rev :: "nat list \<Rightarrow> nat list \<Rightarrow> nat list result" where
  "bcast_rev [] ys = Inr ys"
| "bcast_rev xs [] = Inr xs"
| "bcast_rev (x # xs) (y # ys) =
     (if x = y \<or> y = 1 then map_r (\<lambda>zs. x # zs) (bcast_rev xs ys)
      else if x = 1 then map_r (\<lambda>zs. y # zs) (bcast_rev xs ys)
      else Inl RuntimeError)"

fun all_indices :: "nat list \<Rightarrow> nat list list" where
  "all_indices [] = [[]]"
| "all_indices (n # s) = concat (map (\<lambda>i. map (\<lambda>is. i # is) (all_indices s)) [0..<n])"

text \<open>The element a broadcast operand contributes at a multi-index of the result.\<close>

definition bcast_elem :: "'a tensor \<Rightarrow> nat list \<Rightarrow> 'a" where
  "bcast_elem t ix =
     (let own = drop (length ix - length (tshape t)) ix
      in tdata t ! foldl (\<lambda>acc (n, i). acc * n + (if n = 1 then 0 else i)) 0 (zip (tshape t) own))"

definition t_mul :: "('a \<Rightarrow> 'a \<Rightarrow> 'a) \<Rightarrow> 'a tensor \<Rightarrow> 'a tensor \<Rightarrow> 'a tensor result" where
  "t_mul mul s t =
     bind_r (bcast_rev (rev (tshape s)) (rev (tshape t))) (\<lambda>rs.
       Inr \<lparr>tshape = rev rs, tdata = map (\<lambda>ix. mul (bcast_elem s ix) (bcast_elem t ix)) (all_indices (rev rs))\<rparr>)"

text \<open>\<open>(centroids.to(torch.float32) @ Pi).to(torch.float16)\<close>.\<close>

definition compute_pi_centroids ::
    "('a tensor \<Rightarrow> 'a tensor \<Rightarrow> 'a tensor result) \<Rightarrow> ('a \<Rightarrow> fp16) \<Rightarrow> 'a tensor \<Rightarrow> 'a tensor \<Rightarrow> fp16 tensor result" where
  "compute_pi_centroids matmul to_fp16 centroids Pi =
     map_r (\<lambda>t. \<lparr>tshape = tshape t, tdata = map to_fp16 (tdata t)\<rparr>) (matmul centroids Pi)"

section \<open>Dequantisation\<close>

text \<open>The two columns ranges of the flattened slots: the packed indices of \<open>M\<close> rows and their norms.\<close>

definition unpack_rows :: "bytes list \<Rightarrow> nat \<Rightarrow> nat \<Rightarrow> nat \<Rightarrow> (32 word tensor \<times> fp16 list) result" where
  "unpack_rows rows base mse_bytes D =
     bind_r (map_result (\<lambda>r. unpack_4bit (take mse_bytes (drop base r)) D) rows) (\<lambda>indices.
     bind_r (map_result (\<lambda>r. bytes_to_fp16 (take 2 (drop (base + mse_bytes) r))) rows) (\<lambda>norms.
       Inr (\<lparr>tshape = [length rows, D], tdata = concat indices\<rparr>, norms)))"

definition dequant_single_vector ::
    "(fp16 \<Rightarrow> fp16 \<Rightarrow> fp16) \<Rightarrow> bytes list \<Rightarrow> fp16 tensor \<Rightarrow> nat \<Rightarrow> nat \<Rightarrow> fp16 tensor result" where
  "dequant_single_vector mul16 slot_flat pi_centroids D offset =
     bind_r (unpack_rows slot_flat offset (nat (cdiv (int D * MSE_BITS) 8)) D) (\<lambda>(indices, vec_norm).
     bind_r (t_gather pi_centroids indices) (\<lambda>x_hat_unit.
       t_mul mul16 x_hat_unit \<lparr>tshape = [length vec_norm, 1], tdata = vec_norm\<rparr>))"

text \<open>\<open>block_table.gather(1, page_idx.clamp(max=max_page))\<close> followed by \<open>kv_cache[block_nums, page_off]\<close>,
  flattened to one row per position and head.\<close>

definition gather_slots :: "paged_cache \<Rightarrow> int list list \<Rightarrow> nat \<Rightarrow> bytes list result" where
  "gather_slots c block_table alloc_len =
     map_r (\<lambda>rows. concat (concat rows))
       (map_result (\<lambda>table.
          map_result (\<lambda>pos.
            bind_r (nth_r table (min (int (pos div pc_block_size c)) (int (length table) - 1))) (\<lambda>blk.
            bind_r (guard_r (- int (pc_num_blocks c) \<le> blk \<and> blk < int (pc_num_blocks c)) IndexError) (\<lambda>_.
              let b = nat (if blk < 0 then blk + int (pc_num_blocks c) else blk)
              in Inr (map (pc_cells c b (pos mod pc_block_size c)) [0..<pc_num_heads c])))) [0..<alloc_len]) block_table)"

text \<open>A buffer is reused when its first and third dimension suffice; after slicing, the assignment
  needs the remaining dimensions to match.\<close>

definition buffer_shape :: "nat list option \<Rightarrow> nat \<Rightarrow> nat \<Rightarrow> nat \<Rightarrow> nat \<Rightarrow> nat list result" where
  "buffer_shape buf B Hk alloc_len D =
     (case buf of
        None \<Rightarrow> Inr [B, Hk, alloc_len, D]
      | Some [b, h, l, d] \<Rightarrow> Inr (if b < B \<or> l < alloc_len then [B, Hk, alloc_len, D] else [B, h, alloc_len, d])
      | Some _ \<Rightarrow> Inl IndexError)"

definition recon_into :: "nat list \<Rightarrow> nat \<Rightarrow> nat \<Rightarrow> nat \<Rightarrow> nat \<Rightarrow> fp16 tensor \<Rightarrow> fp16 tensor result" where
  "recon_into buf B alloc_len Hk D recon =
     bind_r (t_reshape [B, alloc_len, Hk, D] recon) (\<lambda>t.
     bind_r (guard_r (buf = [B, Hk, alloc_len, D]) RuntimeError) (\<lambda>_.
       Inr \<lparr>tshape = buf,
            tdata = map (\<lambda>ix. bcast_elem t [ix ! 0, ix ! 2, ix ! 1, ix ! 3]) (all_indices [B, Hk, alloc_len, D])\<rparr>))"

definition dequant_paged_kv ::
    "(fp16 \<Rightarrow> fp16 \<Rightarrow> fp16) \<Rightarrow> paged_cache \<Rightarrow> int list list \<Rightarrow> int list \<Rightarrow> fp16 tensor \<Rightarrow> nat list option \<Rightarrow> nat list option
      \<Rightarrow> (fp16 tensor \<times> fp16 tensor \<times> nat) result" where
  "dequant_paged_kv mul16 kv_cache block_table seq_lens pi_centroids k_buf v_buf =
     (let B = length block_table; Hk = pc_num_heads kv_cache; bs = pc_block_size kv_cache in
      bind_r (t_shape1 pi_centroids) (\<lambda>D.
      bind_r (guard_r (seq_lens \<noteq> []) RuntimeError) (\<lambda>_.
      bind_r (guard_r (bs \<noteq> 0) ZeroDivisionError) (\<lambda>_.
      let alloc_len = nat (cdiv (Max (set seq_lens)) (int bs) * int bs);
          mse_bytes = nat (cdiv (int D * MSE_BITS) 8);
          per_vector = mse_bytes + 2
      in
      bind_r (buffer_shape k_buf B Hk alloc_len D) (\<lambda>kb.
      bind_r (buffer_shape v_buf B Hk alloc_len D) (\<lambda>vb.
      bind_r (gather_slots kv_cache block_table alloc_len) (\<lambda>slot_flat.
      bind_r (unpack_rows slot_flat 0 mse_bytes D) (\<lambda>(indices_k, norm_k).
      bind_r (t_gather pi_centroids indices_k) (\<lambda>gk.
      bind_r (t_mul mul16 gk \<lparr>tshape = [length norm_k, 1], tdata = norm_k\<rparr>) (\<lambda>k_recon.
      bind_r (unpack_rows slot_flat per_vector mse_bytes D) (\<lambda>(indices_v, norm_v).
      bind_r (t_gather pi_centroids indices_v) (\<lambda>gv.
      bind_r (t_mul mul16 gv \<lparr>tshape = [length norm_v, 1], tdata = norm_v\<rparr>) (\<lambda>v_recon.
      bind_r (recon_into kb B alloc_len Hk D k_recon) (\<lambda>k.
      bind_r (recon_into vb B alloc_len Hk D v_recon) (\<lambda>v.
        Inr (k, v, alloc_len))))))))))))))))"

section \<open>Packing is lossless\<close>

lemma and_F: "x AND 0xF = take_bit 4 (x :: 'a :: len word)"
  by (simp add: take_bit_eq_mask mask_eq_exp_minus_1)

lemma and_FF: "x AND 0xFF = take_bit 8 (x :: 'a :: len word)"
  by (simp add: take_bit_eq_mask mask_eq_exp_minus_1)

lemma nibble_low:
  "ucast ((ucast ((a AND 0xF) OR push_bit 4 (b AND 0xF)) :: 8 word) AND 0xF) = (a AND 0xF :: 32 word)"
  unfolding and_F by (rule bit_word_eqI) (auto simp: bit_simps)

lemma nibble_high:
  "ucast (drop_bit 4 (ucast ((a AND 0xF) OR push_bit 4 (b AND 0xF)) :: 8 word) AND 0xF) = (b AND 0xF :: 32 word)"
  unfolding and_F by (rule bit_word_eqI) (auto simp: bit_simps)

lemma nibble_join:
  "ucast (((ucast (x AND 0xF) :: 32 word) AND 0xF) OR push_bit 4 ((ucast (drop_bit 4 x AND 0xF) :: 32 word) AND 0xF)) = (x :: 8 word)"
  unfolding and_F by (rule bit_word_eqI) (auto simp: bit_simps)

lemma half_join:
  "(ucast (ucast (w AND 0xFF) :: 8 word) :: 16 word) OR push_bit 8 (ucast (ucast (signed_drop_bit 8 w AND 0xFF) :: 8 word)) = w"
  unfolding and_FF by (rule bit_word_eqI) (auto simp: bit_simps, metis le_add_diff_inverse not_le)

lemma half_split:
  fixes b0 b1 :: "8 word"
  shows "ucast (((ucast b0 :: 16 word) OR push_bit 8 (ucast b1)) AND 0xFF) = b0"
    and "ucast (signed_drop_bit 8 ((ucast b0 :: 16 word) OR push_bit 8 (ucast b1)) AND 0xFF) = b1"
  unfolding and_FF by (rule bit_word_eqI, auto simp: bit_simps dest: bit_imp_le_length)+

lemma length_pack_pairs: "length (pack_pairs xs) = length xs div 2"
  by (induction xs rule: pack_pairs.induct) auto

lemma unpack_pack_pairs:
  "even (length xs) \<Longrightarrow>
     concat (map (\<lambda>b. [ucast (b AND 0xF), ucast (drop_bit 4 b AND 0xF)]) (pack_pairs xs)) = map (\<lambda>x. x AND 0xF) xs"
  by (induction xs rule: pack_pairs.induct) (simp_all only: pack_pairs.simps list.map concat.simps nibble_low nibble_high, auto)

lemma pack_unpack_pairs:
  "pack_pairs (concat (map (\<lambda>b. [ucast (b AND 0xF), ucast (drop_bit 4 b AND 0xF)]) bs)) = bs"
  by (induction bs) (simp_all only: pack_pairs.simps list.map concat.simps append_Cons append_Nil nibble_join)

lemma nibble_small: "unat (x :: 32 word) < 16 \<Longrightarrow> x AND 0xF = x"
  unfolding and_F by (simp add: word_unat_eq_iff unsigned_take_bit_eq take_bit_nat_eq_self)

lemma length_nibbles: "length (concat (map (\<lambda>b. [f b, g b]) bs)) = 2 * length bs"
  by (induction bs) auto

text \<open>A byte codec: what the store writes, the load reads back.\<close>

locale byte_codec =
  fixes encode :: "'x \<Rightarrow> bytes result" and decode :: "bytes \<Rightarrow> 'x result"
    and ok :: "'x \<Rightarrow> bool" and shape :: "bytes \<Rightarrow> bool"
  assumes decode_encode: "ok x \<Longrightarrow> \<exists>bs. encode x = Inr bs \<and> shape bs \<and> decode bs = Inr x"
    and encode_decode: "shape bs \<Longrightarrow> \<exists>x. decode bs = Inr x \<and> encode x = Inr bs"
begin

lemma encode_inject: "ok x \<Longrightarrow> ok y \<Longrightarrow> encode x = encode y \<Longrightarrow> x = y"
  using decode_encode[of x] decode_encode[of y] by auto

lemma decode_inject: "shape bs \<Longrightarrow> shape cs \<Longrightarrow> decode bs = decode cs \<Longrightarrow> bs = cs"
  using encode_decode[of bs] encode_decode[of cs] by auto

end

interpretation nibbles: byte_codec pack_4bit "\<lambda>bs. unpack_4bit bs (2 * length bs)"
    "\<lambda>xs. even (length xs) \<and> (\<forall>x\<in>set xs. unat x < 16)" "\<lambda>_. True"
proof
  fix xs :: "32 word list" assume xs: "even (length xs) \<and> (\<forall>x\<in>set xs. unat x < 16)"
  then have "map (\<lambda>x. x AND 0xF) xs = xs" by (intro map_idI) (simp only: nibble_small)
  with xs have "unpack_4bit (pack_pairs xs) (2 * length (pack_pairs xs)) = Inr xs"
    by (simp only: unpack_4bit_def Let_def unpack_pack_pairs) (simp add: guard_r_def length_pack_pairs)
  with xs show "\<exists>bs. pack_4bit xs = Inr bs \<and> True \<and> unpack_4bit bs (2 * length bs) = Inr xs"
    by (simp add: pack_4bit_def guard_r_def)
next
  fix bs :: bytes
  show "\<exists>xs. unpack_4bit bs (2 * length bs) = Inr xs \<and> pack_4bit xs = Inr bs"
    by (simp only: unpack_4bit_def Let_def pack_4bit_def length_nibbles guard_r_def)
      (simp add: length_nibbles pack_unpack_pairs)
qed

interpretation half: byte_codec "\<lambda>w. Inr (fp16_to_bytes w)" bytes_to_fp16 "\<lambda>_. True" "\<lambda>bs. length bs = 2"
proof
  fix w :: fp16
  show "\<exists>bs. Inr (fp16_to_bytes w) = Inr bs \<and> length bs = 2 \<and> bytes_to_fp16 bs = Inr w"
    using half_join[of w] by (simp add: fp16_to_bytes_def bytes_to_fp16_def nth_r_def)
next
  fix bs :: bytes assume "length bs = 2"
  then obtain b0 b1 where bs: "bs = [b0, b1]" by (auto simp: numeral_2_eq_2 length_Suc_conv)
  show "\<exists>w. bytes_to_fp16 bs = Inr w \<and> Inr (fp16_to_bytes w) = Inr bs"
    using half_split[of b0 b1] by (simp add: bs fp16_to_bytes_def bytes_to_fp16_def nth_r_def)
qed

section \<open>Quantisation picks the nearest centroid\<close>

text \<open>What the documentation of \<open>torch.bucketize\<close> promises for \<open>right=False\<close>: in a sorted sequence of
  boundaries the result \<open>i\<close> has \<open>boundaries[i-1] < v <= boundaries[i]\<close>.\<close>

definition bucketize_contract :: "('a :: linordered_field \<Rightarrow> 'a list \<Rightarrow> int) \<Rightarrow> bool" where
  "bucketize_contract f \<longleftrightarrow>
     (\<forall>v bs. sorted bs \<longrightarrow> 0 \<le> f v bs \<and> f v bs \<le> int (length bs) \<and>
        (\<forall>j < length bs. (int j < f v bs \<longrightarrow> bs ! j < v) \<and> (f v bs \<le> int j \<longrightarrow> v \<le> bs ! j)))"

lemma length_midpoints: "length (compute_midpoints c) = length c - 1"
  by (simp add: compute_midpoints_def Let_def)

lemma nth_midpoints:
  "sorted c \<Longrightarrow> Suc j < length c \<Longrightarrow> compute_midpoints c ! j = (c ! j + c ! Suc j) / 2"
  by (simp add: compute_midpoints_def Let_def sorted_sort_id nth_butlast nth_tl)

lemma sorted_midpoints:
  assumes "sorted c" shows "sorted (compute_midpoints c)"
proof (rule sorted_iff_nth_mono[THEN iffD2], intro allI impI)
  fix i j assume ij: "i \<le> j" "j < length (compute_midpoints c)"
  then have l: "Suc j < length c" by (simp add: length_midpoints)
  with assms ij show "compute_midpoints c ! i \<le> compute_midpoints c ! j"
    by (simp add: nth_midpoints divide_right_mono add_mono sorted_nth_mono)
qed

lemma between_midpoints_nearest:
  fixes v :: "'a :: linordered_field"
  assumes c: "sorted c" and i: "i < length c" and k: "k < length c"
    and below: "\<And>j. j < i \<Longrightarrow> compute_midpoints c ! j \<le> v"
    and above: "\<And>j. i \<le> j \<Longrightarrow> Suc j < length c \<Longrightarrow> v \<le> compute_midpoints c ! j"
  shows "\<bar>v - c ! i\<bar> \<le> \<bar>v - c ! k\<bar>"
proof (cases i k rule: linorder_cases)
  case less
  with k have "v \<le> (c ! i + c ! Suc i) / 2" using above[of i] c by (simp add: nth_midpoints)
  moreover have "c ! Suc i \<le> c ! k" "c ! i \<le> c ! k" using less c k by (auto intro: sorted_nth_mono)
  ultimately show ?thesis by (simp add: field_simps)
next
  case greater
  then obtain m where m: "i = Suc m" by (cases i) auto
  then have "(c ! m + c ! i) / 2 \<le> v" using below[of m] c i by (simp add: nth_midpoints)
  moreover have "c ! k \<le> c ! m" "c ! k \<le> c ! i" using greater c i m by (auto intro: sorted_nth_mono)
  ultimately show ?thesis by (simp add: field_simps)
qed simp

definition nearest :: "'a :: linordered_field list \<Rightarrow> 'a \<Rightarrow> nat \<Rightarrow> bool" where
  "nearest c v i \<longleftrightarrow> i < length c \<and> (\<forall>k < length c. \<bar>v - c ! i\<bar> \<le> \<bar>v - c ! k\<bar>)"

lemma quantize_indices_nearest:
  assumes "sorted c" "c \<noteq> []" "length c \<le> 16" "bucketize_contract (k_bucketize K)" "j < length y"
  shows "nearest c (y ! j) (unat (quantize_indices K (compute_midpoints c) (length c) y ! j))"
proof -
  let ?m = "compute_midpoints c" let ?i = "k_bucketize K (y ! j) ?m"
  have b: "0 \<le> ?i" "?i \<le> int (length ?m)"
    and s: "\<And>j'. j' < length ?m \<Longrightarrow> (int j' < ?i \<longrightarrow> ?m ! j' < y ! j) \<and> (?i \<le> int j' \<longrightarrow> y ! j \<le> ?m ! j')"
    using assms(4) sorted_midpoints[OF assms(1)] by (auto simp: bucketize_contract_def)
  have "length c > 0" using assms(2) by simp
  then have i: "nat ?i < length c" using b unfolding length_midpoints by linarith
  then have "unat (word_of_int ?i :: 32 word) = nat ?i"
    using assms(3) b by (simp add: unat_eq_nat_uint uint_word_of_int_eq take_bit_int_eq_self)
  moreover have "nearest c (y ! j) (nat ?i)" unfolding nearest_def
    using i b s by (auto intro!: between_midpoints_nearest[OF assms(1) i] intro: less_imp_le simp: length_midpoints)
  moreover have "min (max ?i 0) (int (length c) - 1) = ?i" using b i by linarith
  ultimately show ?thesis using assms(5) by (simp add: quantize_indices_def)
qed

lemma length_quantize_indices [simp]: "length (quantize_indices K m n y) = length y"
  by (simp add: quantize_indices_def)

lemma quantize_indices_packed:
  assumes "sorted c" "c \<noteq> []" "length c \<le> 16" "bucketize_contract (k_bucketize K)" "even (length y)"
  obtains p where "pack_4bit (quantize_indices K (compute_midpoints c) (length c) y) = Inr p"
    "length p = length y div 2" "unpack_4bit p (length y) = Inr (quantize_indices K (compute_midpoints c) (length c) y)"
proof -
  let ?q = "quantize_indices K (compute_midpoints c) (length c) y"
  have "\<forall>x\<in>set ?q. unat x < 16"
    using quantize_indices_nearest[OF assms(1-4)] assms(3) by (fastforce simp: in_set_conv_nth nearest_def)
  then obtain p where p: "pack_4bit ?q = Inr p" "unpack_4bit p (2 * length p) = Inr ?q"
    using nibbles.decode_encode[of ?q] assms(5) by auto
  then have "length p = length y div 2"
    by (auto simp: pack_4bit_def guard_r_def length_pack_pairs split: if_splits)
  with p assms(5) show ?thesis using that by auto
qed

text \<open>The coordinates the quantiser rounds, and what a row of bytes must hold at \<open>base\<close> for the
  dequantiser's \<open>unpack_rows\<close> to find that vector.\<close>

definition rotated :: "'a :: linordered_field kernels \<Rightarrow> 'a matrix \<Rightarrow> 'a list \<Rightarrow> 'a list" where
  "rotated K Pi x = k_matmul_t K (map (\<lambda>v. v / (k_norm K x + 1 / 10 ^ 8)) x) Pi"

abbreviation mse_bytes_of :: "nat \<Rightarrow> nat" where
  "mse_bytes_of D \<equiv> nat (cdiv (int D * MSE_BITS) 8)"

definition holds_vector ::
    "'a :: linordered_field kernels \<Rightarrow> 'a matrix \<Rightarrow> 'a list \<Rightarrow> nat \<Rightarrow> 'a list \<Rightarrow> bytes \<Rightarrow> nat \<Rightarrow> bool" where
  "holds_vector K Pi c D x row base \<longleftrightarrow>
     (\<exists>idx. unpack_rows [row] base (mse_bytes_of D) D = Inr (\<lparr>tshape = [1, D], tdata = idx\<rparr>, [k_to_fp16 K (k_norm K x)]) \<and>
       (\<forall>j < D. nearest c (rotated K Pi x ! j) (unat (idx ! j))))"

lemma cdiv_eight: "cdiv (8 * n) 8 = n"
  using cdiv_mult[of 8 n] by (simp add: mult.commute)

lemma mse_bytes_even: "even D \<Longrightarrow> mse_bytes_of D = D div 2"
  by (auto simp: MSE_BITS_def cdiv_eight elim!: evenE)

lemma slot_size_even: "even D \<Longrightarrow> compute_paper_slot_size (int D) = int (D + 4)"
  by (auto simp: compute_paper_slot_size_def MSE_BITS_def Let_def cdiv_eight elim!: evenE)

lemma quantize_single_vector_ok:
  assumes c: "sorted c" "c \<noteq> []" "length c \<le> 16" and K: "bucketize_contract (k_bucketize K)"
    and D: "length (rotated K Pi x) = D" "even D"
  obtains row where "quantize_single_vector K x Pi c (compute_midpoints c) = Inr row" "length row = D div 2 + 2"
    "\<And>pre post. holds_vector K Pi c D x (pre @ row @ post) (length pre)"
proof -
  let ?q = "quantize_indices K (compute_midpoints c) (length c) (rotated K Pi x)"
  obtain p where p: "pack_4bit ?q = Inr p" "length p = D div 2" "unpack_4bit p D = Inr ?q"
    using quantize_indices_packed[OF c K, of "rotated K Pi x"] D by metis
  let ?f = "fp16_to_bytes (k_to_fp16 K (k_norm K x))"
  have f: "length ?f = 2" "bytes_to_fp16 ?f = Inr (k_to_fp16 K (k_norm K x))"
    using half.decode_encode[of "k_to_fp16 K (k_norm K x)"] by auto
  show thesis
  proof (rule that[of "p @ ?f"])
    show "quantize_single_vector K x Pi c (compute_midpoints c) = Inr (p @ ?f)"
      using p(1) by (simp add: quantize_single_vector_def rotated_def)
    show "length (p @ ?f) = D div 2 + 2" using p f by simp
    fix pre post
    have "\<And>j. j < D \<Longrightarrow> nearest c (rotated K Pi x ! j) (unat (?q ! j))"
      using quantize_indices_nearest[OF c K] D by simp
    then show "holds_vector K Pi c D x (pre @ (p @ ?f) @ post) (length pre)"
      unfolding holds_vector_def mse_bytes_even[OF D(2)] using p f D
      by (intro exI[of _ ?q]) (simp add: unpack_rows_def)
  qed
qed

lemma quantize_single_vector_odd:
  "odd (length (rotated K Pi x)) \<Longrightarrow> quantize_single_vector K x Pi c m = Inl RuntimeError"
  by (simp add: quantize_single_vector_def pack_4bit_def guard_r_def rotated_def)

section \<open>The scatter writes each cell and no other\<close>

lemma slot_position:
  assumes "off < n" "0 \<le> s"
  shows "int (b * n + off) = s \<longleftrightarrow> b = nat (s div int n) \<and> off = nat (s mod int n)"
proof -
  obtain m where m: "s = int m" using assms(2) by (metis nonneg_int_cases)
  have "b * n + off = m \<longleftrightarrow> b = m div n \<and> off = m mod n" using assms(1) by auto
  then show ?thesis by (simp add: m zdiv_int[symmetric] zmod_int[symmetric] del: of_nat_add of_nat_mult)
qed

lemma fold_write_cell:
  assumes "pc_block_size c > 0" "distinct (map fst ws)"
    "\<forall>((s, h), d) \<in> set ws. 0 \<le> s \<and> s < int (pc_num_blocks c * pc_block_size c) \<and> h < pc_num_heads c"
  shows "\<exists>c'. fold_r write_cell ws c = Inr c' \<and>
     c' = c\<lparr>pc_cells := pc_cells c'\<rparr> \<and>
     (\<forall>b off h. off < pc_block_size c \<longrightarrow> pc_cells c' b off h =
        (case map_of ws (int (b * pc_block_size c + off), h) of Some d \<Rightarrow> d | None \<Rightarrow> pc_cells c b off h))"
  using assms
proof (induction ws arbitrary: c)
  case (Cons w ws)
  obtain s h d where w: "w = ((s, h), d)" by (metis surj_pair)
  let ?n = "pc_block_size c" let ?b = "nat (s div int ?n)" let ?o = "nat (s mod int ?n)"
  define c1 where "c1 = c\<lparr>pc_cells := (pc_cells c)(?b := (pc_cells c ?b)(?o := (pc_cells c ?b ?o)(h := d)))\<rparr>"
  have s: "0 \<le> s" "s < int (pc_num_blocks c) * int ?n" "h < pc_num_heads c" using Cons.prems w by auto
  then have "s div int ?n < int (pc_num_blocks c)" using Cons.prems(1) le_div_iff_int[of "int ?n" "int (pc_num_blocks c)" s] by simp
  then have wr: "write_cell w c = Inr c1"
    using s Cons.prems(1) by (simp add: write_cell_def w guard_r_def Let_def nat_less_iff pos_imp_zdiv_nonneg_iff c1_def)
  obtain c' where c': "fold_r write_cell ws c1 = Inr c'" "c' = c1\<lparr>pc_cells := pc_cells c'\<rparr>"
      "\<And>b off k. off < ?n \<Longrightarrow> pc_cells c' b off k =
        (case map_of ws (int (b * ?n + off), k) of Some d \<Rightarrow> d | None \<Rightarrow> pc_cells c1 b off k)"
    using Cons.IH[of c1] Cons.prems by (auto simp: w c1_def)
  have "pc_cells c1 b off k = (if int (b * ?n + off) = s \<and> k = h then d else pc_cells c b off k)"
    if "off < ?n" for b off k
    unfolding slot_position[OF that s(1)] by (simp add: c1_def)
  moreover have "map_of ws (s, h) = None" using Cons.prems(2) by (simp add: w map_of_eq_None_iff)
  moreover have "c' = c\<lparr>pc_cells := pc_cells c'\<rparr>" by (subst c'(2)) (simp add: c1_def)
  ultimately show ?case using wr c'(1,3)
    by (intro exI[of _ c']) (auto simp: w simp del: of_nat_add of_nat_mult split: option.split)
qed simp

lemma filter_product: "filter (\<lambda>(s, _). P s) (List.product xs ys) = List.product (filter P xs) ys"
  by (induction xs) (auto simp: filter_map o_def)

lemma map_fst_filter_zip: "length xs = length ys \<Longrightarrow> map fst (filter (\<lambda>(x, _). P x) (zip xs ys)) = filter P xs"
  by (induction xs ys rule: list_induct2) auto

lemma slots_product:
  "length sm = length key \<Longrightarrow> (\<forall>hs\<in>set key. length hs = n) \<Longrightarrow>
     concat (map2 (\<lambda>s heads. map (\<lambda>h. (s, h)) [0..<length heads]) sm key) = List.product sm [0..<n]"
  by (induction sm key rule: list_induct2) auto

lemma length_concat_uniform: "(\<forall>hs\<in>set key. length hs = n) \<Longrightarrow> length (concat key) = length key * n"
  by (induction key) auto

lemma nth_concat_uniform:
  "(\<forall>hs\<in>set key. length hs = n) \<Longrightarrow> t < length key \<Longrightarrow> h < n \<Longrightarrow> concat key ! (t * n + h) = key ! t ! h"
proof (induction key arbitrary: t)
  case (Cons a key) then show ?case by (cases t) (auto simp: nth_append)
qed simp

lemma uniform_lengths: "(\<forall>hs\<in>set xs. length hs = n) \<Longrightarrow> map length xs = replicate (length xs) n"
  by (induction xs) auto

lemma uniform_position: "t < a \<Longrightarrow> h < n \<Longrightarrow> t * n + h < a * (n :: nat)"
  by (metis add_less_cancel_left less_le_trans mult_Suc add.commute mult_le_mono1 Suc_leI)

lemma store_runs:
  assumes q: "\<And>x. quantize_single_vector K x Pi c m = Inr (q x) \<and> 2 * length (q x) = pc_slot_size cache"
    and shape: "length value = length key" "\<forall>hs\<in>set key. length hs = n" "\<forall>hs\<in>set value. length hs = n"
      "length sm = length key" "n \<le> pc_num_heads cache"
    and slots: "pc_block_size cache > 0" "distinct (filter (\<lambda>s. 0 \<le> s) sm)"
      "\<forall>s\<in>set sm. s < int (pc_num_blocks cache * pc_block_size cache)"
  defines "ws \<equiv> filter (\<lambda>((s, _), _). 0 \<le> s) (zip (List.product sm [0..<n]) (map2 (@) (map q (concat key)) (map q (concat value))))"
  shows "map fst ws = List.product (filter (\<lambda>s. 0 \<le> s) sm) [0..<n]"
    and "\<exists>cache'. store_turboquant_kv K key value cache sm Pi c m = Inr cache' \<and>
      (\<forall>b off h. off < pc_block_size cache \<longrightarrow> pc_cells cache' b off h =
        (case map_of ws (int (b * pc_block_size cache + off), h) of Some d \<Rightarrow> d | None \<Rightarrow> pc_cells cache b off h))"
proof -
  let ?data = "map2 (@) (map q (concat key)) (map q (concat value))"
  have len: "length ?data = length key * n" "length (List.product sm [0..<n]) = length key * n"
    using shape length_concat_uniform[OF shape(2)] length_concat_uniform[OF shape(3)] by auto
  have "length (q a) + length (q b) = pc_slot_size cache" for a b using q[of a] q[of b] by simp
  then have wide: "list_all (\<lambda>d. length d = pc_slot_size cache) ?data"
    by (auto simp: list_all_iff in_set_conv_nth)
  show keys: "map fst ws = List.product (filter (\<lambda>s. 0 \<le> s) sm) [0..<n]"
    using map_fst_filter_zip[of "List.product sm [0..<n]" ?data "\<lambda>(s, _). 0 \<le> s"] len
    by (simp add: ws_def filter_product[of "\<lambda>s. 0 \<le> s" sm "[0..<n]", symmetric] case_prod_unfold)
  have bounded: "\<forall>((s, h), d) \<in> set ws. 0 \<le> s \<and> s < int (pc_num_blocks cache * pc_block_size cache) \<and> h < pc_num_heads cache"
    using slots(3) shape(5) by (auto simp: ws_def dest!: set_zip_leftD)
  have "distinct (map fst ws)" unfolding keys using slots(2) by (simp add: distinct_product)
  then obtain cache' where run: "fold_r write_cell ws cache = Inr cache'"
    and cells: "\<forall>b off h. off < pc_block_size cache \<longrightarrow> pc_cells cache' b off h =
        (case map_of ws (int (b * pc_block_size cache + off), h) of Some d \<Rightarrow> d | None \<Rightarrow> pc_cells cache b off h)"
    using fold_write_cell[OF slots(1) _ bounded] by blast
  have "map length key = map length value" using uniform_lengths[OF shape(2)] uniform_lengths[OF shape(3)] shape(1) by simp
  moreover have "map_result (\<lambda>x. quantize_single_vector K x Pi c m) xs = Inr (map q xs)" for xs
    using q by (intro map_result_Inr) simp
  ultimately have "store_turboquant_kv K key value cache sm Pi c m = Inr cache'"
    unfolding store_turboquant_kv_def Let_def slots_product[OF shape(4,2)]
    using run[unfolded ws_def] wide shape(4) slots(1) by (simp add: guard_r_def)
  with cells show "\<exists>cache'. store_turboquant_kv K key value cache sm Pi c m = Inr cache' \<and>
      (\<forall>b off h. off < pc_block_size cache \<longrightarrow> pc_cells cache' b off h =
        (case map_of ws (int (b * pc_block_size cache + off), h) of Some d \<Rightarrow> d | None \<Rightarrow> pc_cells cache b off h))" by blast
qed

lemma store_cells:
  assumes q: "\<And>x. quantize_single_vector K x Pi c m = Inr (q x) \<and> 2 * length (q x) = pc_slot_size cache"
    and shape: "length value = length key" "\<forall>hs\<in>set key. length hs = n" "\<forall>hs\<in>set value. length hs = n"
      "length sm = length key" "n \<le> pc_num_heads cache"
    and slots: "pc_block_size cache > 0" "distinct (filter (\<lambda>s. 0 \<le> s) sm)"
      "\<forall>s\<in>set sm. s < int (pc_num_blocks cache * pc_block_size cache)"
  shows "\<exists>cache'. store_turboquant_kv K key value cache sm Pi c m = Inr cache' \<and>
     (\<forall>t < length key. \<forall>h < n. 0 \<le> sm ! t \<longrightarrow>
        pc_cells cache' (nat (sm ! t div int (pc_block_size cache))) (nat (sm ! t mod int (pc_block_size cache))) h
          = q (key ! t ! h) @ q (value ! t ! h)) \<and>
     (\<forall>b off h. off < pc_block_size cache \<longrightarrow> (int (b * pc_block_size cache + off) \<notin> set sm \<or> n \<le> h) \<longrightarrow>
        pc_cells cache' b off h = pc_cells cache b off h)"
proof -
  let ?data = "map2 (@) (map q (concat key)) (map q (concat value))"
  define ws where "ws = filter (\<lambda>((s, _), _). 0 \<le> s) (zip (List.product sm [0..<n]) ?data)"
  note runs = store_runs[OF q shape slots, folded ws_def]
  obtain cache' where st: "store_turboquant_kv K key value cache sm Pi c m = Inr cache'"
    and cells: "\<And>b off h. off < pc_block_size cache \<Longrightarrow> pc_cells cache' b off h =
        (case map_of ws (int (b * pc_block_size cache + off), h) of Some d \<Rightarrow> d | None \<Rightarrow> pc_cells cache b off h)"
    using runs(2) by blast
  have dist: "distinct (map fst ws)" unfolding runs(1) using slots(2) by (simp add: distinct_product)
  have "pc_cells cache' (nat (sm ! t div int (pc_block_size cache))) (nat (sm ! t mod int (pc_block_size cache))) h
          = q (key ! t ! h) @ q (value ! t ! h)" (is "pc_cells cache' ?b ?o h = _")
    if t: "t < length key" "h < n" "0 \<le> sm ! t" for t h
  proof -
    have o: "?o < pc_block_size cache" using slots(1) by (simp add: nat_less_iff)
    have pos: "int (?b * pc_block_size cache + ?o) = sm ! t" using slot_position[OF o t(3)] by blast
    have p: "t * n + h < length key * n" using uniform_position t by blast
    have len: "length (concat key) = length key * n" "length (concat value) = length key * n"
      using length_concat_uniform[OF shape(2)] length_concat_uniform[OF shape(3)] shape(1) by auto
    have "zip (List.product sm [0..<n]) ?data ! (t * n + h) = ((sm ! t, h), q (key ! t ! h) @ q (value ! t ! h))"
      using p t len shape by (simp add: nth_concat_uniform product_nth)
    moreover have "t * n + h < length (zip (List.product sm [0..<n]) ?data)" using p len shape(4) by simp
    ultimately have "((sm ! t, h), q (key ! t ! h) @ q (value ! t ! h)) \<in> set (zip (List.product sm [0..<n]) ?data)"
      by (metis nth_mem)
    then have "((sm ! t, h), q (key ! t ! h) @ q (value ! t ! h)) \<in> set ws" using t(3) by (simp add: ws_def)
    then show ?thesis unfolding cells[OF o] pos using map_of_is_SomeI[OF dist] by simp
  qed
  moreover have "pc_cells cache' b off h = pc_cells cache b off h"
    if "off < pc_block_size cache" "int (b * pc_block_size cache + off) \<notin> set sm \<or> n \<le> h" for b off h
  proof -
    have "(int (b * pc_block_size cache + off), h) \<notin> set (map fst ws)" unfolding runs(1) using that(2) by auto
    then have "map_of ws (int (b * pc_block_size cache + off), h) = None" unfolding map_of_eq_None_iff by simp
    then show ?thesis using cells[OF that(1)] by simp
  qed
  ultimately show ?thesis using st by blast
qed

text \<open>C4: After \<open>store_turboquant_kv\<close> every cell addressed by a non-negative slot holds the key and the value of
  its token and head, in the form the dequantiser unpacks: at offset 0 and at offset \<open>per_vector\<close> the
  indices of the nearest centroids of the rotated, normalised coordinates and the half-precision norm.
  Negative slots are skipped and every other cell is unchanged.\<close>

theorem store_then_unpack:
  assumes c: "sorted c" "c \<noteq> []" "length c \<le> 16" and K: "bucketize_contract (k_bucketize K)"
    and D: "\<And>x. length (k_matmul_t K x Pi) = D" "even D" "int (pc_slot_size cache) = compute_paper_slot_size (int D)"
    and shape: "length value = length key" "\<forall>hs\<in>set key. length hs = n" "\<forall>hs\<in>set value. length hs = n"
      "length sm = length key" "n \<le> pc_num_heads cache"
    and slots: "pc_block_size cache > 0" "distinct (filter (\<lambda>s. 0 \<le> s) sm)"
      "\<forall>s\<in>set sm. s < int (pc_num_blocks cache * pc_block_size cache)"
  shows "\<exists>cache'. store_turboquant_kv K key value cache sm Pi c (compute_midpoints c) = Inr cache' \<and>
     (\<forall>t < length key. \<forall>h < n. 0 \<le> sm ! t \<longrightarrow>
        (let row = pc_cells cache' (nat (sm ! t div int (pc_block_size cache))) (nat (sm ! t mod int (pc_block_size cache))) h
         in holds_vector K Pi c D (key ! t ! h) row 0 \<and> holds_vector K Pi c D (value ! t ! h) row (mse_bytes_of D + 2))) \<and>
     (\<forall>b off h. off < pc_block_size cache \<longrightarrow> (int (b * pc_block_size cache + off) \<notin> set sm \<or> n \<le> h) \<longrightarrow>
        pc_cells cache' b off h = pc_cells cache b off h)"
proof -
  define q where "q x = projr (quantize_single_vector K x Pi c (compute_midpoints c))" for x
  obtain e where e: "D = 2 * e" using D(2) by (elim evenE)
  have q: "quantize_single_vector K x Pi c (compute_midpoints c) = Inr (q x) \<and> length (q x) = D div 2 + 2 \<and>
      (\<forall>pre post. holds_vector K Pi c D x (pre @ q x @ post) (length pre))" for x
    using D(1,2) by (rule_tac quantize_single_vector_ok[OF c K, of Pi x D]) (simp_all add: rotated_def q_def)
  have "pc_slot_size cache = D + 4" using D(2,3) slot_size_even[of D] by simp
  with q e have width: "quantize_single_vector K x Pi c (compute_midpoints c) = Inr (q x) \<and> 2 * length (q x) = pc_slot_size cache" for x
    by simp
  have "holds_vector K Pi c D x (q x @ q y) 0 \<and> holds_vector K Pi c D y (q x @ q y) (mse_bytes_of D + 2)" for x y
    using q[of x, THEN conjunct2, THEN conjunct2, rule_format, of "[]" "q y"] q[of y, THEN conjunct2, THEN conjunct2, rule_format, of "q x" "[]"]
      q[of x] mse_bytes_even[OF D(2)] by simp
  then show ?thesis using store_cells[OF width shape slots] by (fastforce simp: Let_def)
qed

definition sample_kernels :: "real kernels" where
  "sample_kernels =
     \<lparr>k_norm = (\<lambda>x. sqrt (sum_list (map (\<lambda>v. v * v) x))),
      k_matmul_t = (\<lambda>x Pi. map (\<lambda>row. sum_list (map2 (*) x row)) Pi),
      k_bucketize = (\<lambda>v bs. int (length (takeWhile (\<lambda>b. b < v) bs))),
      k_to_fp16 = (\<lambda>v. word_of_int \<lfloor>v * 1024\<rfloor>)\<rparr>"

lemma takeWhile_bucketize: "bucketize_contract (\<lambda>v bs. int (length (takeWhile (\<lambda>b. b < v) bs)))"
  unfolding bucketize_contract_def
proof (intro allI impI conjI)
  fix v :: 'a and bs :: "'a list" and j
  let ?n = "length (takeWhile (\<lambda>b. b < v) bs)"
  assume bs: "sorted bs"
  show "int ?n \<le> int (length bs)" by (simp add: length_takeWhile_le)
  assume j: "j < length bs"
  show "bs ! j < v" if "int j < int ?n"
    using that by (metis nth_mem set_takeWhileD takeWhile_nth of_nat_less_iff)
  show "v \<le> bs ! j" if "int ?n \<le> int j"
    using that j nth_length_takeWhile[of "\<lambda>b. b < v" bs] sorted_nth_mono[OF bs, of ?n j] by force
qed simp

theorem store_then_unpack_witness:
  "\<exists>cache'. store_turboquant_kv sample_kernels [[[3, 4]], [[1, 2]]] [[[0, 5]], [[2, 2]]]
       \<lparr>pc_num_blocks = 2, pc_block_size = 4, pc_num_heads = 1, pc_slot_size = 6, pc_cells = (\<lambda>_ _ _. replicate 6 0)\<rparr>
       [5, -1] [[1, 0], [0, 1]] [-1, 1] (compute_midpoints [-1, 1]) = Inr cache' \<and>
     holds_vector sample_kernels [[1, 0], [0, 1]] [-1, 1] 2 [3, 4] (pc_cells cache' 1 1 0) 0 \<and>
     pc_cells cache' 0 0 0 = replicate 6 0"
  using store_then_unpack[of "[-1, 1]" sample_kernels "[[1, 0], [0, 1]]" 2
      "\<lparr>pc_num_blocks = 2, pc_block_size = 4, pc_num_heads = 1, pc_slot_size = 6, pc_cells = (\<lambda>_ _ _. replicate 6 0)\<rparr>"
      "[[[0, 5]], [[2, 2]]]" "[[[3, 4]], [[1, 2]]]" 1 "[5, -1]"]
  by (fastforce simp: sample_kernels_def takeWhile_bucketize slot_size_even[of 2, simplified] Let_def less_Suc_eq)

section \<open>The rotation is the factor with a positive diagonal\<close>

lemma nth_build_random_rotation:
  assumes "qr (randn seed d) = (Q, R)" "length R = d" "i < length Q" "length (Q ! i) = d" "j < d"
  shows "build_random_rotation randn qr d seed ! i ! j = Q ! i ! j * sgn (R ! j ! j)"
  using assms by (simp add: build_random_rotation_def)

text \<open>C28: The sign fix turns the factorisation that the QR routine returns into the one with a positive diagonal: for
  factors \<open>Q\<close> and \<open>R\<close> with no zero on the diagonal of \<open>R\<close> there is an \<open>R'\<close> with the diagonal \<open>|R[j][j]|\<close> and a zero wherever
  \<open>R\<close> has one, so triangular when \<open>R\<close> is, such that the returned matrix times \<open>R'\<close> is \<open>Q\<close> times \<open>R\<close>; and any two rows of
  the returned matrix have the inner product the rows of \<open>Q\<close> have, so it is orthogonal when \<open>Q\<close> is.\<close>

theorem rotation_positive_factor:
  assumes qr: "qr (randn seed d) = (Q, R)" and Q: "length Q = d" "\<forall>i<d. length (Q ! i) = d" and R: "length R = d" "\<forall>j<d. R ! j ! j \<noteq> 0"
  defines "P \<equiv> build_random_rotation randn qr d seed"
  shows "(\<exists>R'. (\<forall>j<d. R' j j = \<bar>R ! j ! j\<bar>) \<and> (\<forall>j<d. \<forall>k<d. R ! j ! k = 0 \<longrightarrow> R' j k = 0)
      \<and> (\<forall>i<d. \<forall>k<d. (\<Sum>j<d. P ! i ! j * R' j k) = (\<Sum>j<d. Q ! i ! j * R ! j ! k)))
    \<and> (\<forall>i<d. \<forall>k<d. (\<Sum>j<d. P ! i ! j * P ! k ! j) = (\<Sum>j<d. Q ! i ! j * Q ! k ! j))"
proof -
  let ?s = "\<lambda>j. sgn (R ! j ! j)"
  have s: "?s j * ?s j = 1" if "j < d" for j using R(2) that by (simp add: sgn_if)
  have P: "P ! i ! j = Q ! i ! j * ?s j" if "i < d" "j < d" for i j
    unfolding P_def using nth_build_random_rotation[of qr randn seed d Q R] qr R(1) Q that by simp
  have eq: "a * ?s j * (?s j * b) = a * b" if "j < d" for a b j
  proof -
    have "a * ?s j * (?s j * b) = a * (?s j * ?s j) * b" by (simp only: ac_simps)
    with s[OF that] show ?thesis by simp
  qed
  have "(\<Sum>j<d. P ! i ! j * (?s j * R ! j ! k)) = (\<Sum>j<d. Q ! i ! j * R ! j ! k)" if "i < d" for i k
    using that by (intro sum.cong) (simp_all add: P eq)
  moreover have "(\<Sum>j<d. P ! i ! j * P ! k ! j) = (\<Sum>j<d. Q ! i ! j * Q ! k ! j)" if "i < d" "k < d" for i k
    using that by (intro sum.cong refl) (simp add: P mult.commute[of "Q ! k ! _"] eq)
  moreover have "?s j * R ! j ! j = \<bar>R ! j ! j\<bar>" for j by (simp add: sgn_if)
  ultimately show ?thesis
    by (intro conjI exI[of _ "\<lambda>j k. ?s j * R ! j ! k"]) simp_all
qed

theorem rotation_positive_factor_witness:
  "let P = build_random_rotation (\<lambda>_ _. [[0, -2], [3, 1]]) (\<lambda>A. ([[0, 1], [1, 0]], [[3, 1], [0, -2 :: rat]])) 2 ROTATION_SEED
   in (\<exists>R' :: nat \<Rightarrow> nat \<Rightarrow> rat. R' 0 0 = 3 \<and> R' 1 1 = 2 \<and> R' 1 0 = 0 \<and> (\<Sum>j<2. P ! 0 ! j * R' j 1) = -2) \<and> (\<Sum>j<2. P ! 0 ! j * P ! 1 ! j) = 0"
proof -
  have all2: "(\<forall>i<2. F i) \<longleftrightarrow> F 0 \<and> F (1 :: nat)" for F by (auto simp: less_2_cases_iff)
  have sum2: "(\<Sum>j<2. f j) = f 0 + f (1 :: nat)" for f :: "nat \<Rightarrow> rat" by (simp add: numeral_2_eq_2)
  show ?thesis
    using rotation_positive_factor[of "\<lambda>A. ([[0, 1], [1, 0]], [[3, 1], [0, -2 :: rat]])" "\<lambda>_ _. [[0, -2], [3, 1]]" ROTATION_SEED 2
        "[[0, 1], [1, 0]]" "[[3, 1], [0, -2]]"]
    unfolding all2 sum2 Let_def by auto
qed

section \<open>The dequantiser cannot return\<close>

text \<open>What the documentation of \<open>torch.matmul\<close> says of a vector times a matrix: the sizes must match,
  and the result is a vector.\<close>

definition matmul_contract :: "('a tensor \<Rightarrow> 'a tensor \<Rightarrow> 'a tensor result) \<Rightarrow> bool" where
  "matmul_contract f \<longleftrightarrow>
     (\<forall>v M n m p. tshape v = [n] \<and> tshape M = [m, p] \<longrightarrow>
        (if n = m then \<exists>t. f v M = Inr t \<and> tshape t = [p] else f v M = Inl RuntimeError))"

lemma dequant_rank_one:
  "tshape pc = [p] \<Longrightarrow> dequant_paged_kv mul16 c bt sl pc kb vb = Inl IndexError"
  by (simp add: dequant_paged_kv_def t_shape1_def nth_r_def)

text \<open>C36: \<open>compute_pi_centroids\<close> multiplies the vector of centroids with the rotation matrix.  With 16 centroids it
  raises unless the head dimension is 16, and then it returns a vector, on which \<open>dequant_paged_kv\<close>
  raises: the pipeline never returns.\<close>

theorem dequant_pipeline_fails:
  assumes "matmul_contract matmul" "tshape centroids = [n]" "tshape Pi = [D, D]"
  shows "bind_r (compute_pi_centroids matmul to_fp16 centroids Pi) (\<lambda>pc. dequant_paged_kv mul16 cache bt sl pc kb vb)
    = Inl (if n = D then IndexError else RuntimeError)"
proof (cases "n = D")
  case True
  with assms obtain t where t: "matmul centroids Pi = Inr t" "tshape t = [D]"
    unfolding matmul_contract_def by metis
  let ?pc = "\<lparr>tshape = tshape t, tdata = map to_fp16 (tdata t)\<rparr>"
  have "dequant_paged_kv mul16 cache bt sl ?pc kb vb = Inl IndexError"
    by (rule dequant_rank_one[of _ D]) (simp add: t)
  then show ?thesis using True t by (simp add: compute_pi_centroids_def)
next
  case False
  with assms have "matmul centroids Pi = Inl RuntimeError" unfolding matmul_contract_def by metis
  then show ?thesis using False by (simp add: compute_pi_centroids_def)
qed

definition sample_matmul :: "int tensor \<Rightarrow> int tensor \<Rightarrow> int tensor result" where
  "sample_matmul v M =
     (case (tshape v, tshape M) of
        ([n], [m, p]) \<Rightarrow> if n = m then Inr \<lparr>tshape = [p], tdata = map (\<lambda>j. \<Sum>i<n. tdata v ! i * tdata M ! (i * p + j)) [0..<p]\<rparr>
                       else Inl RuntimeError
      | _ \<Rightarrow> Inl NotImplementedError)"

theorem dequant_pipeline_fails_witness:
  "bind_r (compute_pi_centroids sample_matmul (\<lambda>_. 0) \<lparr>tshape = [16], tdata = replicate 16 1\<rparr> \<lparr>tshape = [128, 128], tdata = replicate 16384 0\<rparr>)
     (\<lambda>pc. dequant_paged_kv (*) \<lparr>pc_num_blocks = 1, pc_block_size = 4, pc_num_heads = 1, pc_slot_size = 132, pc_cells = (\<lambda>_ _ _. [])\<rparr>
        [[0]] [3] pc None None) = Inl RuntimeError"
  using dequant_pipeline_fails[of sample_matmul "\<lparr>tshape = [16], tdata = replicate 16 1\<rparr>" 16 "\<lparr>tshape = [128, 128], tdata = replicate 16384 0\<rparr>" 128]
  by (simp add: matmul_contract_def sample_matmul_def)

lemma bcast_trailing_one:
  "bcast_rev (D # D # rest) [1, M] = Inr rs \<Longrightarrow> D \<noteq> 1 \<Longrightarrow> rs = D # D # rest"
  by (cases rest) (auto simp: result_simps split: if_splits)

lemma fold_times: "fold (*) s a = a * prod_list (s :: nat list)"
  by (induction s arbitrary: a) (simp_all add: ac_simps)

lemma numel_prod: "numel s = prod_list s"
  by (simp add: numel_def fold_times)

lemma recon_rank_three:
  assumes "tshape pc = [n, D]" "t_gather pc \<lparr>tshape = [M, D], tdata = idx\<rparr> = Inr g" "D \<noteq> 1"
    "t_mul mul16 g \<lparr>tshape = [m, 1], tdata = ns\<rparr> = Inr r"
  shows "tshape r = [M, D, D]"
proof -
  have "tshape g = [M, D, D]" using assms(1,2) by (auto simp: t_gather_def Let_def result_simps split: if_splits)
  then show ?thesis using assms(3,4) bcast_trailing_one[of D "[M]" m] by (auto simp: t_mul_def result_simps)
qed

lemma dequant_steps:
  assumes "dequant_paged_kv mul16 c bt sl pc kb vb = Inr r" "t_shape1 pc = Inr D"
    and "al = nat (cdiv (Max (set sl)) (int (pc_block_size c)) * int (pc_block_size c))"
  obtains flat idx norms g rec kb' t where "gather_slots c bt al = Inr flat"
    "unpack_rows flat 0 (mse_bytes_of D) D = Inr (idx, norms)" "t_gather pc idx = Inr g"
    "t_mul mul16 g \<lparr>tshape = [length norms, 1], tdata = norms\<rparr> = Inr rec"
    "recon_into kb' (length bt) al (pc_num_heads c) D rec = Inr t"
  using assms unfolding dequant_paged_kv_def Let_def
  by (simp only: result_simps assms(2) sum.inject split_paired_Ex case_prod_conv) blast

lemma map_result_lengths:
  "map_result f xs = Inr ys \<Longrightarrow> (\<And>x y. f x = Inr y \<Longrightarrow> length y = n) \<Longrightarrow> length (concat ys) = length xs * n"
  by (induction xs arbitrary: ys) (auto simp: result_simps)

lemma length_gather_slots:
  assumes "gather_slots c bt al = Inr flat"
  shows "length flat = length bt * al * pc_num_heads c"
proof -
  let ?f = "\<lambda>table pos. bind_r (nth_r table (min (int (pos div pc_block_size c)) (int (length table) - 1))) (\<lambda>blk.
            bind_r (guard_r (- int (pc_num_blocks c) \<le> blk \<and> blk < int (pc_num_blocks c)) IndexError) (\<lambda>_.
              Inr (map (pc_cells c (nat (if blk < 0 then blk + int (pc_num_blocks c) else blk)) (pos mod pc_block_size c)) [0..<pc_num_heads c])))"
  obtain rows where rows: "map_result (\<lambda>t. map_result (?f t) [0..<al]) bt = Inr rows" "flat = concat (concat rows)"
    using assms unfolding gather_slots_def Let_def by (auto simp: result_simps)
  have "length (concat r) = al * pc_num_heads c" if "map_result (?f t) [0..<al] = Inr r" for t r
  proof -
    have "length (concat r) = length [0..<al] * pc_num_heads c"
      by (rule map_result_lengths[OF that]) (auto simp: result_simps)
    then show ?thesis by simp
  qed
  then have "map_result (\<lambda>t. map_result (?f t) [0..<al]) bt = Inr rows \<Longrightarrow> length (concat (concat rows)) = length bt * (al * pc_num_heads c)"
    by (induction bt arbitrary: rows) (auto simp: result_simps)
  then show ?thesis using rows by (simp add: ac_simps)
qed

text \<open>C37: Nor does a table of the documented shape \<open>(n_centroids, D)\<close> help: indexing it with the \<open>(M, D)\<close> indices gives
  \<open>(M, D, D)\<close>, which neither the product with the norms nor the reshape to one vector per slot accepts.
  For any head dimension above one, any batch with a head and a positive sequence length,
  \<open>dequant_paged_kv\<close> raises.\<close>

theorem dequant_paged_kv_fails:
  assumes "tshape pc = [n, D]" "D > 1" "bt \<noteq> []" "pc_num_heads cache > 0" "pc_block_size cache > 0"
    "s \<in> set sl" "s > 0"
  shows "\<exists>e. dequant_paged_kv mul16 cache bt sl pc kb vb = Inl e"
proof (cases "dequant_paged_kv mul16 cache bt sl pc kb vb")
  case (Inr r)
  let ?bs = "int (pc_block_size cache)"
  define al where "al = nat (cdiv (Max (set sl)) ?bs * ?bs)"
  have D: "t_shape1 pc = Inr D" using assms(1) by (simp add: t_shape1_def nth_r_def)
  have "0 < Max (set sl)" using assms(6,7) by (meson List.finite_set Max_ge less_le_trans)
  then have al: "al > 0" using cdiv_covers[of ?bs "Max (set sl)"] assms(5) by (simp add: al_def)
  obtain flat idx norms g rec kb' t where
    flat: "gather_slots cache bt al = Inr flat" and un: "unpack_rows flat 0 (mse_bytes_of D) D = Inr (idx, norms)"
    and g: "t_gather pc idx = Inr g" and mul: "t_mul mul16 g \<lparr>tshape = [length norms, 1], tdata = norms\<rparr> = Inr rec"
    and into: "recon_into kb' (length bt) al (pc_num_heads cache) D rec = Inr t"
    using dequant_steps[OF Inr D al_def] by blast
  obtain ixs where "idx = \<lparr>tshape = [length flat, D], tdata = ixs\<rparr>" using un by (auto simp: unpack_rows_def result_simps)
  then have "tshape rec = [length flat, D, D]" using recon_rank_three[OF assms(1) _ _ mul] g assms(2) by simp
  then have "length bt * (al * (pc_num_heads cache * D)) = length bt * al * pc_num_heads cache * (D * D)"
    using into length_gather_slots[OF flat] by (auto simp: recon_into_def t_reshape_def numel_prod result_simps)
  moreover have "length bt * al * pc_num_heads cache * D > 0" using assms al by simp
  ultimately show ?thesis using assms(2) by (simp add: mult.assoc)
qed simp

theorem dequant_paged_kv_fails_witness:
  "\<exists>e. dequant_paged_kv (*) \<lparr>pc_num_blocks = 1, pc_block_size = 4, pc_num_heads = 1, pc_slot_size = 132, pc_cells = (\<lambda>_ _ _. replicate 132 0)\<rparr>
     [[0]] [3] \<lparr>tshape = [16, 128], tdata = replicate 2048 0\<rparr> None None = Inl e"
  by (rule dequant_paged_kv_fails[of _ 16 128 _ _ 3]) simp_all

end
