(* ===== verification/Spec2Isabelle.thy ===== *)
theory Spec2Isabelle
  imports Block_Pool Request_Queue Sched_Utils Encoder_Cache KV_Spec Cache_Hits Hybrid_Hits TurboQuant_Config Lloyd_Max TurboQuant_Ops
begin

text \<open>
  The KV-cache core of the serving engine and its TurboQuant quantiser.
\<close>

end
